(* ===== verification/Prelude.thy ===== *)
theory Prelude
  imports Main "HOL-Library.Word" "HOL-Library.Sublist"
begin

text \<open>
  Shared vocabulary of the development.  AK strings (\<^verbatim>\<open>StringView\<close>, \<^verbatim>\<open>ByteString\<close> and
  \<^verbatim>\<open>String\<close>) are byte strings, that is HOL strings (a \<open>char\<close> is one byte); a code point is a
  \<^verbatim>\<open>u32\<close>, read as a natural number.  A failed \<^verbatim>\<open>VERIFY\<close>, which aborts the process, is the value
  \<open>Verify_failed\<close> of the type \<open>exec\<close>; an empty \<^verbatim>\<open>Optional\<close> is \<open>None\<close>.
\<close>

unbundle bit_operations_syntax

type_synonym code_point = nat

type_synonym byte_string = string

abbreviation cp :: "char \<Rightarrow> code_point" where
  "cp c \<equiv> of_char c"

subsection \<open>Computations that may abort\<close>

datatype 'a exec = Done 'a | Verify_failed

fun exec_bind :: "'a exec \<Rightarrow> ('a \<Rightarrow> 'b exec) \<Rightarrow> 'b exec" where
  "exec_bind (Done x) f = f x"
| "exec_bind Verify_failed f = Verify_failed"

fun exec_map :: "('a \<Rightarrow> 'b) \<Rightarrow> 'a exec \<Rightarrow> 'b exec" where
  "exec_map f (Done x) = Done (f x)"
| "exec_map f Verify_failed = Verify_failed"

fun_cases exec_bind_DoneE [elim!]: "exec_bind m f = Done y"

lemma exec_bind_eq_Done_iff [simp]: "exec_bind m f = Done y \<longleftrightarrow> (\<exists>x. m = Done x \<and> f x = Done y)"
  by (cases m) auto

lemma exec_bind_eq_Verify_failed_iff [simp]:
  "exec_bind m f = Verify_failed \<longleftrightarrow> m = Verify_failed \<or> (\<exists>x. m = Done x \<and> f x = Verify_failed)"
  by (cases m) auto

lemma exec_map_eq_Verify_failed_iff [simp]: "exec_map f m = Verify_failed \<longleftrightarrow> m = Verify_failed"
  by (cases m) auto

lemma Some_eq_map_option_iff: "Some y = map_option f x \<longleftrightarrow> (\<exists>z. x = Some z \<and> y = f z)"
  by (cases x) auto

lemma exec_map_eq_Done_iff [simp]: "exec_map f m = Done y \<longleftrightarrow> (\<exists>x. m = Done x \<and> y = f x)"
  by (cases m) auto

named_theorems bit_arith \<open>bit operations of the source as arithmetic\<close>

named_theorems char_class \<open>membership in the ASCII character classes as ranges\<close>

subsection \<open>Masks and shifts on naturals\<close>

lemma and_mask_mod [bit_arith]:
  fixes n :: nat
  shows "n AND 7 = n mod 8" "n AND 15 = n mod 16" "n AND 31 = n mod 32" "n AND 63 = n mod 64"
    "n AND 127 = n mod 128" "n AND 255 = n mod 256"
  using take_bit_eq_mask [of 3 n] take_bit_eq_mask [of 4 n] take_bit_eq_mask [of 5 n]
    take_bit_eq_mask [of 6 n] take_bit_eq_mask [of 7 n] take_bit_eq_mask [of 8 n]
  by (simp_all add: take_bit_eq_mod mask_numeral)

lemma or_shifted_plus:
  fixes m n :: nat
  assumes "n < 2 ^ k"
  shows "(m * 2 ^ k) OR n = m * 2 ^ k + n"
proof -
  have small: "take_bit k n = n"
    using assms by (simp add: take_bit_nat_eq_self)
  have "push_bit k m AND take_bit k n = 0"
    by (rule bit_eqI) (auto simp: bit_and_iff bit_push_bit_iff bit_take_bit_iff)
  then have "push_bit k m + n = push_bit k m OR n"
    by (simp add: small disjunctive_add_eq_or)
  then show ?thesis by (simp add: push_bit_eq_mult)
qed

lemma or_lead_byte [bit_arith]:
  fixes n :: nat
  shows "n < 64 \<Longrightarrow> n OR 0x80 = 0x80 + n" "n < 32 \<Longrightarrow> n OR 0xC0 = 0xC0 + n"
    "n < 16 \<Longrightarrow> n OR 0xE0 = 0xE0 + n" "n < 8 \<Longrightarrow> n OR 0xF0 = 0xF0 + n"
  using or_shifted_plus [of n 6 2] or_shifted_plus [of n 5 6] or_shifted_plus [of n 4 14]
    or_shifted_plus [of n 3 30]
  by (simp_all add: or.commute [of n] add.commute)

lemma shift_or_cont [bit_arith]:
  fixes n m :: nat
  shows "m < 64 \<Longrightarrow> push_bit 6 n OR m = n * 64 + m"
  using or_shifted_plus [of m 6 n] by (simp add: push_bit_eq_mult)

lemma drop_bit_div [bit_arith]:
  fixes n :: nat
  shows "drop_bit 0 n = n" "drop_bit 4 n = n div 16" "drop_bit 6 n = n div 64"
    "drop_bit 8 n = n div 256" "drop_bit 12 n = n div 4096" "drop_bit 18 n = n div 262144"
  by (simp_all add: drop_bit_eq_div)

lemma mod_in_range:
  fixes b k m :: nat
  assumes "k * m \<le> b" "b < k * m + m"
  shows "b mod m = b - k * m"
proof -
  from assms obtain n where "b = k * m + n" "n < m" by (auto simp: le_iff_add)
  then show ?thesis by simp
qed

lemma div_in_range:
  fixes b k m :: nat
  assumes "0 < m"
  shows "b div m = k \<longleftrightarrow> k * m \<le> b \<and> b < k * m + m"
  using assms by (metis add.commute div_nat_eqI dividend_less_times_div mult.commute mult_Suc_right times_div_less_eq_dividend)

subsection \<open>Lists and strings\<close>

lemma of_char_less_256 [simp]: "(of_char c :: nat) < 256"
  using of_char_mod_256 [of c, where ?'a = nat] by (metis mod_less_divisor zero_less_numeral)

lemma of_char_eq_char_of [simp]: "n < 256 \<Longrightarrow> (of_char (char_of n) :: nat) = n"
  for n :: nat
  by simp

lemma char_of_eq_iff_mod:
  "(char_of n = c) = (n mod 256 = cp c)" "(c = char_of n) = (cp c = n mod 256)"
  for n :: nat
  by (metis char_of_eq_iff of_char_mod_256 of_char_of of_char_of)+

lemma list_all_concat_map: "list_all P (concat (map f xs)) = list_all (\<lambda>x. list_all P (f x)) xs"
  by (induction xs) auto

lemma takeWhile_append_stop:
  "\<lbrakk> list_all P xs; \<not> P y \<rbrakk> \<Longrightarrow> takeWhile P (xs @ y # ys) = xs"
  by (induction xs) auto

lemma dropWhile_append_stop:
  "\<lbrakk> list_all P xs; \<not> P y \<rbrakk> \<Longrightarrow> dropWhile P (xs @ y # ys) = y # ys"
  by (induction xs) auto

text \<open>
  The contract of an encoder and its decoder: decoding an encoded valid item gives it back.  The
  decoder may reject (\<open>Done None\<close>) or stop the process (\<open>Verify_failed\<close>) elsewhere.
\<close>

locale codec =
  fixes valid :: "'a \<Rightarrow> bool" and encode :: "'a \<Rightarrow> 'b" and decode :: "'b \<Rightarrow> 'a option exec"
  assumes decode_encode: "valid x \<Longrightarrow> decode (encode x) = Done (Some x)"
begin

lemma encode_eq_iff: "\<lbrakk> valid x; valid y \<rbrakk> \<Longrightarrow> encode x = encode y \<longleftrightarrow> x = y"
  by (metis decode_encode exec.inject option.inject)

lemma encode_inj: "inj_on encode {x. valid x}"
  by (rule inj_onI) (use encode_eq_iff in blast)

end

end
