(* ===== verification/AK_Characters.thy ===== *)
theory AK_Characters
  imports Prelude
begin

text \<open>
  The ASCII and Unicode character classes of \<^verbatim>\<open>AK/CharacterTypes.h\<close>, one definition per function,
  over code points.  The three digit parsers abort on a code point that is no digit
  (\<^verbatim>\<open>VERIFY_NOT_REACHED\<close>), which is \<open>Verify_failed\<close> here.
\<close>

definition is_ascii :: "code_point \<Rightarrow> bool" where
  "is_ascii c \<longleftrightarrow> c < 0x80"

definition is_ascii_digit :: "code_point \<Rightarrow> bool" where
  "is_ascii_digit c \<longleftrightarrow> cp CHR ''0'' \<le> c \<and> c \<le> cp CHR ''9''"

definition is_ascii_upper_alpha :: "code_point \<Rightarrow> bool" where
  "is_ascii_upper_alpha c \<longleftrightarrow> cp CHR ''A'' \<le> c \<and> c \<le> cp CHR ''Z''"

definition is_ascii_lower_alpha :: "code_point \<Rightarrow> bool" where
  "is_ascii_lower_alpha c \<longleftrightarrow> cp CHR ''a'' \<le> c \<and> c \<le> cp CHR ''z''"

definition is_ascii_alpha :: "code_point \<Rightarrow> bool" where
  "is_ascii_alpha c \<longleftrightarrow> is_ascii_lower_alpha c \<or> is_ascii_upper_alpha c"

definition is_ascii_alphanumeric :: "code_point \<Rightarrow> bool" where
  "is_ascii_alphanumeric c \<longleftrightarrow> is_ascii_alpha c \<or> is_ascii_digit c"

definition is_ascii_octal_digit :: "code_point \<Rightarrow> bool" where
  "is_ascii_octal_digit c \<longleftrightarrow> cp CHR ''0'' \<le> c \<and> c \<le> cp CHR ''7''"

definition is_ascii_uppercase_hex_digit :: "code_point \<Rightarrow> bool" where
  "is_ascii_uppercase_hex_digit c \<longleftrightarrow>
     is_ascii_digit c \<or> (cp CHR ''A'' \<le> c \<and> c \<le> cp CHR ''F'')"

definition is_ascii_hex_digit :: "code_point \<Rightarrow> bool" where
  "is_ascii_hex_digit c \<longleftrightarrow>
     is_ascii_uppercase_hex_digit c \<or> (cp CHR ''a'' \<le> c \<and> c \<le> cp CHR ''f'')"

definition is_ascii_space :: "code_point \<Rightarrow> bool" where
  "is_ascii_space c \<longleftrightarrow>
     c = cp CHR '' '' \<or> c = 0x09 \<or> c = 0x0A \<or> c = 0x0B \<or> c = 0x0C \<or> c = 0x0D"

definition is_ascii_printable :: "code_point \<Rightarrow> bool" where
  "is_ascii_printable c \<longleftrightarrow> 0x20 \<le> c \<and> c \<le> 0x7E"

definition is_ascii_c0_control :: "code_point \<Rightarrow> bool" where
  "is_ascii_c0_control c \<longleftrightarrow> c < 0x20"

definition is_ascii_c0_control_or_space :: "code_point \<Rightarrow> bool" where
  "is_ascii_c0_control_or_space c \<longleftrightarrow> c \<le> 0x20"

definition is_ascii_control :: "code_point \<Rightarrow> bool" where
  "is_ascii_control c \<longleftrightarrow> is_ascii_c0_control c \<or> c = 0x7F"

definition is_unicode :: "code_point \<Rightarrow> bool" where
  "is_unicode c \<longleftrightarrow> c \<le> 0x10FFFF"

definition is_unicode_surrogate :: "code_point \<Rightarrow> bool" where
  "is_unicode_surrogate c \<longleftrightarrow> 0xD800 \<le> c \<and> c \<le> 0xDFFF"

definition is_unicode_scalar_value :: "code_point \<Rightarrow> bool" where
  "is_unicode_scalar_value c \<longleftrightarrow> is_unicode c \<and> \<not> is_unicode_surrogate c"

definition to_ascii_lowercase :: "code_point \<Rightarrow> code_point" where
  "to_ascii_lowercase c = (if is_ascii_upper_alpha c then c + 0x20 else c)"

definition to_ascii_uppercase :: "code_point \<Rightarrow> code_point" where
  "to_ascii_uppercase c = (if is_ascii_lower_alpha c then c - 0x20 else c)"

definition parse_ascii_digit :: "code_point \<Rightarrow> nat exec" where
  "parse_ascii_digit c = (if is_ascii_digit c then Done (c - cp CHR ''0'') else Verify_failed)"

definition parse_ascii_hex_digit :: "code_point \<Rightarrow> nat exec" where
  "parse_ascii_hex_digit c =
     (if is_ascii_digit c then parse_ascii_digit c
      else if cp CHR ''A'' \<le> c \<and> c \<le> cp CHR ''F'' then Done (c - cp CHR ''A'' + 10)
      else if cp CHR ''a'' \<le> c \<and> c \<le> cp CHR ''f'' then Done (c - cp CHR ''a'' + 10)
      else Verify_failed)"

lemmas character_class_defs =
  is_ascii_def is_ascii_digit_def is_ascii_upper_alpha_def is_ascii_lower_alpha_def
  is_ascii_alpha_def is_ascii_alphanumeric_def is_ascii_octal_digit_def
  is_ascii_uppercase_hex_digit_def is_ascii_hex_digit_def is_ascii_space_def
  is_ascii_printable_def is_ascii_c0_control_def is_ascii_c0_control_or_space_def
  is_ascii_control_def is_unicode_def is_unicode_surrogate_def is_unicode_scalar_value_def

declare character_class_defs [char_class]

text \<open>The digit parsers return exactly on their own digit class, below the radix.\<close>

lemma parse_ascii_digit_total:
  "is_ascii_digit c \<Longrightarrow> \<exists>d<10. parse_ascii_digit c = Done d"
  by (auto simp: parse_ascii_digit_def char_class)

lemma parse_ascii_hex_digit_total:
  "is_ascii_hex_digit c \<Longrightarrow> \<exists>d<16. parse_ascii_hex_digit c = Done d"
  by (auto simp: parse_ascii_hex_digit_def parse_ascii_digit_def char_class)

lemma parse_ascii_hex_digit_fails:
  "parse_ascii_hex_digit c = Verify_failed \<longleftrightarrow> \<not> is_ascii_hex_digit c"
  by (auto simp: parse_ascii_hex_digit_def parse_ascii_digit_def char_class)

lemma to_ascii_lowercase_idem [simp]: "to_ascii_lowercase (to_ascii_lowercase c) = to_ascii_lowercase c"
  by (simp add: to_ascii_lowercase_def char_class)

lemma to_ascii_lowercase_ascii: "is_ascii c \<Longrightarrow> is_ascii (to_ascii_lowercase c)"
  by (simp add: to_ascii_lowercase_def char_class)

lemma to_ascii_lowercase_not_upper: "\<not> is_ascii_upper_alpha (to_ascii_lowercase c)"
  by (simp add: to_ascii_lowercase_def char_class)

lemma hex_digit_ascii: "is_ascii_hex_digit c \<Longrightarrow> is_ascii c"
  by (auto simp: char_class)

end
