(* ===== verification/AK_Utf8.thy ===== *)
theory AK_Utf8
  imports AK_Characters
begin

text \<open>
  UTF-8 in AK: the encoder \<^verbatim>\<open>code_point_to_utf8\<close> of \<^verbatim>\<open>AK/UnicodeUtils.h\<close>, the builder operation
  \<^verbatim>\<open>StringBuilder::append_code_point\<close>, and the decoding iterator of \<^verbatim>\<open>AK/Utf8View.h\<close>.  The
  iterator is the list of what it yields: each code point with the number of bytes it covers.
\<close>

subsection \<open>Encoding\<close>

definition bytes_to_store_code_point_in_utf8 :: "code_point \<Rightarrow> nat" where
  "bytes_to_store_code_point_in_utf8 c =
     (if c \<le> 0x7f then 1 else if c \<le> 0x7ff then 2 else if c \<le> 0xffff then 3
      else if c \<le> 0x10ffff then 4 else 0)"

definition code_point_to_utf8 :: "code_point \<Rightarrow> byte_string" where
  "code_point_to_utf8 c =
     (if c \<le> 0x7f then [char_of c]
      else if c \<le> 0x07ff then
        [char_of ((drop_bit 6 c AND 0x1f) OR 0xc0), char_of ((drop_bit 0 c AND 0x3f) OR 0x80)]
      else if c \<le> 0xffff then
        [char_of ((drop_bit 12 c AND 0x0f) OR 0xe0), char_of ((drop_bit 6 c AND 0x3f) OR 0x80),
         char_of ((drop_bit 0 c AND 0x3f) OR 0x80)]
      else if c \<le> 0x10ffff then
        [char_of ((drop_bit 18 c AND 0x07) OR 0xf0), char_of ((drop_bit 12 c AND 0x3f) OR 0x80),
         char_of ((drop_bit 6 c AND 0x3f) OR 0x80), char_of ((drop_bit 0 c AND 0x3f) OR 0x80)]
      else [])"

definition REPLACEMENT_CODE_POINT :: code_point where
  "REPLACEMENT_CODE_POINT = 0xfffd"

definition append_code_point :: "byte_string \<Rightarrow> code_point \<Rightarrow> byte_string" where
  "append_code_point builder c =
     builder @ (if \<not> is_unicode c then code_point_to_utf8 REPLACEMENT_CODE_POINT
                else code_point_to_utf8 c)"

definition utf8_encode :: "code_point list \<Rightarrow> byte_string" where
  "utf8_encode cs = concat (map code_point_to_utf8 cs)"

subsection \<open>Decoding\<close>

definition utf8_encoded_byte_data :: "(nat \<times> nat \<times> nat) list" where
  "utf8_encoded_byte_data = [(1, 0x00, 0x80), (2, 0xC0, 0xE0), (3, 0xE0, 0xF0), (4, 0xF0, 0xF8)]"

fun decode_leading_byte_in :: "(nat \<times> nat \<times> nat) list \<Rightarrow> nat \<Rightarrow> (nat \<times> nat) option" where
  "decode_leading_byte_in [] byte = None"
| "decode_leading_byte_in ((byte_length, encoding_bits, encoding_mask) # rest) byte =
     (if byte AND encoding_mask \<noteq> encoding_bits then decode_leading_byte_in rest byte
      else Some (byte_length, byte AND (0xFF XOR encoding_mask)))"

definition decode_leading_byte :: "nat \<Rightarrow> (nat \<times> nat) option" where
  "decode_leading_byte byte = decode_leading_byte_in utf8_encoded_byte_data byte"

text \<open>The iterator stands before the byte \<open>b\<close>, with the bytes \<open>bs\<close> after it.\<close>

definition underlying_code_point_length_in_bytes :: "char \<Rightarrow> byte_string \<Rightarrow> nat" where
  "underlying_code_point_length_in_bytes b bs =
     (case decode_leading_byte (cp b) of
        None \<Rightarrow> 1
      | Some (n, _) \<Rightarrow>
          if n > Suc (length bs) then 1
          else if list_all (\<lambda>c. drop_bit 6 (cp c) = 2) (take (n - 1) bs) then n else 1)"

fun decode_extension_bytes :: "nat \<Rightarrow> byte_string \<Rightarrow> nat option" where
  "decode_extension_bytes v [] = Some v"
| "decode_extension_bytes v (c # cs) =
     (if drop_bit 6 (cp c) \<noteq> 2 then None
      else decode_extension_bytes (push_bit 6 v OR (cp c AND 63)) cs)"

definition iterator_deref :: "char \<Rightarrow> byte_string \<Rightarrow> code_point" where
  "iterator_deref b bs =
     (if cp b \<le> 0x7F then cp b
      else case decode_leading_byte (cp b) of
        None \<Rightarrow> 0xFFFD
      | Some (n, v) \<Rightarrow>
          if n > Suc (length bs) then 0xFFFD
          else case decode_extension_bytes v (take (n - 1) bs) of
            None \<Rightarrow> 0xFFFD
          | Some c \<Rightarrow> if c > 0x10FFFF then 0xFFFD else c)"

fun utf8_view :: "byte_string \<Rightarrow> (code_point \<times> nat) list" where
  "utf8_view [] = []"
| "utf8_view (b # bs) =
     (let n = underlying_code_point_length_in_bytes b bs
      in (iterator_deref b bs, n) # utf8_view (drop (n - 1) bs))"

definition code_points :: "byte_string \<Rightarrow> code_point list" where
  "code_points s = map fst (utf8_view s)"

subsection \<open>Round trip\<close>

lemma lead_byte_ranges [bit_arith]:
  fixes b :: nat
  assumes "b < 256"
  shows "(b AND 0x80 = 0x00) = (b < 0x80)" "(b AND 0xE0 = 0xC0) = (0xC0 \<le> b \<and> b < 0xE0)"
    "(b AND 0xF0 = 0xE0) = (0xE0 \<le> b \<and> b < 0xF0)" "(b AND 0xF8 = 0xF0) = (0xF0 \<le> b \<and> b < 0xF8)"
proof -
  have "\<forall>b\<in>{..<256::nat}. (b AND 0x80 = 0x00) = (b < 0x80)
      \<and> (b AND 0xE0 = 0xC0) = (0xC0 \<le> b \<and> b < 0xE0)
      \<and> (b AND 0xF0 = 0xE0) = (0xE0 \<le> b \<and> b < 0xF0) \<and> (b AND 0xF8 = 0xF0) = (0xF0 \<le> b \<and> b < 0xF8)"
    by (simp add: lessThan_nat_numeral lessThan_Suc)
  with assms show "(b AND 0x80 = 0x00) = (b < 0x80)" "(b AND 0xE0 = 0xC0) = (0xC0 \<le> b \<and> b < 0xE0)"
    "(b AND 0xF0 = 0xE0) = (0xE0 \<le> b \<and> b < 0xF0)" "(b AND 0xF8 = 0xF0) = (0xF0 \<le> b \<and> b < 0xF8)"
    by blast+
qed

lemma cont_byte_iff: "b < 256 \<Longrightarrow> drop_bit 6 b = 2 \<longleftrightarrow> 0x80 \<le> b \<and> b < 0xC0"
  for b :: nat
  by (simp add: drop_bit_div div_in_range)
lemma cont_byte_bits: "n < 64 \<Longrightarrow> (0x80 + n) AND 63 = n" for n :: nat
  using mod_in_range [of 2 64 "128 + n"] by (simp add: and_mask_mod)
lemma decode_leading_byte_eq:
  assumes "b < 256"
  shows "decode_leading_byte b =
    (if b < 0x80 then Some (1, b)
     else if b < 0xC0 then None
     else if b < 0xE0 then Some (2, b - 0xC0)
     else if b < 0xF0 then Some (3, b - 0xE0)
     else if b < 0xF8 then Some (4, b - 0xF0) else None)"
  using assms mod_in_range [of 6 32 b] mod_in_range [of 14 16 b] mod_in_range [of 30 8 b]
  by (simp add: decode_leading_byte_def utf8_encoded_byte_data_def lead_byte_ranges and_mask_mod)
lemma code_point_to_utf8_arith:
  "code_point_to_utf8 c =
     (if c \<le> 0x7f then [char_of c]
      else if c \<le> 0x07ff then [char_of (0xc0 + c div 64), char_of (0x80 + c mod 64)]
      else if c \<le> 0xffff then
        [char_of (0xe0 + c div 4096), char_of (0x80 + c div 64 mod 64), char_of (0x80 + c mod 64)]
      else if c \<le> 0x10ffff then
        [char_of (0xf0 + c div 262144), char_of (0x80 + c div 4096 mod 64),
         char_of (0x80 + c div 64 mod 64), char_of (0x80 + c mod 64)]
      else [])"
proof -
  have "c \<le> 0x7ff \<Longrightarrow> c div 64 < 32" "c \<le> 0xffff \<Longrightarrow> c div 4096 < 16"
    "c \<le> 0x10ffff \<Longrightarrow> c div 262144 < 8"
    by (simp_all add: less_mult_imp_div_less)
  then show ?thesis
    by (simp add: code_point_to_utf8_def and_mask_mod or_lead_byte drop_bit_div)
qed

lemma base64_digits:
  fixes c :: nat
  shows "c div 64 * 64 + c mod 64 = c"
    "(c div 4096 * 64 + c div 64 mod 64) * 64 + c mod 64 = c"
    "((c div 262144 * 64 + c div 4096 mod 64) * 64 + c div 64 mod 64) * 64 + c mod 64 = c"
proof -
  have 1: "c div 4096 * 64 + c div 64 mod 64 = c div 64"
    using div_mult_mod_eq [of "c div 64" 64] by (simp add: div_mult2_eq [symmetric])
  have 2: "c div 262144 * 64 + c div 4096 mod 64 = c div 4096"
    using div_mult_mod_eq [of "c div 4096" 64] by (simp add: div_mult2_eq [symmetric])
  show "c div 64 * 64 + c mod 64 = c" "(c div 4096 * 64 + c div 64 mod 64) * 64 + c mod 64 = c"
    "((c div 262144 * 64 + c div 4096 mod 64) * 64 + c div 64 mod 64) * 64 + c mod 64 = c"
    unfolding 1 2 by simp_all
qed

lemmas utf8_step_defs =
  code_point_to_utf8_arith bytes_to_store_code_point_in_utf8_def Let_def
  underlying_code_point_length_in_bytes_def iterator_deref_def decode_leading_byte_eq
  cont_byte_iff shift_or_cont

lemma utf8_view_code_point_append:
  assumes "is_unicode c"
  shows "utf8_view (code_point_to_utf8 c @ s) =
    (c, bytes_to_store_code_point_in_utf8 c) # utf8_view s"
proof -
  note facts = utf8_step_defs cont_byte_bits base64_digits
  consider "c \<le> 0x7f" | "0x7f < c" "c \<le> 0x7ff" | "0x7ff < c" "c \<le> 0xffff" | "0xffff < c" "c \<le> 0x10ffff"
    using assms by (metis is_unicode_def not_le)
  then show ?thesis
  proof cases
    case 1
    then show ?thesis by (simp add: facts del: distrib_right_numeral)
  next
    case 2
    then have "c div 64 < 32" by (simp add: less_mult_imp_div_less)
    with 2 show ?thesis by (simp add: facts del: distrib_right_numeral)
  next
    case 3
    then have "c div 4096 < 16" by (simp add: less_mult_imp_div_less)
    with 3 show ?thesis by (simp add: facts del: distrib_right_numeral)
  next
    case 4
    then have "c div 262144 < 8" by (simp add: less_mult_imp_div_less)
    with 4 show ?thesis by (simp add: facts del: distrib_right_numeral)
  qed
qed


lemma utf8_view_encode:
  "list_all is_unicode cs \<Longrightarrow>
   utf8_view (utf8_encode cs @ s) = map (\<lambda>c. (c, bytes_to_store_code_point_in_utf8 c)) cs @ utf8_view s"
  by (induction cs) (simp_all add: utf8_encode_def utf8_view_code_point_append)

lemma utf8_encode_simps [simp]:
  "utf8_encode [] = []" "utf8_encode (c # cs) = code_point_to_utf8 c @ utf8_encode cs"
  "utf8_encode (cs @ ds) = utf8_encode cs @ utf8_encode ds"
  by (simp_all add: utf8_encode_def)

lemma code_points_encode_append:
  "list_all is_unicode cs \<Longrightarrow> code_points (utf8_encode cs @ s) = cs @ code_points s"
  by (simp add: code_points_def utf8_view_encode comp_def)

lemma iterator_deref_unicode: "is_unicode (iterator_deref b bs)"
  by (auto simp: iterator_deref_def is_unicode_def split: option.split)

lemma code_points_unicode: "list_all is_unicode (code_points s)"
  unfolding code_points_def
  by (induction s rule: utf8_view.induct) (simp_all add: iterator_deref_unicode Let_def)

lemma length_code_point_to_utf8:
  "length (code_point_to_utf8 c) = bytes_to_store_code_point_in_utf8 c"
  by (simp add: code_point_to_utf8_def bytes_to_store_code_point_in_utf8_def)

lemma code_point_to_utf8_nonempty: "is_unicode c \<Longrightarrow> code_point_to_utf8 c \<noteq> []"
  by (simp add: code_point_to_utf8_def is_unicode_def)

lemma append_code_point_unicode [simp]:
  "is_unicode c \<Longrightarrow> append_code_point s c = s @ code_point_to_utf8 c"
  by (simp add: append_code_point_def)

text \<open>Every byte of a multi-byte sequence is above the ASCII range.\<close>

lemma code_point_to_utf8_ascii: "is_ascii c \<Longrightarrow> code_point_to_utf8 c = [char_of c]"
  by (simp add: code_point_to_utf8_def is_ascii_def)

lemma code_point_to_utf8_non_ascii:
  assumes "\<not> is_ascii c" "is_unicode c" "b \<in> set (code_point_to_utf8 c)"
  shows "0x80 \<le> cp b"
proof -
  have "c \<le> 0x7ff \<Longrightarrow> c div 64 < 32" "c \<le> 0xffff \<Longrightarrow> c div 4096 < 16"
    "c \<le> 0x10ffff \<Longrightarrow> c div 262144 < 8"
    by (simp_all add: less_mult_imp_div_less)
  with assms show ?thesis
    by (auto simp: code_point_to_utf8_arith is_ascii_def is_unicode_def split: if_splits)
qed

lemma ascii_code_points:
  assumes "list_all (\<lambda>b. is_ascii (cp b)) s"
  shows "code_points s = map cp s" "utf8_encode (map cp s) = s"
proof -
  show enc: "utf8_encode (map cp s) = s"
    using assms by (induction s) (simp_all add: code_point_to_utf8_ascii)
  have "list_all is_unicode (map cp s)"
    using assms by (induction s) (auto simp: char_class)
  then show "code_points s = map cp s"
    using code_points_encode_append [of "map cp s" "[]"] enc by (simp add: code_points_def)
qed

end
