(* ===== verification/AK_Strings.thy ===== *)
theory AK_Strings
  imports AK_Utf8
begin

text \<open>
  The string operations the modelled code calls: \<^verbatim>\<open>AK/StringView.h\<close>, \<^verbatim>\<open>AK/StringUtils.cpp\<close>,
  \<^verbatim>\<open>AK/StringConversions.cpp\<close> and the integer formatting of \<^verbatim>\<open>AK/Format.cpp\<close>.  Third-party code
  these functions call (fast\_float, simdutf, ICU and the generated public suffix list) is the
  record \<open>externals\<close>, an argument of every definition that uses it.
\<close>

subsection \<open>Third-party functions\<close>

datatype idna_error = HYPHEN_3_4 | LEADING_HYPHEN | TRAILING_HYPHEN | EMPTY_LABEL
  | LABEL_TOO_LONG | DOMAIN_NAME_TOO_LONG | PUNYCODE | OTHER_IDNA_ERROR

text \<open>
  \<open>from_chars bits base s\<close> is \<^verbatim>\<open>fast_float::from_chars_advanced\<close> for an unsigned integer of \<open>bits\<close>
  bits: the value and the number of characters read, or nothing on an error.  \<open>name_to_ascii\<close> is
  ICU's \<^verbatim>\<open>nameToASCII_UTF8\<close>, nothing standing for a failed status; its first argument is
  \<^verbatim>\<open>use_std3_ascii_rules\<close>.  \<open>get_public_suffix\<close> and \<open>is_public_suffix\<close> are the lookups in the generated
  \<^verbatim>\<open>PublicSuffixData\<close>.  \<open>from_chars_signed\<close> is the number parser for signed integers, and \<open>utf8_to_lower\<close>
  ICU's \<^verbatim>\<open>CaseMap::utf8ToLower\<close>.
\<close>

record externals =
  validate_utf8 :: "byte_string \<Rightarrow> bool"
  validate_ascii :: "byte_string \<Rightarrow> bool"
  from_chars :: "nat \<Rightarrow> nat \<Rightarrow> byte_string \<Rightarrow> (nat \<times> nat) option"
  name_to_ascii :: "bool \<Rightarrow> byte_string \<Rightarrow> (byte_string \<times> idna_error list) option"
  get_public_suffix :: "byte_string \<Rightarrow> byte_string option"
  is_public_suffix :: "byte_string \<Rightarrow> bool"
  from_chars_signed :: "nat \<Rightarrow> nat \<Rightarrow> byte_string \<Rightarrow> (int \<times> nat) option"
  utf8_to_lower :: "byte_string \<Rightarrow> byte_string option"

subsection \<open>Searching and comparing\<close>

definition is_ascii_string :: "byte_string \<Rightarrow> bool" where
  "is_ascii_string s \<longleftrightarrow> list_all (\<lambda>c. is_ascii (cp c)) s"

definition contains_char :: "byte_string \<Rightarrow> char \<Rightarrow> bool" where
  "contains_char s needle \<longleftrightarrow> list_ex (\<lambda>c. c = needle) s"

definition contains_string :: "byte_string \<Rightarrow> byte_string \<Rightarrow> bool" where
  "contains_string s needle \<longleftrightarrow>
     (if s = [] \<or> length needle > length s then False
      else if needle = [] then True else sublist needle s)"

definition contains_code_point :: "byte_string \<Rightarrow> code_point \<Rightarrow> bool" where
  "contains_code_point s c =
     (case append_code_point [] c of
        [b] \<Rightarrow> contains_char s b
      | needle \<Rightarrow> contains_string s needle)"

definition starts_with_char :: "byte_string \<Rightarrow> char \<Rightarrow> bool" where
  "starts_with_char s ch = (case s of [] \<Rightarrow> False | c # _ \<Rightarrow> ch = c)"

definition ends_with_char :: "byte_string \<Rightarrow> char \<Rightarrow> bool" where
  "ends_with_char s ch \<longleftrightarrow> (if s = [] then False else ch = last s)"

definition starts_with :: "byte_string \<Rightarrow> byte_string \<Rightarrow> bool" where
  "starts_with s start \<longleftrightarrow>
     (if start = [] then True else if s = [] then False
      else if length start > length s then False else take (length start) s = start)"

definition ends_with :: "byte_string \<Rightarrow> byte_string \<Rightarrow> bool" where
  "ends_with s ending \<longleftrightarrow>
     (if ending = [] then True else if s = [] then False
      else if length ending > length s then False else drop (length s - length ending) s = ending)"

definition char_to_ascii_lowercase :: "char \<Rightarrow> char" where
  "char_to_ascii_lowercase c = char_of (to_ascii_lowercase (cp c))"

definition to_ascii_lowercase_string :: "byte_string \<Rightarrow> byte_string" where
  "to_ascii_lowercase_string s = map char_to_ascii_lowercase s"

definition equals_ignoring_ascii_case :: "byte_string \<Rightarrow> byte_string \<Rightarrow> bool" where
  "equals_ignoring_ascii_case a b \<longleftrightarrow>
     (if length a \<noteq> length b then False
      else list_all2 (\<lambda>x y. to_ascii_lowercase (cp x) = to_ascii_lowercase (cp y)) a b)"

definition starts_with_ignoring_ascii_case :: "byte_string \<Rightarrow> byte_string \<Rightarrow> bool" where
  "starts_with_ignoring_ascii_case s start \<longleftrightarrow>
     (if start = [] then True else if s = [] then False
      else if length start > length s then False
      else list_all2 (\<lambda>x y. to_ascii_lowercase (cp x) = to_ascii_lowercase (cp y))
             (take (length start) s) start)"

fun find_from :: "nat \<Rightarrow> char \<Rightarrow> byte_string \<Rightarrow> nat option" where
  "find_from i needle [] = None"
| "find_from i needle (c # cs) = (if c = needle then Some i else find_from (Suc i) needle cs)"

definition find_char :: "byte_string \<Rightarrow> char \<Rightarrow> nat option" where
  "find_char s needle = find_from 0 needle s"

fun find_last_upto :: "byte_string \<Rightarrow> char \<Rightarrow> nat \<Rightarrow> nat option" where
  "find_last_upto s needle 0 = None"
| "find_last_upto s needle (Suc i) =
     (if s ! i = needle then Some i else find_last_upto s needle i)"

definition find_last :: "byte_string \<Rightarrow> char \<Rightarrow> nat option" where
  "find_last s needle = find_last_upto s needle (length s)"

subsection \<open>Splitting and trimming\<close>

text \<open>\<^verbatim>\<open>StringView::for_each_split_view\<close>: an empty string has no parts at all.\<close>

fun split_parts :: "char \<Rightarrow> byte_string \<Rightarrow> byte_string list" where
  "split_parts sep [] = [[]]"
| "split_parts sep (c # cs) =
     (if c = sep then [] # split_parts sep cs
      else case split_parts sep cs of p # ps \<Rightarrow> (c # p) # ps | [] \<Rightarrow> [[c]])"

definition split_view :: "byte_string \<Rightarrow> char \<Rightarrow> bool \<Rightarrow> byte_string list" where
  "split_view s sep keep_empty =
     (if s = [] then []
      else if keep_empty then split_parts sep s
      else filter (\<lambda>p. p \<noteq> []) (split_parts sep s))"

definition trim_left :: "byte_string \<Rightarrow> byte_string \<Rightarrow> byte_string" where
  "trim_left s characters = dropWhile (contains_char characters) s"

definition trim_right :: "byte_string \<Rightarrow> byte_string \<Rightarrow> byte_string" where
  "trim_right s characters = rev (dropWhile (contains_char characters) (rev s))"

definition trim_both :: "byte_string \<Rightarrow> byte_string \<Rightarrow> byte_string" where
  "trim_both s characters = trim_right (trim_left s characters) characters"

definition trim_whitespace :: "byte_string \<Rightarrow> byte_string" where
  "trim_whitespace s = trim_both s (map char_of [0x20, 0x0A, 0x09, 0x0B, 0x0C, 0x0D :: nat])"

fun split_parts_if :: "(char \<Rightarrow> bool) \<Rightarrow> byte_string \<Rightarrow> byte_string list" where
  "split_parts_if pred [] = [[]]"
| "split_parts_if pred (c # cs) =
     (if pred c then [] # split_parts_if pred cs
      else case split_parts_if pred cs of p # ps \<Rightarrow> (c # p) # ps | [] \<Rightarrow> [[c]])"

definition split_view_if :: "byte_string \<Rightarrow> (char \<Rightarrow> bool) \<Rightarrow> bool \<Rightarrow> byte_string list" where
  "split_view_if s pred keep_empty =
     (if s = [] then []
      else if keep_empty then split_parts_if pred s
      else filter (\<lambda>p. p \<noteq> []) (split_parts_if pred s))"

subsection \<open>Numbers\<close>

definition lowercase_lookup :: string where
  "lowercase_lookup = ''0123456789abcdef''"

definition uppercase_lookup :: string where
  "uppercase_lookup = ''0123456789ABCDEF''"

text \<open>The digits of a number, least significant first, as the formatting loop fills its buffer.\<close>

fun digit_buffer :: "nat \<Rightarrow> string \<Rightarrow> nat \<Rightarrow> byte_string" where
  "digit_buffer base lookup val =
     (if val = 0 \<or> base < 2 then []
      else lookup ! (val mod base) # digit_buffer base lookup (val div base))"

declare digit_buffer.simps [simp del]

definition convert_unsigned_to_string :: "nat \<Rightarrow> nat \<Rightarrow> bool \<Rightarrow> byte_string" where
  "convert_unsigned_to_string val base upper_case =
     (if val = 0 then ''0''
      else rev (digit_buffer base (if upper_case then uppercase_lookup else lowercase_lookup) val))"

definition put_u64_zero_padded :: "nat \<Rightarrow> nat \<Rightarrow> bool \<Rightarrow> nat \<Rightarrow> byte_string" where
  "put_u64_zero_padded val base upper_case min_width =
     (let digits = convert_unsigned_to_string val base upper_case;
          used_by_padding = max (length digits) min_width - length digits
      in replicate used_by_padding CHR ''0'' @ digits)"

definition parse_number :: "externals \<Rightarrow> nat \<Rightarrow> byte_string \<Rightarrow> nat \<Rightarrow> nat option" where
  "parse_number ext bits s base =
     (case from_chars ext bits base s of
        None \<Rightarrow> None
      | Some (val, characters_parsed) \<Rightarrow>
          if characters_parsed \<noteq> length s then None else Some val)"

text \<open>\<^verbatim>\<open>StringView::to_number\<close> trims whitespace first.\<close>

definition to_number_unsigned :: "externals \<Rightarrow> nat \<Rightarrow> byte_string \<Rightarrow> nat option" where
  "to_number_unsigned ext bits s = parse_number ext bits (trim_whitespace s) 10"

definition to_number_signed :: "externals \<Rightarrow> nat \<Rightarrow> byte_string \<Rightarrow> int option" where
  "to_number_signed ext bits s =
     (let s = trim_whitespace s
      in case from_chars_signed ext bits 10 s of
           None \<Rightarrow> None
         | Some (val, characters_parsed) \<Rightarrow> if characters_parsed \<noteq> length s then None else Some val)"

text \<open>\<^verbatim>\<open>String::from_utf8\<close> under \<^verbatim>\<open>MUST\<close>: invalid UTF-8 stops the process.\<close>

definition must_from_utf8 :: "externals \<Rightarrow> byte_string \<Rightarrow> byte_string exec" where
  "must_from_utf8 ext s = (if validate_utf8 ext s then Done s else Verify_failed)"

definition string_at :: "byte_string \<Rightarrow> nat \<Rightarrow> char exec" where
  "string_at s index = (if index < length s then Done (s ! index) else Verify_failed)"

subsection \<open>Digits and numbers\<close>

text \<open>The value of a digit string, and what the code relies on of the third-party number parser.\<close>

definition digit_value :: "char \<Rightarrow> nat" where
  "digit_value c = (if is_ascii_digit (cp c) then cp c - cp CHR ''0''
     else if is_ascii_upper_alpha (cp c) then cp c - cp CHR ''A'' + 10
     else if is_ascii_lower_alpha (cp c) then cp c - cp CHR ''a'' + 10 else 36)"

definition radix_value :: "nat \<Rightarrow> byte_string \<Rightarrow> nat" where
  "radix_value base s = foldl (\<lambda>v c. v * base + digit_value c) 0 s"

definition fast_float_ok :: "externals \<Rightarrow> bool" where
  "fast_float_ok ext \<longleftrightarrow>
     (\<forall>bits base s. 2 \<le> base \<longrightarrow> base \<le> 36 \<longrightarrow> s \<noteq> [] \<longrightarrow> list_all (\<lambda>c. digit_value c < base) s \<longrightarrow>
        from_chars ext bits base s =
          (if radix_value base s < 2 ^ bits then Some (radix_value base s, length s) else None))"

definition simdutf_ok :: "externals \<Rightarrow> bool" where
  "simdutf_ok ext \<longleftrightarrow>
     (\<forall>s. validate_ascii ext s = is_ascii_string s)
     \<and> (\<forall>s. validate_utf8 ext s = (\<exists>cs. list_all is_unicode_scalar_value cs \<and> s = utf8_encode cs))"

definition fast_float_signed_ok :: "externals \<Rightarrow> bool" where
  "fast_float_signed_ok ext \<longleftrightarrow>
     (\<forall>bits base s. 2 \<le> base \<longrightarrow> base \<le> 36 \<longrightarrow> s \<noteq> [] \<longrightarrow> list_all (\<lambda>c. digit_value c < base) s \<longrightarrow>
        from_chars_signed ext bits base s =
          (if radix_value base s < 2 ^ (bits - 1) then Some (int (radix_value base s), length s) else None)
        \<and> from_chars_signed ext bits base (CHR ''-'' # s) =
          (if radix_value base s \<le> 2 ^ (bits - 1) then Some (- int (radix_value base s), Suc (length s)) else None))"

definition lowercase_ok :: "externals \<Rightarrow> bool" where
  "lowercase_ok ext \<longleftrightarrow>
     (\<forall>s. is_ascii_string s \<longrightarrow> utf8_to_lower ext s = Some (to_ascii_lowercase_string s))"

lemma parse_number_digits:
  assumes "fast_float_ok ext" "2 \<le> base" "base \<le> 36" "s \<noteq> []" "list_all (\<lambda>c. digit_value c < base) s"
  shows "parse_number ext bits s base = (if radix_value base s < 2 ^ bits then Some (radix_value base s) else None)"
  using assms by (simp add: parse_number_def fast_float_ok_def)

lemma lookup_digit:
  assumes "d < 16" "lookup = uppercase_lookup \<or> lookup = lowercase_lookup"
  shows "digit_value (lookup ! d) = d" "is_ascii_hex_digit (cp (lookup ! d))"
    "parse_ascii_hex_digit (cp (lookup ! d)) = Done d"
    "d < 10 \<longrightarrow> is_ascii_digit (cp (lookup ! d))" "lookup ! d = CHR ''0'' \<longleftrightarrow> d = 0"
proof -
  have "\<forall>d\<in>{..<16::nat}. digit_value (lookup ! d) = d \<and> is_ascii_hex_digit (cp (lookup ! d))
      \<and> parse_ascii_hex_digit (cp (lookup ! d)) = Done d
      \<and> (d < 10 \<longrightarrow> is_ascii_digit (cp (lookup ! d))) \<and> (lookup ! d = CHR ''0'' \<longleftrightarrow> d = 0)"
    using assms(2)
    by (elim disjE) (simp_all add: lessThan_nat_numeral lessThan_Suc uppercase_lookup_def lowercase_lookup_def
      digit_value_def parse_ascii_hex_digit_def parse_ascii_digit_def char_class)
  with assms(1) show "digit_value (lookup ! d) = d" "is_ascii_hex_digit (cp (lookup ! d))"
    "parse_ascii_hex_digit (cp (lookup ! d)) = Done d"
    "d < 10 \<longrightarrow> is_ascii_digit (cp (lookup ! d))" "lookup ! d = CHR ''0'' \<longleftrightarrow> d = 0"
    by blast+
qed

lemma digit_buffer_0 [simp]: "digit_buffer base lookup 0 = []"
  by (subst digit_buffer.simps) simp

lemma digit_buffer_pos:
  "\<lbrakk> 0 < n; 2 \<le> base \<rbrakk> \<Longrightarrow>
   digit_buffer base lookup n = lookup ! (n mod base) # digit_buffer base lookup (n div base)"
  by (subst digit_buffer.simps) simp

lemma radix_value_append [simp]:
  "radix_value base (s @ [c]) = radix_value base s * base + digit_value c"
  by (simp add: radix_value_def)

lemma radix_value_Nil [simp]: "radix_value base [] = 0"
  by (simp add: radix_value_def)

lemma number_induct [consumes 1, case_names zero pos]:
  fixes n :: nat
  assumes "2 \<le> base" "P 0" "\<And>n. 0 < n \<Longrightarrow> P (n div base) \<Longrightarrow> P n"
  shows "P n"
proof (induction n rule: less_induct)
  case (less n)
  show ?case
    using assms less by (cases "n = 0") (auto intro: assms(3))
qed

lemma radix_value_digit_buffer:
  assumes "2 \<le> base" "base \<le> 16" "lookup = uppercase_lookup \<or> lookup = lowercase_lookup"
  shows "radix_value base (rev (digit_buffer base lookup n)) = n"
  using assms(1)
proof (induction n rule: number_induct)
  case (pos n)
  have "n mod base < 16"
    using assms(1,2) mod_less_divisor [of base n] by linarith
  with pos assms show ?case by (simp add: digit_buffer_pos lookup_digit)
qed simp

lemma digit_buffer_digits:
  assumes "2 \<le> base" "base \<le> 16" "c \<in> set (digit_buffer base lookup n)"
  shows "\<exists>d<base. c = lookup ! d"
  using assms(1,3)
proof (induction n rule: number_induct)
  case (pos n)
  have "n mod base < base" using assms(1) by simp
  with pos assms(1) show ?case
    by (fastforce simp: digit_buffer_pos)
qed simp

lemma digit_buffer_last:
  assumes "2 \<le> base" "0 < n"
  shows "\<exists>d. 0 < d \<and> d < base \<and> digit_buffer base lookup n \<noteq> [] \<and> last (digit_buffer base lookup n) = lookup ! d"
  using assms
proof (induction n rule: number_induct)
  case (pos n)
  show ?case
  proof (cases "n div base = 0")
    case True
    with pos assms(1) show ?thesis by (auto simp: digit_buffer_pos div_eq_0_iff)
  next
    case False
    with pos show ?thesis by (auto simp: digit_buffer_pos)
  qed
qed simp

lemma length_digit_buffer_le:
  assumes "2 \<le> base"
  shows "n < base ^ k \<Longrightarrow> length (digit_buffer base lookup n) \<le> k"
proof (induction k arbitrary: n)
  case 0
  then show ?case by simp
next
  case (Suc k)
  then have "n div base < base ^ k"
    using assms by (simp add: less_mult_imp_div_less mult.commute)
  with Suc.IH assms show ?case
    by (cases "n = 0") (simp_all add: digit_buffer_pos)
qed

text \<open>What formatting a number gives: its own value, digits of the base, no leading zero.\<close>

lemma convert_unsigned_value:
  "\<lbrakk> 2 \<le> base; base \<le> 16 \<rbrakk> \<Longrightarrow> radix_value base (convert_unsigned_to_string n base upper) = n"
  using lookup_digit(1) [of 0 lowercase_lookup] radix_value_append [of base "[]" "CHR ''0''"]
  by (auto simp: convert_unsigned_to_string_def radix_value_digit_buffer lowercase_lookup_def)

lemma convert_unsigned_nonempty [simp]: "2 \<le> base \<Longrightarrow> convert_unsigned_to_string n base upper \<noteq> []"
  by (simp add: convert_unsigned_to_string_def digit_buffer_pos)

lemma convert_unsigned_digit:
  assumes "2 \<le> base" "base \<le> 16" "c \<in> set (convert_unsigned_to_string n base upper)"
  shows "digit_value c < base" "is_ascii_hex_digit (cp c)" "base \<le> 10 \<longrightarrow> is_ascii_digit (cp c)"
proof -
  obtain lookup d where l: "lookup = uppercase_lookup \<or> lookup = lowercase_lookup" "d < base" "c = lookup ! d"
  proof (cases "n = 0")
    case True
    with assms that [of lowercase_lookup 0] show thesis
      by (auto simp: convert_unsigned_to_string_def lowercase_lookup_def)
  next
    case False
    with assms digit_buffer_digits [of base c _ n] that show thesis
      by (auto simp: convert_unsigned_to_string_def split: if_splits)
  qed
  with assms lookup_digit [of d lookup] show "digit_value c < base" "is_ascii_hex_digit (cp c)"
    "base \<le> 10 \<longrightarrow> is_ascii_digit (cp c)"
    by auto
qed

lemma convert_unsigned_no_leading_zero:
  assumes "2 \<le> base" "base \<le> 16" "0 < n"
  shows "hd (convert_unsigned_to_string n base upper) \<noteq> CHR ''0''"
proof -
  let ?l = "if upper then uppercase_lookup else lowercase_lookup"
  from digit_buffer_last [OF assms(1,3), of ?l] obtain d where
    "0 < d" "d < base" "digit_buffer base ?l n \<noteq> []" "last (digit_buffer base ?l n) = ?l ! d" by blast
  with assms lookup_digit(5) [of d ?l] show ?thesis
    by (simp add: convert_unsigned_to_string_def hd_rev)
qed

lemma length_convert_unsigned_le:
  "\<lbrakk> 2 \<le> base; n < base ^ k; 0 < k \<rbrakk> \<Longrightarrow> length (convert_unsigned_to_string n base upper) \<le> k"
  by (simp add: convert_unsigned_to_string_def length_digit_buffer_le)

lemma split_parts_nonempty [simp]: "split_parts sep s \<noteq> []"
  by (induction s) (auto split: list.splits)

lemma split_view_nonempty: "split_view s sep True = [] \<longleftrightarrow> s = []"
  by (simp add: split_view_def)

lemma split_parts_plain: "sep \<notin> set s \<Longrightarrow> split_parts sep s = [s]"
  by (induction s) auto

lemma split_parts_append:
  "sep \<notin> set s \<Longrightarrow> split_parts sep (s @ sep # t) = s # split_parts sep t"
  by (induction s) auto

text \<open>
  A concrete instance of the third-party code: exact on numbers and on UTF-8, and with the ASCII part
  of the IDNA mapping and a one-label public suffix.  It is used to show that the hypotheses on
  \<open>externals\<close> can hold.
\<close>

definition reference_externals :: externals where
  "reference_externals = \<lparr>
     validate_utf8 = (\<lambda>s. list_all is_unicode_scalar_value (code_points s) \<and> utf8_encode (code_points s) = s),
     validate_ascii = is_ascii_string,
     from_chars = (\<lambda>bits base s.
       let digits = takeWhile (\<lambda>c. digit_value c < base) s
       in if digits = [] then None
          else if radix_value base digits < 2 ^ bits then Some (radix_value base digits, length digits) else None),
     name_to_ascii = (\<lambda>_ s. if is_ascii_string s then Some (to_ascii_lowercase_string s, []) else None),
     get_public_suffix = (\<lambda>s.
       let labels = split_view s CHR ''.'' False
       in if labels \<noteq> [] \<and> last labels \<in> {''com'', ''org'', ''net''} then Some (last labels) else None),
     is_public_suffix = (\<lambda>s. s \<in> {''com'', ''org'', ''net''}),
     from_chars_signed = (\<lambda>bits base s.
       let negative = starts_with_char s CHR ''-'';
           digits = takeWhile (\<lambda>c. digit_value c < base) (if negative then tl s else s);
           n = radix_value base digits
       in if digits = [] then None
          else if negative then (if n \<le> 2 ^ (bits - 1) then Some (- int n, Suc (length digits)) else None)
          else if n < 2 ^ (bits - 1) then Some (int n, length digits) else None),
     utf8_to_lower = (\<lambda>s. Some (to_ascii_lowercase_string s)) \<rparr>"

lemma fast_float_ok_reference: "fast_float_ok reference_externals"
  unfolding fast_float_ok_def reference_externals_def
  by (simp add: Let_def takeWhile_eq_all_conv [THEN iffD2] list_all_iff)

lemma fast_float_signed_ok_reference: "fast_float_signed_ok reference_externals"
proof -
  have sign: "\<not> starts_with_char s CHR ''-''" if "list_all (\<lambda>c. digit_value c < base) s" "base \<le> 36" for s base
    using that by (cases s) (auto simp: starts_with_char_def digit_value_def char_class)
  have digits: "takeWhile (\<lambda>c. digit_value c < base) s = s" if "list_all (\<lambda>c. digit_value c < base) s" for s base
    using that by (simp add: takeWhile_eq_all_conv list_all_iff)
  have minus: "starts_with_char (CHR ''-'' # s) CHR ''-''" for s by (simp add: starts_with_char_def)
  show ?thesis
    unfolding fast_float_signed_ok_def
  proof (intro allI impI, goal_cases)
    case (1 bits base s)
    note facts = digits [OF 1(4)] sign [OF 1(4,2)] minus
    from 1(3) show ?case by (simp add: reference_externals_def Let_def facts)
  qed
qed

lemma lowercase_ok_reference: "lowercase_ok reference_externals"
  by (simp add: lowercase_ok_def reference_externals_def)

lemma simdutf_ok_reference: "simdutf_ok reference_externals"
proof -
  have "code_points (utf8_encode cs) = cs" if "list_all is_unicode_scalar_value cs" for cs
  proof -
    have "list_all is_unicode cs" using that by (auto simp: list_all_iff char_class)
    then show ?thesis using code_points_encode_append [of cs "[]"] by (simp add: code_points_def)
  qed
  then show ?thesis
    by (auto simp: simdutf_ok_def reference_externals_def)
qed

end
