(* ===== verification/URL_Percent_Encoding.thy ===== *)
theory URL_Percent_Encoding
  imports AK_Strings
begin

text \<open>
  Percent-encoding, \<^verbatim>\<open>Libraries/LibURL/URL.cpp\<close>: the percent-encode sets, \<^verbatim>\<open>percent_encode\<close>,
  \<^verbatim>\<open>percent_decode\<close> and \<^verbatim>\<open>Parser::percent_encode_after_encoding\<close>.  A \<^verbatim>\<open>TextCodec::Encoder\<close> is the
  function that yields the bytes and the errors its \<^verbatim>\<open>process\<close> reports, in order.
\<close>

datatype PercentEncodeSet = C0Control | Fragment_Set | Query_Set | SpecialQuery | Path_Set
  | Userinfo | Component | ApplicationXWWWFormUrlencoded | EncodeURI

fun set_depth :: "PercentEncodeSet \<Rightarrow> nat" where
  "set_depth C0Control = 0"
| "set_depth Fragment_Set = 1"
| "set_depth Query_Set = 1"
| "set_depth SpecialQuery = 2"
| "set_depth Path_Set = 2"
| "set_depth Userinfo = 3"
| "set_depth Component = 4"
| "set_depth ApplicationXWWWFormUrlencoded = 5"
| "set_depth EncodeURI = 0"

function code_point_is_in_percent_encode_set :: "code_point \<Rightarrow> PercentEncodeSet \<Rightarrow> bool" where
  "code_point_is_in_percent_encode_set c C0Control \<longleftrightarrow> c < 0x20 \<or> c > 0x7E"
| "code_point_is_in_percent_encode_set c Fragment_Set \<longleftrightarrow>
     code_point_is_in_percent_encode_set c C0Control \<or> contains_char '' \"<>`'' (char_of c)"
| "code_point_is_in_percent_encode_set c Query_Set \<longleftrightarrow>
     code_point_is_in_percent_encode_set c C0Control \<or> contains_char '' \"#<>'' (char_of c)"
| "code_point_is_in_percent_encode_set c SpecialQuery \<longleftrightarrow>
     code_point_is_in_percent_encode_set c Query_Set \<or> c = 0x27"
| "code_point_is_in_percent_encode_set c Path_Set \<longleftrightarrow>
     code_point_is_in_percent_encode_set c Query_Set \<or> contains_char ''?^`{}'' (char_of c)"
| "code_point_is_in_percent_encode_set c Userinfo \<longleftrightarrow>
     code_point_is_in_percent_encode_set c Path_Set \<or> contains_char (''/:;=@['' @ [CHR 0x5C] @ '']|'') (char_of c)"
| "code_point_is_in_percent_encode_set c Component \<longleftrightarrow>
     code_point_is_in_percent_encode_set c Userinfo \<or> contains_char ''$%&+,'' (char_of c)"
| "code_point_is_in_percent_encode_set c ApplicationXWWWFormUrlencoded \<longleftrightarrow>
     code_point_is_in_percent_encode_set c Component \<or> contains_char (''!'' @ [CHR 0x27] @ ''()~'') (char_of c)"
| "code_point_is_in_percent_encode_set c EncodeURI \<longleftrightarrow>
     c > 0x7E \<or> (\<not> is_ascii_alphanumeric c
       \<and> \<not> contains_char ('';,/?:@&=+$-_.!~*'' @ [CHR 0x27] @ ''()#'') (char_of c))"
  by pat_completeness auto
termination
  by (relation "measure (\<lambda>(_, s). set_depth s)") auto

definition percent_02X :: "nat \<Rightarrow> byte_string" where
  "percent_02X n = CHR ''%'' # put_u64_zero_padded n 16 True 2"

definition append_percent_encoded :: "byte_string \<Rightarrow> code_point \<Rightarrow> byte_string exec" where
  "append_percent_encoded builder c =
     (if c \<le> 0x7f then Done (builder @ percent_02X c)
      else if c \<le> 0x07ff then
        Done (builder @ percent_02X ((drop_bit 6 c AND 0x1f) OR 0xc0)
                @ percent_02X ((c AND 0x3f) OR 0x80))
      else if c \<le> 0xffff then
        Done (builder @ percent_02X ((drop_bit 12 c AND 0x0f) OR 0xe0)
                @ percent_02X ((drop_bit 6 c AND 0x3f) OR 0x80) @ percent_02X ((c AND 0x3f) OR 0x80))
      else if c \<le> 0x10ffff then
        Done (builder @ percent_02X ((drop_bit 18 c AND 0x07) OR 0xf0)
                @ percent_02X ((drop_bit 12 c AND 0x3f) OR 0x80)
                @ percent_02X ((drop_bit 6 c AND 0x3f) OR 0x80) @ percent_02X ((c AND 0x3f) OR 0x80))
      else Verify_failed)"

definition append_percent_encoded_if_necessary ::
  "byte_string \<Rightarrow> code_point \<Rightarrow> PercentEncodeSet \<Rightarrow> byte_string exec" where
  "append_percent_encoded_if_necessary builder c encode_set =
     (if code_point_is_in_percent_encode_set c encode_set then append_percent_encoded builder c
      else Done (append_code_point builder c))"

fun percent_encode_loop ::
  "byte_string \<Rightarrow> code_point list \<Rightarrow> PercentEncodeSet \<Rightarrow> bool \<Rightarrow> byte_string exec" where
  "percent_encode_loop builder [] encode_set space_as_plus = Done builder"
| "percent_encode_loop builder (c # cs) encode_set space_as_plus =
     (if space_as_plus \<and> c = cp CHR '' '' then
        percent_encode_loop (builder @ ''+'') cs encode_set space_as_plus
      else case append_percent_encoded_if_necessary builder c encode_set of
        Verify_failed \<Rightarrow> Verify_failed
      | Done builder' \<Rightarrow> percent_encode_loop builder' cs encode_set space_as_plus)"

definition percent_encode :: "byte_string \<Rightarrow> PercentEncodeSet \<Rightarrow> bool \<Rightarrow> byte_string exec" where
  "percent_encode input encode_set space_as_plus = percent_encode_loop [] (code_points input) encode_set space_as_plus"

fun percent_decode_loop :: "byte_string \<Rightarrow> byte_string \<Rightarrow> byte_string exec" where
  "percent_decode_loop builder [] = Done builder"
| "percent_decode_loop builder (c # cs) =
     (if c \<noteq> CHR ''%'' then percent_decode_loop (builder @ [c]) cs
      else case cs of
        h # l # rest \<Rightarrow>
          (if \<not> is_ascii_hex_digit (cp h) \<or> \<not> is_ascii_hex_digit (cp l)
           then percent_decode_loop (builder @ [c]) cs
           else case (parse_ascii_hex_digit (cp h), parse_ascii_hex_digit (cp l)) of
             (Done x, Done y) \<Rightarrow>
               percent_decode_loop (builder @ [char_of (push_bit 4 x OR y)]) rest
           | _ \<Rightarrow> Verify_failed)
      | _ \<Rightarrow> percent_decode_loop (builder @ [c]) cs)"

definition percent_decode :: "byte_string \<Rightarrow> byte_string exec" where
  "percent_decode input =
     (if \<not> contains_char input CHR ''%'' then Done input else percent_decode_loop [] input)"

subsection \<open>Percent-encoding after encoding\<close>

datatype encoder_event = Encoded_byte char | Encoding_error code_point

type_synonym encoder = "byte_string \<Rightarrow> encoder_event list"

definition utf8_encoder :: encoder where
  "utf8_encoder input = map Encoded_byte input"

fun percent_encode_event :: "PercentEncodeSet \<Rightarrow> bool \<Rightarrow> encoder_event \<Rightarrow> byte_string" where
  "percent_encode_event encode_set space_as_plus (Encoded_byte b) =
     (if space_as_plus \<and> b = CHR '' '' then ''+''
      else if \<not> code_point_is_in_percent_encode_set (cp b) encode_set then append_code_point [] (cp b)
      else percent_02X (cp b))"
| "percent_encode_event encode_set space_as_plus (Encoding_error e) =
     ''%26%23'' @ convert_unsigned_to_string e 10 False @ ''%3B''"

definition percent_encode_after_encoding ::
  "encoder \<Rightarrow> byte_string \<Rightarrow> PercentEncodeSet \<Rightarrow> bool \<Rightarrow> byte_string" where
  "percent_encode_after_encoding encoder input encode_set space_as_plus =
     concat (map (percent_encode_event encode_set space_as_plus) (encoder input))"

subsection \<open>Hexadecimal bytes\<close>

lemma uppercase_digit:
  assumes "d < 16"
  shows "parse_ascii_hex_digit (cp (uppercase_lookup ! d)) = Done d"
    and "is_ascii_hex_digit (cp (uppercase_lookup ! d))"
    and "0x30 \<le> cp (uppercase_lookup ! d)" and "cp (uppercase_lookup ! d) \<le> 0x46"
proof -
  have "\<forall>d\<in>{..<16::nat}. parse_ascii_hex_digit (cp (uppercase_lookup ! d)) = Done d
      \<and> is_ascii_hex_digit (cp (uppercase_lookup ! d))
      \<and> 0x30 \<le> cp (uppercase_lookup ! d) \<and> cp (uppercase_lookup ! d) \<le> 0x46"
    by (simp add: lessThan_nat_numeral lessThan_Suc uppercase_lookup_def parse_ascii_hex_digit_def
      parse_ascii_digit_def char_class)
  with assms show "parse_ascii_hex_digit (cp (uppercase_lookup ! d)) = Done d"
    "is_ascii_hex_digit (cp (uppercase_lookup ! d))"
    "0x30 \<le> cp (uppercase_lookup ! d)" "cp (uppercase_lookup ! d) \<le> 0x46"
    by blast+
qed

lemma percent_02X_eq:
  assumes "n < 256"
  shows "percent_02X n = [CHR ''%'', uppercase_lookup ! (n div 16), uppercase_lookup ! (n mod 16)]"
proof -
  have small: "n div 16 < 16" "n div 256 = 0" using assms by (simp_all add: less_mult_imp_div_less)
  have zero: "uppercase_lookup ! 0 = CHR ''0''" by (simp add: uppercase_lookup_def)
  have buf: "n \<noteq> 0 \<Longrightarrow> digit_buffer 16 uppercase_lookup n =
      uppercase_lookup ! (n mod 16) # digit_buffer 16 uppercase_lookup (n div 16)"
    by (subst digit_buffer.simps) simp
  have buf2: "n div 16 \<noteq> 0 \<Longrightarrow> digit_buffer 16 uppercase_lookup (n div 16) = [uppercase_lookup ! (n div 16)]"
    by (subst digit_buffer.simps) (simp add: small div_mult2_eq [symmetric])
  consider "n = 0" | "n \<noteq> 0" "n div 16 = 0" | "n \<noteq> 0" "n div 16 \<noteq> 0" by blast
  then show ?thesis
  proof cases
    case 1
    then show ?thesis
      by (simp add: percent_02X_def put_u64_zero_padded_def convert_unsigned_to_string_def zero)
  next
    case 2
    with buf have "digit_buffer 16 uppercase_lookup n = [uppercase_lookup ! n]" by simp
    with 2 show ?thesis
      by (simp add: percent_02X_def put_u64_zero_padded_def convert_unsigned_to_string_def zero)
  next
    case 3
    with buf buf2 have "digit_buffer 16 uppercase_lookup n =
        [uppercase_lookup ! (n mod 16), uppercase_lookup ! (n div 16)]" by simp
    with 3 show ?thesis
      by (simp add: percent_02X_def put_u64_zero_padded_def convert_unsigned_to_string_def)
  qed
qed

lemma append_percent_encoded_utf8:
  assumes "is_unicode c"
  shows "append_percent_encoded builder c =
    Done (builder @ concat (map (\<lambda>b. percent_02X (cp b)) (code_point_to_utf8 c)))"
proof -
  have "c \<le> 0x7ff \<Longrightarrow> c div 64 < 32" "c \<le> 0xffff \<Longrightarrow> c div 4096 < 16"
    "c \<le> 0x10ffff \<Longrightarrow> c div 262144 < 8"
    by (simp_all add: less_mult_imp_div_less)
  with assms show ?thesis
    by (simp add: append_percent_encoded_def code_point_to_utf8_arith is_unicode_def
      and_mask_mod or_lead_byte drop_bit_div)
qed

subsection \<open>Percent-encoding and decoding as pure functions\<close>

definition percent_encoded :: "PercentEncodeSet \<Rightarrow> code_point \<Rightarrow> byte_string" where
  "percent_encoded encode_set c =
     (if code_point_is_in_percent_encode_set c encode_set
      then concat (map (\<lambda>b. percent_02X (cp b)) (code_point_to_utf8 c)) else code_point_to_utf8 c)"

lemma append_percent_encoded_if_necessary_eq:
  "is_unicode c \<Longrightarrow> append_percent_encoded_if_necessary builder c encode_set =
     Done (builder @ percent_encoded encode_set c)"
  by (simp add: append_percent_encoded_if_necessary_def percent_encoded_def append_percent_encoded_utf8)

lemma percent_encode_loop_eq:
  "list_all is_unicode cs \<Longrightarrow> percent_encode_loop builder cs encode_set space_as_plus =
     Done (builder @ concat (map (\<lambda>c. if space_as_plus \<and> c = cp CHR '' '' then ''+''
                                        else percent_encoded encode_set c) cs))"
  by (cases space_as_plus; induction cs arbitrary: builder)
    (simp_all add: append_percent_encoded_if_necessary_eq)

lemma percent_encode_eq:
  "percent_encode input encode_set False =
     Done (concat (map (percent_encoded encode_set) (code_points input)))"
  by (simp add: percent_encode_def percent_encode_loop_eq code_points_unicode)

fun percent_decoded :: "byte_string \<Rightarrow> byte_string" where
  "percent_decoded [] = []"
| "percent_decoded (c # cs) =
     (case cs of
        h # l # rest \<Rightarrow>
          if c = CHR ''%'' \<and> is_ascii_hex_digit (cp h) \<and> is_ascii_hex_digit (cp l)
          then (case (parse_ascii_hex_digit (cp h), parse_ascii_hex_digit (cp l)) of
                  (Done x, Done y) \<Rightarrow> char_of (16 * x + y) # percent_decoded rest
                | _ \<Rightarrow> [])
          else c # percent_decoded cs
      | _ \<Rightarrow> c # percent_decoded cs)"

lemma nibbles_or: "y < 16 \<Longrightarrow> push_bit 4 x OR y = 16 * x + y" for x y :: nat
  using or_shifted_plus [of y 4 x] by (simp add: push_bit_eq_mult mult.commute)

declare percent_decode_loop.simps(2) [simp del] percent_decoded.simps(2) [simp del]

text \<open>One step of either function: an escape is read, or the byte is copied.\<close>

definition escape_at :: "byte_string \<Rightarrow> bool" where
  "escape_at s = (case s of c # h # l # rest \<Rightarrow>
     c = CHR ''%'' \<and> is_ascii_hex_digit (cp h) \<and> is_ascii_hex_digit (cp l) | _ \<Rightarrow> False)"

lemma percent_decoded_copy: "\<not> escape_at (c # cs) \<Longrightarrow> percent_decoded (c # cs) = c # percent_decoded cs"
  by (subst percent_decoded.simps) (auto simp: escape_at_def split: list.splits)

lemma percent_decode_loop_copy:
  "\<not> escape_at (c # cs) \<Longrightarrow> percent_decode_loop builder (c # cs) = percent_decode_loop (builder @ [c]) cs"
  by (subst percent_decode_loop.simps) (auto simp: escape_at_def split: list.splits)

lemma percent_decoded_escape:
  assumes "parse_ascii_hex_digit (cp h) = Done x" "parse_ascii_hex_digit (cp l) = Done y"
  shows "percent_decoded (CHR ''%'' # h # l # rest) = char_of (16 * x + y) # percent_decoded rest"
  using assms parse_ascii_hex_digit_fails [of "cp h"] parse_ascii_hex_digit_fails [of "cp l"]
  by (subst percent_decoded.simps) simp

lemma percent_decode_loop_escape:
  assumes "parse_ascii_hex_digit (cp h) = Done x" "parse_ascii_hex_digit (cp l) = Done y" "y < 16"
  shows "percent_decode_loop builder (CHR ''%'' # h # l # rest) =
    percent_decode_loop (builder @ [char_of (16 * x + y)]) rest"
  using assms parse_ascii_hex_digit_fails [of "cp h"] parse_ascii_hex_digit_fails [of "cp l"]
  by (subst percent_decode_loop.simps) (simp add: nibbles_or)

lemma escape_atE:
  assumes "escape_at s"
  obtains h l x y rest where "s = CHR ''%'' # h # l # rest" "parse_ascii_hex_digit (cp h) = Done x"
    "parse_ascii_hex_digit (cp l) = Done y" "x < 16" "y < 16"
proof -
  from assms obtain h l rest where s: "s = CHR ''%'' # h # l # rest"
    and hex: "is_ascii_hex_digit (cp h)" "is_ascii_hex_digit (cp l)"
    by (auto simp: escape_at_def split: list.splits)
  from hex [THEN parse_ascii_hex_digit_total] s show thesis
    by (auto intro: that)
qed

lemma percent_decode_loop_eq: "percent_decode_loop builder s = Done (builder @ percent_decoded s)"
proof (induction s arbitrary: builder rule: length_induct)
  case (1 s)
  show ?case
  proof (cases s)
    case (Cons c cs)
    show ?thesis
    proof (cases "escape_at s")
      case True
      then show ?thesis
        using 1 by (elim escape_atE) (simp add: percent_decode_loop_escape percent_decoded_escape)
    next
      case False
      with 1 Cons show ?thesis by (simp add: percent_decode_loop_copy percent_decoded_copy)
    qed
  qed simp
qed

lemma percent_decoded_plain: "CHR ''%'' \<notin> set s \<Longrightarrow> percent_decoded s = s"
  by (induction s) (auto simp: percent_decoded_copy escape_at_def split: list.splits)

lemma percent_decode_eq: "percent_decode s = Done (percent_decoded s)"
  by (auto simp: percent_decode_def contains_char_def list_ex_iff percent_decoded_plain percent_decode_loop_eq)

subsection \<open>What percent-encoding keeps\<close>

lemma percent_decoded_percent_02X:
  assumes "n < 256"
  shows "percent_decoded (percent_02X n @ s) = char_of n # percent_decoded s"
proof -
  have "n div 16 < 16" using assms by (simp add: less_mult_imp_div_less)
  then show ?thesis
    using assms by (simp add: percent_02X_eq percent_decoded_escape [OF uppercase_digit(1) uppercase_digit(1)]
      mult.commute)
qed

lemma percent_decoded_escaped:
  "percent_decoded (concat (map (\<lambda>b. percent_02X (cp b)) bs) @ s) = bs @ percent_decoded s"
  by (induction bs) (simp_all add: percent_decoded_percent_02X)

lemma percent_decoded_no_percent:
  "CHR ''%'' \<notin> set bs \<Longrightarrow> percent_decoded (bs @ s) = bs @ percent_decoded s"
  by (induction bs) (auto simp: percent_decoded_copy escape_at_def split: list.splits)

text \<open>No percent-encode set holds a hexadecimal digit, and none of the bytes an escape is made of.\<close>

lemma hex_digit_not_encoded:
  assumes "is_ascii_hex_digit c"
  shows "\<not> code_point_is_in_percent_encode_set c encode_set"
proof -
  have "\<forall>c\<in>set [0x30..<0x3A] \<union> set [0x41..<0x47] \<union> set [0x61..<0x67].
      \<not> code_point_is_in_percent_encode_set c encode_set"
    by (cases encode_set) (simp_all add: upt_rec contains_char_def char_class char_of_eq_iff_mod)
  moreover have "c \<in> set [0x30..<0x3A] \<union> set [0x41..<0x47] \<union> set [0x61..<0x67]"
    using assms unfolding set_upt by (auto simp: char_class)
  ultimately show ?thesis by blast
qed

lemma percent_not_in_utf8:
  assumes "is_unicode c" "c \<noteq> cp CHR ''%''"
  shows "CHR ''%'' \<notin> set (code_point_to_utf8 c)"
proof (cases "is_ascii c")
  case True
  with assms show ?thesis
    by (simp add: code_point_to_utf8_ascii is_ascii_def char_of_eq_iff_mod)
next
  case False
  with assms code_point_to_utf8_non_ascii [of c "CHR ''%''"] show ?thesis by auto
qed

lemma percent_decoded_percent_encoded:
  assumes "is_unicode c" "code_point_is_in_percent_encode_set c encode_set \<or> c \<noteq> cp CHR ''%''"
  shows "percent_decoded (percent_encoded encode_set c @ s) = code_point_to_utf8 c @ percent_decoded s"
  using assms by (auto simp: percent_encoded_def percent_decoded_escaped
    percent_decoded_no_percent percent_not_in_utf8)

text \<open>The first byte of a code point that is no hexadecimal digit is none either, encoded or not.\<close>

lemma percent_encoded_hex_digit:
  "is_ascii_hex_digit c \<Longrightarrow> percent_encoded encode_set c = [char_of c]"
  using hex_digit_not_encoded hex_digit_ascii by (simp add: percent_encoded_def code_point_to_utf8_ascii)

lemma first_byte_not_hex:
  assumes "is_unicode c" "\<not> is_ascii_hex_digit c"
  shows "\<exists>b bs. code_point_to_utf8 c = b # bs \<and> \<not> is_ascii_hex_digit (cp b)"
    and "\<exists>b bs. percent_encoded encode_set c = b # bs \<and> \<not> is_ascii_hex_digit (cp b)"
proof -
  obtain b bs where utf8: "code_point_to_utf8 c = b # bs"
    using code_point_to_utf8_nonempty [OF assms(1)] by (cases "code_point_to_utf8 c") auto
  have "\<not> is_ascii_hex_digit (cp b)"
  proof (cases "is_ascii c")
    case True
    with assms utf8 show ?thesis
      by (auto simp: code_point_to_utf8_ascii is_ascii_def)
  next
    case False
    with assms utf8 code_point_to_utf8_non_ascii [of c b] show ?thesis
      by (auto simp: char_class)
  qed
  with utf8 show "\<exists>b bs. code_point_to_utf8 c = b # bs \<and> \<not> is_ascii_hex_digit (cp b)"
    and "\<exists>b bs. percent_encoded encode_set c = b # bs \<and> \<not> is_ascii_hex_digit (cp b)"
    by (auto simp: percent_encoded_def percent_02X_def char_class)
qed

lemma no_escape_of_not_hex:
  assumes "f = code_point_to_utf8 \<or> f = percent_encoded encode_set" "list_all is_unicode cs"
    and "\<not> (\<exists>h l rest. cs = h # l # rest \<and> is_ascii_hex_digit h \<and> is_ascii_hex_digit l)"
  shows "\<not> escape_at (CHR ''%'' # concat (map f cs))"
proof -
  have step: "is_ascii_hex_digit c \<Longrightarrow> f c = [char_of c]" for c
    using assms(1) percent_encoded_hex_digit hex_digit_ascii code_point_to_utf8_ascii by auto
  have stop: "is_unicode c \<Longrightarrow> \<not> is_ascii_hex_digit c \<Longrightarrow>
      \<exists>b bs. f c = b # bs \<and> \<not> is_ascii_hex_digit (cp b)" for c
    using assms(1) first_byte_not_hex by auto
  consider "cs = []" | h rest where "cs = h # rest" "\<not> is_ascii_hex_digit h"
    | h where "cs = [h]" "is_ascii_hex_digit h"
    | h l rest where "cs = h # l # rest" "is_ascii_hex_digit h" "\<not> is_ascii_hex_digit l"
    using assms(3) by (metis list.exhaust)
  then show ?thesis
    by cases (use assms(2) step stop in \<open>fastforce simp: escape_at_def split: list.splits\<close>)+
qed

lemma percent_decoded_same:
  assumes "list_all is_unicode cs" "\<not> code_point_is_in_percent_encode_set (cp CHR ''%'') encode_set"
  shows "percent_decoded (concat (map (percent_encoded encode_set) cs)) = percent_decoded (utf8_encode cs)"
  using assms(1)
proof (induction cs rule: length_induct)
  case (1 cs)
  let ?e = "\<lambda>cs. concat (map (percent_encoded encode_set) cs)"
  show ?case
  proof (cases cs)
    case (Cons c cs')
    with 1 have IH: "percent_decoded (?e cs') = percent_decoded (utf8_encode cs')" by simp
    have percent: "percent_encoded encode_set (cp CHR ''%'') = ''%''" "code_point_to_utf8 (cp CHR ''%'') = ''%''"
      using assms(2) by (simp_all add: percent_encoded_def code_point_to_utf8_def char_of_eq_iff_mod)
    consider "c \<noteq> cp CHR ''%''"
      | "c = cp CHR ''%''" "\<not> (\<exists>h l rest. cs' = h # l # rest \<and> is_ascii_hex_digit h \<and> is_ascii_hex_digit l)"
      | h l rest where "c = cp CHR ''%''" "cs' = h # l # rest" "is_ascii_hex_digit h" "is_ascii_hex_digit l"
      by blast
    then show ?thesis
    proof cases
      case 1
      then have "CHR ''%'' \<notin> set (code_point_to_utf8 c)"
        using "1.prems" Cons by (simp add: percent_not_in_utf8)
      with 1 "1.prems" Cons IH show ?thesis
        by (simp add: percent_decoded_percent_encoded percent_decoded_no_percent)
    next
      case 2
      with "1.prems" Cons no_escape_of_not_hex [of _ encode_set cs'] IH percent show ?thesis
        by (simp add: percent_decoded_copy utf8_encode_def)
    next
      case 3
      then obtain x y where xy: "parse_ascii_hex_digit h = Done x" "parse_ascii_hex_digit l = Done y"
        using parse_ascii_hex_digit_total by blast
      have small: "h < 256" "l < 256" using 3 by (auto simp: char_class)
      have "percent_decoded (?e rest) = percent_decoded (utf8_encode rest)"
        using 1 3 Cons by simp
      with 3 Cons percent xy small show ?thesis
        by (simp add: percent_encoded_hex_digit code_point_to_utf8_ascii hex_digit_ascii percent_decoded_escape)
    qed
  qed simp
qed

lemma percent_decoded_all_encoded:
  assumes "list_all is_unicode cs" "code_point_is_in_percent_encode_set (cp CHR ''%'') encode_set"
  shows "percent_decoded (concat (map (percent_encoded encode_set) cs)) = utf8_encode cs"
  using assms
proof (induction cs)
  case (Cons c cs)
  then show ?case
    using percent_decoded_percent_encoded [of c encode_set] by (cases "c = cp CHR ''%''") simp_all
qed simp

text \<open>The bytes an encoder may emit: printable ASCII outside the set, or part of an escape.\<close>

lemma set_beyond_ascii: "c > 0x7E \<Longrightarrow> code_point_is_in_percent_encode_set c encode_set"
  by (cases encode_set) simp_all

lemma set_controls: "c < 0x20 \<Longrightarrow> code_point_is_in_percent_encode_set c encode_set"
  by (cases encode_set)
    (simp_all add: char_class contains_char_def char_of_eq_iff_mod mod_less [of c 256])

lemma percent_02X_printable:
  assumes "n < 256" "b \<in> set (percent_02X n)"
  shows "b = CHR ''%'' \<or> is_ascii_hex_digit (cp b)"
proof -
  have "n div 16 < 16" using assms by (simp add: less_mult_imp_div_less)
  with assms show ?thesis by (auto simp: percent_02X_eq uppercase_digit(2))
qed

lemma percent_encoded_bytes:
  assumes "is_unicode c" "b \<in> set (percent_encoded encode_set c)"
  shows "b = CHR ''%'' \<or> is_ascii_hex_digit (cp b)
    \<or> (cp b = c \<and> is_ascii_printable (cp b) \<and> \<not> code_point_is_in_percent_encode_set (cp b) encode_set)"
proof (cases "code_point_is_in_percent_encode_set c encode_set")
  case True
  with assms obtain b' where "b \<in> set (percent_02X (cp b'))" by (auto simp: percent_encoded_def)
  then show ?thesis using percent_02X_printable of_char_less_256 by blast
next
  case False
  then have "0x20 \<le> c" "c \<le> 0x7E" using set_beyond_ascii set_controls by (auto simp: not_less [symmetric])
  with False assms show ?thesis
    by (auto simp: percent_encoded_def code_point_to_utf8_def is_ascii_printable_def)
qed

lemma percent_encoded_printable:
  "is_unicode c \<Longrightarrow> list_all (\<lambda>b. is_ascii_printable (cp b)) (percent_encoded encode_set c)"
  using percent_encoded_bytes [of c _ encode_set]
  by (fastforce simp: list_all_iff char_class)

lemma percent_encode_printable:
  "\<exists>e. percent_encode input encode_set space_as_plus = Done e \<and> list_all (\<lambda>b. is_ascii_printable (cp b)) e"
proof -
  have "list_all is_unicode cs \<Longrightarrow> list_all (\<lambda>b. is_ascii_printable (cp b))
      (concat (map (\<lambda>c. if space_as_plus \<and> c = 32 then ''+'' else percent_encoded encode_set c) cs))" for cs
    using is_ascii_printable_def [of "cp CHR ''+''"]
    by (induction cs) (simp_all add: percent_encoded_printable)
  then show ?thesis
    by (simp add: percent_encode_def percent_encode_loop_eq code_points_unicode)
qed

lemma percent_encoded_id:
  assumes "\<not> code_point_is_in_percent_encode_set (cp b) encode_set"
  shows "percent_encoded encode_set (cp b) = [b]"
proof -
  have "cp b \<le> 0x7E" using assms set_beyond_ascii [of "cp b"] by (meson not_le)
  with assms show ?thesis by (simp add: percent_encoded_def code_point_to_utf8_def)
qed

lemma percent_encode_printable_id:
  assumes "list_all (\<lambda>b. \<not> code_point_is_in_percent_encode_set (cp b) encode_set) e"
  shows "percent_encode e encode_set False = Done e"
proof -
  have "list_all (\<lambda>b. is_ascii (cp b)) e"
    using assms set_beyond_ascii [of _ encode_set]
    by (auto simp: list_all_iff is_ascii_def not_less elim!: ballE intro: ccontr)
  moreover have "concat (map (\<lambda>b. percent_encoded encode_set (cp b)) e) = e"
    using assms by (induction e) (simp_all add: percent_encoded_id)
  ultimately show ?thesis
    by (simp add: percent_encode_eq ascii_code_points comp_def)
qed

text \<open>C36: for every byte string and every percent-encode set, \<^verbatim>\<open>percent_encode\<close> returns (its
  \<^verbatim>\<open>VERIFY_NOT_REACHED\<close> is never reached) and every byte of the result is printable ASCII.\<close>

theorem percent_encode_total_printable:
  "\<exists>e. percent_encode input encode_set space_as_plus = Done e
     \<and> list_all (\<lambda>b. is_ascii_printable (cp b)) e"
  by (rule percent_encode_printable)

text \<open>C37: a set that holds the percent sign makes \<^verbatim>\<open>percent_decode\<close> the inverse of
  \<^verbatim>\<open>percent_encode\<close> on well-formed UTF-8.\<close>

theorem percent_decode_inverts_percent_encode:
  assumes "list_all is_unicode cs" "code_point_is_in_percent_encode_set (cp CHR ''%'') encode_set"
  shows "exec_bind (percent_encode (utf8_encode cs) encode_set False) percent_decode = Done (utf8_encode cs)"
  using assms code_points_encode_append [of cs "[]"]
  by (simp add: percent_encode_eq percent_decode_eq percent_decoded_all_encoded code_points_def)

theorem percent_decode_inverts_percent_encode_witness:
  "exec_bind (percent_encode (utf8_encode [0x25, 0x34, 0x31, 0xE9, 0x1F600]) Component False) percent_decode
     = Done (utf8_encode [0x25, 0x34, 0x31, 0xE9, 0x1F600])"
  by (rule percent_decode_inverts_percent_encode)
    (simp_all add: is_unicode_def contains_char_def char_of_eq_iff_mod)

text \<open>C38: under any other set the escapes already present are left alone: decoding the encoded
  string gives what decoding the original gives.\<close>

theorem percent_decode_unchanged_by_percent_encode:
  assumes "list_all is_unicode cs" "\<not> code_point_is_in_percent_encode_set (cp CHR ''%'') encode_set"
  shows "exec_bind (percent_encode (utf8_encode cs) encode_set False) percent_decode
    = percent_decode (utf8_encode cs)"
  using assms code_points_encode_append [of cs "[]"]
  by (simp add: percent_encode_eq percent_decode_eq percent_decoded_same code_points_def)

theorem percent_decode_unchanged_by_percent_encode_witness:
  "exec_bind (percent_encode (utf8_encode [0x25, 0x34, 0x31, 0x25, 0x3C]) Path_Set False) percent_decode
     = Done ''A%<''"
proof -
  have "percent_decode (utf8_encode [0x25, 0x34, 0x31, 0x25, 0x3C]) = Done ''A%<''"
    by code_simp
  then show ?thesis
    using percent_decode_unchanged_by_percent_encode [of "[0x25, 0x34, 0x31, 0x25, 0x3C]" Path_Set]
    by (simp add: is_unicode_def contains_char_def char_of_eq_iff_mod)
qed

text \<open>C39: percent-encoding is idempotent under a set that does not hold the percent sign.\<close>

theorem percent_encode_idempotent:
  assumes "\<not> code_point_is_in_percent_encode_set (cp CHR ''%'') encode_set"
    and "percent_encode input encode_set False = Done e"
  shows "percent_encode e encode_set False = Done e"
proof (rule percent_encode_printable_id)
  have "\<not> code_point_is_in_percent_encode_set (cp b) encode_set" if "b \<in> set e" for b
  proof -
    from that assms(2) obtain c where "is_unicode c" "b \<in> set (percent_encoded encode_set c)"
      using code_points_unicode [of input] by (force simp: percent_encode_eq list_all_iff)
    then show ?thesis
      using percent_encoded_bytes assms(1) hex_digit_not_encoded by blast
  qed
  then show "list_all (\<lambda>b. \<not> code_point_is_in_percent_encode_set (cp b) encode_set) e"
    by (simp add: list_all_iff)
qed

theorem percent_encode_idempotent_witness:
  "percent_encode ''a%20b'' Path_Set False = Done ''a%20b''"
  by (rule percent_encode_idempotent [of Path_Set "''a b''"])
    (simp_all add: contains_char_def char_of_eq_iff_mod percent_encode_eq ascii_code_points is_ascii_def
      percent_encoded_def code_point_to_utf8_def percent_02X_eq uppercase_lookup_def)

end
