(* ===== verification/URL_IP_Address.thy ===== *)
theory URL_IP_Address
  imports AK_Strings
begin

text \<open>
  IP addresses in URLs: the serializers of \<^verbatim>\<open>Libraries/LibURL/Host.cpp\<close> and the parsers of
  \<^verbatim>\<open>Libraries/LibURL/Parser.cpp\<close>.  An \<^verbatim>\<open>IPv4Address\<close> is the value of its \<^verbatim>\<open>u32\<close>, an
  \<^verbatim>\<open>IPv6Address\<close> the list of its eight \<^verbatim>\<open>u16\<close> pieces; stores into such a field keep the low 32 or
  16 bits.  The IPv6 parser reads a list of code points; the list left is the source's
  \<^verbatim>\<open>pointer\<close> into \<^verbatim>\<open>code_points\<close>.
\<close>

subsection \<open>Serialization\<close>

function ipv4_octets :: "nat \<Rightarrow> nat \<Rightarrow> nat list \<Rightarrow> nat list" where
  "ipv4_octets i n output =
     (if i \<le> 3 then ipv4_octets (Suc i) (n div 256) (output[3 - i := n mod 256]) else output)"
  by pat_completeness auto
termination
  by (relation "measure (\<lambda>(i, _, _). 4 - i)") auto

definition serialize_ipv4_address :: "nat \<Rightarrow> byte_string" where
  "serialize_ipv4_address address =
     (let output = ipv4_octets 0 address [0, 0, 0, 0]
      in convert_unsigned_to_string (output ! 0) 10 False @ ''.''
       @ convert_unsigned_to_string (output ! 1) 10 False @ ''.''
       @ convert_unsigned_to_string (output ! 2) 10 False @ ''.''
       @ convert_unsigned_to_string (output ! 3) 10 False)"

fun compressed_piece_loop ::
  "nat list \<Rightarrow> nat \<Rightarrow> nat option \<Rightarrow> nat \<Rightarrow> nat option \<Rightarrow> nat \<Rightarrow> nat option" where
  "compressed_piece_loop [] piece_index longest_index longest_size found_index found_size =
     (if found_size > longest_size then found_index else longest_index)"
| "compressed_piece_loop (piece # pieces) piece_index longest_index longest_size found_index found_size =
     (if piece \<noteq> 0 then
        if found_size > longest_size
        then compressed_piece_loop pieces (Suc piece_index) found_index found_size None 0
        else compressed_piece_loop pieces (Suc piece_index) longest_index longest_size None 0
      else compressed_piece_loop pieces (Suc piece_index) longest_index longest_size
             (case found_index of None \<Rightarrow> Some piece_index | Some _ \<Rightarrow> found_index) (Suc found_size))"

definition find_the_ipv6_address_compressed_piece_index :: "nat list \<Rightarrow> nat option" where
  "find_the_ipv6_address_compressed_piece_index address = compressed_piece_loop address 0 None 1 None 0"

fun serialize_ipv6_loop :: "nat option \<Rightarrow> nat \<Rightarrow> bool \<Rightarrow> nat list \<Rightarrow> byte_string" where
  "serialize_ipv6_loop compress piece_index ignore0 [] = []"
| "serialize_ipv6_loop compress piece_index ignore0 (piece # pieces) =
     (if ignore0 \<and> piece = 0 then serialize_ipv6_loop compress (Suc piece_index) ignore0 pieces
      else if compress = Some piece_index then
        (if piece_index = 0 then ''::'' else '':'')
          @ serialize_ipv6_loop compress (Suc piece_index) True pieces
      else convert_unsigned_to_string piece 16 False
          @ (if piece_index \<noteq> 7 then '':'' else '''')
          @ serialize_ipv6_loop compress (Suc piece_index) False pieces)"

definition serialize_ipv6_address :: "nat list \<Rightarrow> byte_string" where
  "serialize_ipv6_address address =
     serialize_ipv6_loop (find_the_ipv6_address_compressed_piece_index address) 0 False address"

subsection \<open>IPv4\<close>

definition parse_ipv4_number :: "externals \<Rightarrow> byte_string \<Rightarrow> (nat \<times> bool) option" where
  "parse_ipv4_number ext input =
     (if input = [] then None
      else
        let (rest, radix, validation_error) =
          (if length input \<ge> 2 \<and> (starts_with input ''0X'' \<or> starts_with input ''0x'')
           then (drop 2 input, 16, True)
           else if length input \<ge> 2 \<and> input ! 0 = CHR ''0'' then (drop 1 input, 8, True)
           else (input, 10, False))
        in if rest = [] then Some (0, True)
           else if radix = 8 \<and> \<not> list_all (\<lambda>c. is_ascii_octal_digit (cp c)) rest then None
           else if radix = 10 \<and> \<not> list_all (\<lambda>c. is_ascii_digit (cp c)) rest then None
           else if radix = 16 \<and> \<not> list_all (\<lambda>c. is_ascii_hex_digit (cp c)) rest then None
           else case parse_number ext 32 rest radix of
               None \<Rightarrow> None
             | Some output \<Rightarrow> Some (output, validation_error))"

fun parse_ipv4_parts :: "externals \<Rightarrow> byte_string list \<Rightarrow> nat list option" where
  "parse_ipv4_parts ext [] = Some []"
| "parse_ipv4_parts ext (part # parts) =
     (case parse_ipv4_number ext part of
        None \<Rightarrow> None
      | Some (number, _) \<Rightarrow>
          (case parse_ipv4_parts ext parts of None \<Rightarrow> None | Some numbers \<Rightarrow> Some (number # numbers)))"

fun sum_ipv4_numbers :: "nat \<Rightarrow> nat \<Rightarrow> nat list \<Rightarrow> nat" where
  "sum_ipv4_numbers ipv4 counter [] = ipv4"
| "sum_ipv4_numbers ipv4 counter (n # numbers) =
     sum_ipv4_numbers ((ipv4 + n * 256 ^ (3 - counter)) mod 2 ^ 32) (Suc counter) numbers"

definition parse_ipv4_address :: "externals \<Rightarrow> byte_string \<Rightarrow> nat option exec" where
  "parse_ipv4_address ext input =
     (let parts = split_view input CHR ''.'' True
      in if parts = [] then Verify_failed
         else
           let parts' = (if last parts = [] \<and> length parts > 1 then butlast parts else parts)
           in if length parts' > 4 then Done None
              else case parse_ipv4_parts ext parts' of
                None \<Rightarrow> Done None
              | Some numbers \<Rightarrow>
                  if list_ex (\<lambda>n. n > 255) (butlast numbers) then Done None
                  else if last numbers \<ge> 256 ^ (5 - length numbers) then Done None
                  else Done (Some (sum_ipv4_numbers (last numbers) 0 (butlast numbers))))"

subsection \<open>IPv6\<close>

fun read_hex_piece ::
  "nat \<Rightarrow> nat \<Rightarrow> code_point list \<Rightarrow> (nat \<times> nat \<times> code_point list) exec" where
  "read_hex_piece val len [] = Done (val, len, [])"
| "read_hex_piece val len (c # cs) =
     (if len < 4 \<and> is_ascii_hex_digit c then
        (case parse_ascii_hex_digit c of
           Verify_failed \<Rightarrow> Verify_failed
         | Done d \<Rightarrow> read_hex_piece (val * 0x10 + d) (Suc len) cs)
      else Done (val, len, c # cs))"

fun read_ipv4_piece ::
  "nat option \<Rightarrow> code_point list \<Rightarrow> (nat option \<times> code_point list) option exec" where
  "read_ipv4_piece ipv4_piece [] = Done (Some (ipv4_piece, []))"
| "read_ipv4_piece ipv4_piece (c # cs) =
     (if is_ascii_digit c then
        (case parse_ascii_digit c of
           Verify_failed \<Rightarrow> Verify_failed
         | Done number \<Rightarrow>
             (case ipv4_piece of
                None \<Rightarrow> if number > 255 then Done None else read_ipv4_piece (Some number) cs
              | Some piece \<Rightarrow>
                  if piece = 0 then Done None
                  else if piece * 10 + number > 255 then Done None
                  else read_ipv4_piece (Some (piece * 10 + number)) cs))
      else Done (Some (ipv4_piece, c # cs)))"

lemma read_ipv4_piece_length:
  "read_ipv4_piece piece cs = Done (Some (r, rest)) \<Longrightarrow> length rest \<le> length cs"
  by (induction piece cs rule: read_ipv4_piece.induct)
    (auto split: if_splits exec.splits option.splits intro: le_SucI)

lemma read_ipv4_piece_digit_length:
  "\<lbrakk> read_ipv4_piece piece (c # cs) = Done (Some (r, rest)); is_ascii_digit c \<rbrakk>
   \<Longrightarrow> length rest \<le> length cs"
  by (auto split: if_splits exec.splits option.splits dest: read_ipv4_piece_length)

declare read_ipv4_piece.simps(2) [simp del]

definition store_u16 :: "nat list \<Rightarrow> nat \<Rightarrow> nat \<Rightarrow> nat list exec" where
  "store_u16 address i val =
     (if i < length address then Done (address[i := val mod 0x10000]) else Verify_failed)"

text \<open>
  The embedded IPv4 address.  \<open>ipv4_separator\<close> is step 5.2 of the loop: between numbers exactly one
  dot is skipped, and there are at most four numbers.
\<close>

definition ipv4_separator :: "nat \<Rightarrow> code_point list \<Rightarrow> code_point list option" where
  "ipv4_separator numbers_seen cs =
     (if numbers_seen > 0 then
        (case cs of
           c # rest \<Rightarrow> if c = cp CHR ''.'' \<and> numbers_seen < 4 then Some rest else None
         | [] \<Rightarrow> None)
      else Some cs)"

lemma ipv4_separator_length: "ipv4_separator k cs = Some cs' \<Longrightarrow> length cs' \<le> length cs"
  by (auto simp: ipv4_separator_def split: if_splits list.splits)

function ipv4_in_ipv6_loop ::
  "nat list \<Rightarrow> nat \<Rightarrow> nat \<Rightarrow> code_point list \<Rightarrow> (nat list \<times> nat \<times> nat) option exec" where
  "ipv4_in_ipv6_loop address piece_index numbers_seen cs =
     (if cs = [] then Done (Some (address, piece_index, numbers_seen))
      else case ipv4_separator numbers_seen cs of
        None \<Rightarrow> Done None
      | Some [] \<Rightarrow> Done None
      | Some (d # ds) \<Rightarrow>
          if \<not> is_ascii_digit d then Done None
          else case read_ipv4_piece None (d # ds) of
            Verify_failed \<Rightarrow> Verify_failed
          | Done None \<Rightarrow> Done None
          | Done (Some (None, rest)) \<Rightarrow> Verify_failed
          | Done (Some (Some ipv4_piece, rest)) \<Rightarrow>
              (case store_u16 address piece_index (address ! piece_index * 0x100 + ipv4_piece) of
                 Verify_failed \<Rightarrow> Verify_failed
               | Done address' \<Rightarrow>
                   ipv4_in_ipv6_loop address'
                     (if Suc numbers_seen = 2 \<or> Suc numbers_seen = 4 then Suc piece_index else piece_index)
                     (Suc numbers_seen) rest))"
  by pat_completeness auto
termination
  by (relation "measure (\<lambda>(_, _, _, cs). length cs)")
    (fastforce dest: read_ipv4_piece_digit_length ipv4_separator_length)+

declare ipv4_in_ipv6_loop.simps [simp del]

lemma read_hex_piece_length:
  "read_hex_piece val len cs = Done (v, n, rest) \<Longrightarrow> length rest \<le> length cs"
  by (induction val len cs rule: read_hex_piece.induct)
    (auto split: if_splits exec.splits intro: le_SucI)

declare read_hex_piece.simps(2) [simp del]

function parse_ipv6_loop ::
  "nat list \<Rightarrow> nat \<Rightarrow> nat option \<Rightarrow> code_point list \<Rightarrow> (nat list \<times> nat \<times> nat option) option exec" where
  "parse_ipv6_loop address piece_index compress [] = Done (Some (address, piece_index, compress))"
| "parse_ipv6_loop address piece_index compress (c # cs) =
     (if piece_index = 8 then Done None
      else if c = cp CHR '':'' then
        (if compress \<noteq> None then Done None
         else parse_ipv6_loop address (Suc piece_index) (Some (Suc piece_index)) cs)
      else case read_hex_piece 0 0 (c # cs) of
        Verify_failed \<Rightarrow> Verify_failed
      | Done (val, len, []) \<Rightarrow>
          (case store_u16 address piece_index val of
             Verify_failed \<Rightarrow> Verify_failed
           | Done address' \<Rightarrow> parse_ipv6_loop address' (Suc piece_index) compress [])
      | Done (val, len, d # ds) \<Rightarrow>
          if d = cp CHR ''.'' then
            (if len = 0 then Done None
             else if piece_index > 6 then Done None
             else case ipv4_in_ipv6_loop address piece_index 0 (c # cs) of
               Verify_failed \<Rightarrow> Verify_failed
             | Done None \<Rightarrow> Done None
             | Done (Some (address', piece_index', numbers_seen)) \<Rightarrow>
                 if numbers_seen \<noteq> 4 then Done None
                 else Done (Some (address', piece_index', compress)))
          else if d = cp CHR '':'' then
            (if ds = [] then Done None
             else case store_u16 address piece_index val of
               Verify_failed \<Rightarrow> Verify_failed
             | Done address' \<Rightarrow> parse_ipv6_loop address' (Suc piece_index) compress ds)
          else Done None)"
  by pat_completeness auto
termination
  by (relation "measure (\<lambda>(_, _, _, cs). length cs)")
    (fastforce dest: read_hex_piece_length)+

declare parse_ipv6_loop.simps(2) [simp del]

fun ipv6_swap_loop :: "nat list \<Rightarrow> nat \<Rightarrow> nat \<Rightarrow> nat \<Rightarrow> nat list" where
  "ipv6_swap_loop address compress 0 swaps = address"
| "ipv6_swap_loop address compress piece_index 0 = address"
| "ipv6_swap_loop address compress (Suc i) (Suc swaps) =
     ipv6_swap_loop (address[Suc i := address ! (compress + swaps), compress + swaps := address ! Suc i])
       compress i swaps"

fun finish_ipv6_address :: "(nat list \<times> nat \<times> nat option) option exec \<Rightarrow> nat list option exec" where
  "finish_ipv6_address Verify_failed = Verify_failed"
| "finish_ipv6_address (Done None) = Done None"
| "finish_ipv6_address (Done (Some (address, piece_index, Some compress))) =
     Done (Some (ipv6_swap_loop address compress 7 (piece_index - compress)))"
| "finish_ipv6_address (Done (Some (address, piece_index, None))) =
     (if piece_index \<noteq> 8 then Done None else Done (Some address))"

definition parse_ipv6_address :: "byte_string \<Rightarrow> nat list option exec" where
  "parse_ipv6_address input =
     (case code_points input of
        c # cs \<Rightarrow>
          if c = cp CHR '':'' then
            (case cs of
               d # ds \<Rightarrow> if d \<noteq> cp CHR '':'' then Done None
                  else finish_ipv6_address (parse_ipv6_loop (replicate 8 0) 1 (Some 1) ds)
             | [] \<Rightarrow> Done None)
          else finish_ipv6_address (parse_ipv6_loop (replicate 8 0) 0 None (c # cs))
      | [] \<Rightarrow> finish_ipv6_address (parse_ipv6_loop (replicate 8 0) 0 None []))"

subsection \<open>IPv6: the parser inverts the serializer\<close>

abbreviation hex_piece :: "nat \<Rightarrow> byte_string" where
  "hex_piece p \<equiv> convert_unsigned_to_string p 16 False"

lemma hex_piece_digits:
  "c \<in> set (hex_piece p) \<Longrightarrow> is_ascii_hex_digit (cp c)"
  using convert_unsigned_digit(2) [of 16 c p False] by simp

lemma read_hex_piece_digits:
  assumes "\<forall>c\<in>set s. is_ascii_hex_digit (cp c)" "len + length s \<le> 4"
    "rest = [] \<or> \<not> is_ascii_hex_digit (hd rest)"
  shows "read_hex_piece val len (map cp s @ rest) =
    Done (foldl (\<lambda>v c. v * 16 + digit_value c) val s, len + length s, rest)"
  using assms(1,2)
proof (induction s arbitrary: val len)
  case Nil
  with assms(3) show ?case by (cases rest) (simp_all add: read_hex_piece.simps)
next
  case (Cons c s)
  then have "parse_ascii_hex_digit (cp c) = Done (digit_value c)"
    by (auto simp: parse_ascii_hex_digit_def parse_ascii_digit_def digit_value_def char_class)
  with Cons show ?case by (simp add: read_hex_piece.simps)
qed

lemma read_hex_piece_serialized:
  assumes "p < 65536" "rest = [] \<or> \<not> is_ascii_hex_digit (hd rest)"
  shows "read_hex_piece 0 0 (map cp (hex_piece p) @ rest) = Done (p, length (hex_piece p), rest)"
  using read_hex_piece_digits [of "hex_piece p" 0 rest 0] assms hex_piece_digits
    length_convert_unsigned_le [of 16 p 4 False] convert_unsigned_value [of 16 p False]
  by (simp add: radix_value_def)

lemma hex_piece_cons:
  obtains c cs where "map cp (hex_piece p) = c # cs" "c \<noteq> cp CHR '':''"
proof (cases "hex_piece p")
  case (Cons c cs)
  with hex_piece_digits [of c p] that show thesis by (auto simp: char_class)
qed simp

lemma parse_ipv6_piece_separated:
  assumes "p < 65536" "length pre < 8" "rest \<noteq> []"
  shows "parse_ipv6_loop (pre @ 0 # zs) (length pre) compress
      (map cp (hex_piece p) @ cp CHR '':'' # rest)
    = parse_ipv6_loop (pre @ p # zs) (Suc (length pre)) compress rest"
proof -
  obtain c cs where *: "map cp (hex_piece p) = c # cs" "c \<noteq> cp CHR '':''"
    by (rule hex_piece_cons)
  have "read_hex_piece 0 0 (c # cs @ cp CHR '':'' # rest)
      = Done (p, length (hex_piece p), cp CHR '':'' # rest)"
    using read_hex_piece_serialized [OF assms(1), of "cp CHR '':'' # rest"] *
    by (simp add: char_class)
  with * assms show ?thesis
    by (simp add: parse_ipv6_loop.simps(2) store_u16_def)
qed

lemma parse_ipv6_piece_last:
  assumes "p < 65536" "length pre < 8"
  shows "parse_ipv6_loop (pre @ 0 # zs) (length pre) compress (map cp (hex_piece p))
    = Done (Some (pre @ p # zs, Suc (length pre), compress))"
proof -
  obtain c cs where *: "map cp (hex_piece p) = c # cs" "c \<noteq> cp CHR '':''"
    by (rule hex_piece_cons)
  have "read_hex_piece 0 0 (c # cs) = Done (p, length (hex_piece p), [])"
    using read_hex_piece_serialized [OF assms(1), of "[]"] * by simp
  with * assms show ?thesis
    by (simp add: parse_ipv6_loop.simps(2) store_u16_def)
qed

fun join_pieces :: "nat list \<Rightarrow> byte_string" where
  "join_pieces [] = []"
| "join_pieces [p] = hex_piece p"
| "join_pieces (p # q # ps) = hex_piece p @ '':'' @ join_pieces (q # ps)"

lemma join_pieces_nonempty [simp]: "join_pieces (p # ps) \<noteq> []"
  by (cases ps) auto

lemma parse_ipv6_joined:
  assumes "list_all (\<lambda>p. p < 65536) ps" "length pre + n = 8" "length ps \<le> n"
  shows "parse_ipv6_loop (pre @ replicate n 0) (length pre) compress (map cp (join_pieces ps))
    = Done (Some (pre @ ps @ replicate (n - length ps) 0, length pre + length ps, compress))"
  using assms
proof (induction ps arbitrary: pre n rule: join_pieces.induct)
  case (2 p)
  then show ?case
    using parse_ipv6_piece_last [of p pre "replicate (n - 1) 0"] by (cases n) simp_all
next
  case (3 p q ps)
  then obtain m where n: "n = Suc m" by (cases n) auto
  with 3 parse_ipv6_piece_separated [of p pre "map cp (join_pieces (q # ps))" "replicate m 0" compress]
    "3.IH" [of "pre @ [p]" m]
  show ?case by simp
qed simp

lemma parse_ipv6_prefix:
  assumes "list_all (\<lambda>p. p < 65536) ps" "length pre + n = 8" "length ps < n" "rest \<noteq> []"
  shows "parse_ipv6_loop (pre @ replicate n 0) (length pre) compress
      (map cp (concat (map (\<lambda>p. hex_piece p @ '':'') ps)) @ rest)
    = parse_ipv6_loop (pre @ ps @ replicate (n - length ps) 0) (length pre + length ps) compress rest"
  using assms(1-3)
proof (induction ps arbitrary: pre n)
  case (Cons p ps)
  then obtain m where n: "n = Suc m" by (cases n) auto
  let ?rest = "map cp (concat (map (\<lambda>p. hex_piece p @ '':'') ps)) @ rest"
  have "?rest \<noteq> []" using assms(4) by simp
  with n Cons.prems parse_ipv6_piece_separated [of p pre ?rest "replicate m 0" compress]
    Cons.IH [of "pre @ [p]" m]
  show ?case by simp
qed simp

lemma swap_ends:
  "(X @ t # Y @ u # S)[length X + Suc (length Y) := t, length X := u] = X @ u # Y @ t # S"
  "(X @ t # Y @ u # S) ! (length X + Suc (length Y)) = u"
  by (simp_all add: list_update_append nth_append)

lemma ipv6_swap_loop_moves:
  assumes "0 < z" "A \<noteq> []"
  shows "ipv6_swap_loop (A @ T @ replicate z 0 @ S) (length A) (length A + length T + z - 1) (length T)
    = A @ replicate z 0 @ T @ S"
proof (induction T arbitrary: S rule: rev_induct)
  case Nil
  then show ?case by (cases "length A + z - 1") simp_all
next
  case (snoc t T)
  obtain y where z: "z = Suc y" using assms(1) by (cases z) auto
  have zs: "replicate z 0 = replicate y (0::nat) @ [0]"
    by (simp add: z replicate_append_same)
  have "ipv6_swap_loop (A @ (T @ [t]) @ replicate z 0 @ S) (length A) (length A + length (T @ [t]) + z - 1)
      (length (T @ [t]))
    = ipv6_swap_loop (A @ T @ replicate z 0 @ t # S) (length A) (length A + length T + z - 1) (length T)"
    using swap_ends [of "A @ T" t "replicate y 0" 0 S] nth_append_length [of "A @ T" t]
    by (simp add: zs) (simp add: z replicate_app_Cons_same)
  with snoc.IH [of "t # S"] show ?case by simp
qed

text \<open>Where the serializer compresses: the first longest run of at least two zero pieces.\<close>

definition zero_run :: "nat list \<Rightarrow> nat \<Rightarrow> nat" where
  "zero_run ps i = length (takeWhile (\<lambda>p. p = 0) (drop i ps))"

definition longest_zero_run :: "nat list \<Rightarrow> nat option \<Rightarrow> nat \<Rightarrow> bool" where
  "longest_zero_run ps index len \<longleftrightarrow>
     (case index of
        None \<Rightarrow> len = 1 \<and> (\<forall>i<length ps. zero_run ps i \<le> 1)
      | Some k \<Rightarrow> k < length ps \<and> zero_run ps k = len \<and> 2 \<le> len
          \<and> (\<forall>i<length ps. zero_run ps i \<le> len) \<and> (\<forall>i<k. zero_run ps i < len))"

lemma zero_run_completed:
  assumes "i < length R" "last R \<noteq> 0"
  shows "zero_run (R @ S) i = zero_run R i"
proof -
  have "last R \<in> set (drop i R)"
    using assms(1) last_in_set [of "drop i R"] by simp
  with assms show ?thesis
    by (simp add: zero_run_def takeWhile_append1 [of "last R"])
qed

lemma zero_run_zeros:
  assumes "length R \<le> i" "i < length R + n" "S = [] \<or> hd S \<noteq> 0"
  shows "zero_run (R @ replicate n 0 @ S) i = length R + n - i"
proof -
  have "drop i (R @ replicate n 0 @ S) = replicate (length R + n - i) 0 @ S"
    using assms by simp
  then show ?thesis
    using assms(3) by (cases S) (simp_all add: zero_run_def takeWhile_append)
qed

lemma longest_zero_run_step:
  assumes "longest_zero_run R index len" "R = [] \<or> last R \<noteq> 0" "S = [] \<or> S = [p] \<and> p \<noteq> 0"
  shows "longest_zero_run (R @ replicate n 0 @ S)
    (if n > len then Some (length R) else index) (if n > len then n else len)"
proof -
  let ?ps = "R @ replicate n 0 @ S"
  have before: "zero_run ?ps i = zero_run R i" if "i < length R" for i
    using zero_run_completed [of i R] assms(2) that by auto
  have within: "zero_run ?ps i = length R + n - i" if "length R \<le> i" "i < length R + n" for i
    using zero_run_zeros [OF that, of S] assms(3) by auto
  have after: "zero_run ?ps i = 0" if "length R + n \<le> i" "i < length ?ps" for i
    using that assms(3) by (auto simp: zero_run_def)
  have "zero_run ?ps i \<le> (if i < length R then zero_run R i else n)" if "i < length ?ps" for i
    using before [of i] within [of i] after [of i] that by (cases "i < length R"; cases "i < length R + n") auto
  moreover have "1 \<le> len" using assms(1) by (auto simp: longest_zero_run_def split: option.splits)
  ultimately show ?thesis
    using assms(1) before within [of "length R"]
    by (fastforce simp: longest_zero_run_def split: option.splits if_splits)
qed

lemma compressed_piece_loop_longest:
  assumes "longest_zero_run R index len" "R = [] \<or> last R \<noteq> 0"
  shows "\<exists>len'. longest_zero_run (R @ replicate n 0 @ pieces)
    (compressed_piece_loop pieces (length R + n) index len (if n = 0 then None else Some (length R)) n) len'"
  using assms
proof (induction pieces arbitrary: R n index len)
  case Nil
  then show ?case
    using longest_zero_run_step [OF Nil, of "[]" 0 n] by (auto split: if_splits)
next
  case (Cons p pieces)
  show ?case
  proof (cases "p = 0")
    case True
    with Cons.IH [OF Cons.prems, of "Suc n"] show ?thesis
      by (cases "n = 0") (simp_all add: replicate_app_Cons_same)
  next
    case False
    with Cons.IH [OF longest_zero_run_step [OF Cons.prems, of "[p]" p n], of 0]
    show ?thesis by (auto split: if_splits)
  qed
qed

lemma compressed_piece_index_longest:
  "\<exists>len. longest_zero_run address (find_the_ipv6_address_compressed_piece_index address) len"
  using compressed_piece_loop_longest [of "[]" None 1 0 address]
  by (simp add: find_the_ipv6_address_compressed_piece_index_def longest_zero_run_def)

lemma compressed_piece_decomposition:
  assumes "find_the_ipv6_address_compressed_piece_index address = Some k"
  obtains P r Q where "address = P @ replicate r 0 @ Q" "length P = k" "2 \<le> r" "Q = [] \<or> hd Q \<noteq> 0"
proof -
  obtain len where "longest_zero_run address (Some k) len"
    using compressed_piece_index_longest [of address] assms by auto
  then have k: "k < length address" "2 \<le> zero_run address k"
    by (auto simp: longest_zero_run_def)
  let ?r = "zero_run address k" and ?Q = "dropWhile (\<lambda>p. p = 0) (drop k address)"
  have "takeWhile (\<lambda>p. p = 0) (drop k address) = replicate ?r 0"
    unfolding zero_run_def
    by (rule replicate_eqI) (auto dest: set_takeWhileD)
  then have "address = take k address @ replicate ?r 0 @ ?Q"
    using takeWhile_dropWhile_id [of "\<lambda>p. p = 0" "drop k address"] append_take_drop_id [of k address]
    by simp
  moreover have "?Q = [] \<or> hd ?Q \<noteq> 0"
    using hd_dropWhile [of "\<lambda>p. p = 0" "drop k address"] by blast
  ultimately show thesis
    using that [of "take k address" ?r ?Q] k by simp
qed

lemma serialize_ipv6_joined:
  assumes "case compress of None \<Rightarrow> True | Some k \<Rightarrow> k < i" "i + length Q = 8"
  shows "serialize_ipv6_loop compress i False Q = join_pieces Q"
  using assms
  by (induction Q arbitrary: i rule: join_pieces.induct) (auto split: option.splits)

lemma serialize_ipv6_skips:
  assumes "k < i" "Q = [] \<or> hd Q \<noteq> 0"
  shows "serialize_ipv6_loop (Some k) i True (replicate n 0 @ Q) = serialize_ipv6_loop (Some k) (i + n) False Q"
  using assms by (induction n arbitrary: i) (cases Q; simp)+

lemma serialize_ipv6_prefix:
  assumes "i + length P \<le> k" "k < 8"
  shows "serialize_ipv6_loop (Some k) i False (P @ rest) =
    concat (map (\<lambda>p. hex_piece p @ '':'') P) @ serialize_ipv6_loop (Some k) (i + length P) False rest"
  using assms by (induction P arbitrary: i) auto

lemma serialize_ipv6_compressed:
  assumes "length P + r + length Q = 8" "2 \<le> r" "Q = [] \<or> hd Q \<noteq> 0"
  shows "serialize_ipv6_loop (Some (length P)) 0 False (P @ replicate r 0 @ Q) =
    concat (map (\<lambda>p. hex_piece p @ '':'') P) @ (if P = [] then ''::'' else '':'') @ join_pieces Q"
proof -
  obtain r' where r: "r = Suc r'" using assms(2) by (cases r) auto
  show ?thesis
    using assms serialize_ipv6_prefix [of 0 P "length P" "replicate r 0 @ Q"]
      serialize_ipv6_skips [of "length P" "Suc (length P)" Q r']
      serialize_ipv6_joined [where compress = "Some (length P)" and Q = Q]
    by (simp add: r)
qed

text \<open>The whole parser on the two shapes of text the serializer gives.\<close>

definition ipv6_ok :: "nat list \<Rightarrow> bool" where
  "ipv6_ok address \<longleftrightarrow> length address = 8 \<and> list_all (\<lambda>p. p < 65536) address"

definition ipv6_text :: "byte_string \<Rightarrow> bool" where
  "ipv6_text s \<longleftrightarrow> list_all (\<lambda>c. is_ascii_hex_digit (cp c) \<or> c = CHR '':'') s"

lemma ipv6_text_simps [simp]:
  "ipv6_text []" "ipv6_text (c # s) \<longleftrightarrow> (is_ascii_hex_digit (cp c) \<or> c = CHR '':'') \<and> ipv6_text s"
  "ipv6_text (s @ t) \<longleftrightarrow> ipv6_text s \<and> ipv6_text t"
  by (simp_all add: ipv6_text_def)

lemma ipv6_text_hex_piece [simp]: "ipv6_text (hex_piece p)"
  using hex_piece_digits by (auto simp: ipv6_text_def list_all_iff)

lemma ipv6_text_joined: "ipv6_text (join_pieces ps)"
  by (induction ps rule: join_pieces.induct) auto

lemma ipv6_text_prefix: "ipv6_text (concat (map (\<lambda>p. hex_piece p @ '':'') ps))"
  by (induction ps) auto

lemma ipv6_text_serialized: "ipv6_text (serialize_ipv6_loop compress i ignore0 ps)"
  by (induction compress i ignore0 ps rule: serialize_ipv6_loop.induct) auto

lemma ipv6_text_code_points: "ipv6_text s \<Longrightarrow> code_points s = map cp s"
  by (rule ascii_code_points) (auto simp: ipv6_text_def list_all_iff char_class)

lemma parse_ipv6_uncompressed:
  assumes "ipv6_ok address"
  shows "parse_ipv6_loop (replicate 8 0) 0 None (map cp (join_pieces address)) = Done (Some (address, 8, None))"
  using parse_ipv6_joined [of address "[]" 8 None] assms by (simp add: ipv6_ok_def)

lemma parse_ipv6_compressed_tail:
  assumes "length P + r + length Q = 8" "2 \<le> r" "list_all (\<lambda>p. p < 65536) Q"
  shows "parse_ipv6_loop (P @ replicate (8 - length P) 0) (Suc (length P)) (Some (Suc (length P)))
      (map cp (join_pieces Q))
    = Done (Some ((P @ [0]) @ Q @ replicate (r - 1) 0, Suc (length P) + length Q, Some (Suc (length P))))"
proof -
  have "8 - length P = Suc (7 - length P)" using assms(1,2) by simp
  moreover have "7 - length P - length Q = r - 1" using assms(1,2) by simp
  ultimately show ?thesis
    using parse_ipv6_joined [of Q "P @ [0]" "7 - length P" "Some (Suc (length P))"] assms by simp
qed

lemma ipv6_swap_compressed:
  assumes "length P + r + length Q = 8" "2 \<le> r"
  shows "ipv6_swap_loop ((P @ [0]) @ Q @ replicate (r - 1) 0) (Suc (length P)) 7 (length Q)
    = P @ replicate r 0 @ Q"
proof -
  have "length (P @ [0]) + length Q + (r - 1) - 1 = 7" using assms by simp
  moreover have "0 # replicate (r - 1) 0 = replicate r (0::nat)" using assms by (cases r) simp_all
  ultimately show ?thesis
    using ipv6_swap_loop_moves [of "r - 1" "P @ [0]" Q "[]"] assms by simp
qed

lemma parse_ipv6_compressed:
  assumes "length P + r + length Q = 8" "2 \<le> r" "list_all (\<lambda>p. p < 65536) (P @ Q)"
  shows "parse_ipv6_address
      (concat (map (\<lambda>p. hex_piece p @ '':'') P) @ (if P = [] then ''::'' else '':'') @ join_pieces Q)
    = Done (Some (P @ replicate r 0 @ Q))"
proof (cases P)
  case Nil
  with assms parse_ipv6_compressed_tail [of P r Q] ipv6_swap_compressed [of P r Q]
  show ?thesis
    by (simp add: parse_ipv6_address_def ipv6_text_code_points ipv6_text_joined)
next
  case (Cons p ps)
  let ?rest = "cp CHR '':'' # map cp (join_pieces Q)"
  obtain c cs where c: "map cp (concat (map (\<lambda>p. hex_piece p @ '':'') P)) = c # cs" "c \<noteq> cp CHR '':''"
    by (rule hex_piece_cons [of p]) (auto intro: that simp: Cons)
  have "parse_ipv6_loop (replicate 8 0) 0 None (c # cs @ ?rest)
      = parse_ipv6_loop (P @ replicate (8 - length P) 0) (Suc (length P)) (Some (Suc (length P)))
          (map cp (join_pieces Q))"
    using parse_ipv6_prefix [of P "[]" 8 ?rest None] assms c by (simp add: parse_ipv6_loop.simps(2))
  moreover have "code_points (concat (map (\<lambda>p. hex_piece p @ '':'') P) @ '':'' @ join_pieces Q) = c # cs @ ?rest"
    using c by (simp add: ipv6_text_code_points ipv6_text_joined ipv6_text_prefix)
  ultimately show ?thesis
    using assms c Cons parse_ipv6_compressed_tail [of P r Q] ipv6_swap_compressed [of P r Q]
    by (simp add: parse_ipv6_address_def)
qed

lemma parse_serialize_ipv6:
  assumes "ipv6_ok address"
  shows "parse_ipv6_address (serialize_ipv6_address address) = Done (Some address)"
proof (cases "find_the_ipv6_address_compressed_piece_index address")
  case None
  obtain p ps where address: "address = p # ps" using assms by (cases address) (auto simp: ipv6_ok_def)
  obtain c cs where c: "map cp (join_pieces address) = c # cs" "c \<noteq> cp CHR '':''"
    by (rule hex_piece_cons [of p], cases ps) (auto intro: that simp: address)
  have "serialize_ipv6_address address = join_pieces address"
    using None assms serialize_ipv6_joined [where compress = None and i = 0 and Q = address]
    by (simp add: serialize_ipv6_address_def ipv6_ok_def)
  with c parse_ipv6_uncompressed [OF assms] show ?thesis
    by (simp add: parse_ipv6_address_def ipv6_text_code_points ipv6_text_joined)
next
  case (Some k)
  then obtain P r Q where "address = P @ replicate r 0 @ Q" "length P = k" "2 \<le> r" "Q = [] \<or> hd Q \<noteq> 0"
    by (rule compressed_piece_decomposition)
  with Some assms serialize_ipv6_compressed [of P r Q] parse_ipv6_compressed [of P r Q] show ?thesis
    by (simp add: serialize_ipv6_address_def ipv6_ok_def)
qed

subsection \<open>IPv6: the parser never fails a VERIFY, and its results are addresses\<close>

lemma read_hex_piece_total: "\<exists>v n rest. read_hex_piece val len cs = Done (v, n, rest)"
proof (induction cs arbitrary: val len)
  case (Cons c cs)
  then show ?case
    using parse_ascii_hex_digit_total [of c] by (auto simp: read_hex_piece.simps(2))
qed simp

lemma read_ipv4_piece_total:
  "read_ipv4_piece piece cs \<noteq> Verify_failed"
proof (induction cs arbitrary: piece)
  case (Cons c cs)
  then show ?case
    using parse_ascii_digit_total [of c] by (auto simp: read_ipv4_piece.simps(2) split: option.splits if_splits)
qed simp

lemma read_ipv4_piece_byte:
  assumes "read_ipv4_piece piece cs = Done (Some (r, rest))" "\<forall>p. piece = Some p \<longrightarrow> p < 256"
  shows "(\<forall>p. r = Some p \<longrightarrow> p < 256) \<and> (piece \<noteq> None \<longrightarrow> r \<noteq> None)"
  using assms
proof (induction cs arbitrary: piece)
  case (Cons c cs)
  then show ?case
    by (fastforce simp: read_ipv4_piece.simps(2) split: if_splits option.splits exec.splits)
qed simp

lemma read_ipv4_piece_first_digit:
  assumes "read_ipv4_piece None (d # ds) = Done (Some (r, rest))" "is_ascii_digit d"
  shows "\<exists>p<256. r = Some p"
proof -
  obtain n where "parse_ascii_digit d = Done n" "n < 10" "read_ipv4_piece (Some n) ds = Done (Some (r, rest))"
    using assms parse_ascii_digit_total [of d] by (auto simp: read_ipv4_piece.simps(2) split: if_splits)
  with read_ipv4_piece_byte [of "Some n" ds r rest] show ?thesis by auto
qed

lemma ipv4_separator_bound:
  "ipv4_separator k cs = Some (d # ds) \<Longrightarrow> k < 4"
  by (auto simp: ipv4_separator_def split: if_splits list.splits)

lemma store_u16_ok:
  "\<lbrakk> ipv6_ok address; i < 8 \<rbrakk> \<Longrightarrow> \<exists>address'. store_u16 address i v = Done address' \<and> ipv6_ok address'"
  by (auto simp: store_u16_def ipv6_ok_def list_all_iff dest!: set_update_subset_insert [THEN subsetD])

lemma suc_div_2:
  "k < 4 \<Longrightarrow> (if Suc k = 2 \<or> Suc k = 4 then Suc (k div 2) else k div 2) = Suc k div 2"
  by (auto simp: less_Suc_eq numeral_eq_Suc) presburger+

lemma ipv4_in_ipv6_loop_ok:
  assumes "ipv6_ok address" "piece_index = p0 + k div 2" "p0 \<le> 6" "k \<le> 4"
  shows "case ipv4_in_ipv6_loop address piece_index k cs of
      Verify_failed \<Rightarrow> False
    | Done None \<Rightarrow> True
    | Done (Some (address', piece_index', k')) \<Rightarrow> ipv6_ok address' \<and> piece_index' = p0 + k' div 2 \<and> k' \<le> 4"
  using assms
proof (induction address piece_index k cs rule: ipv4_in_ipv6_loop.induct)
  case (1 address piece_index k cs)
  note IH = "1.IH" and ok = "1.prems"
  show ?case
  proof (cases "cs = [] \<or> (\<forall>d ds. ipv4_separator k cs = Some (d # ds) \<longrightarrow> \<not> is_ascii_digit d)")
    case True
    with ok show ?thesis
      by (subst ipv4_in_ipv6_loop.simps) (auto split: option.splits list.splits)
  next
    case False
    then obtain d ds where d: "cs \<noteq> []" "ipv4_separator k cs = Some (d # ds)" "is_ascii_digit d" by blast
    show ?thesis
    proof (cases "read_ipv4_piece None (d # ds)")
      case (Done result)
      show ?thesis
      proof (cases result)
        case None
        with d Done show ?thesis by (subst ipv4_in_ipv6_loop.simps) simp
      next
        case (Some pr)
        then obtain p rest where pr: "pr = (Some p, rest)" "p < 256"
          using Done d(3) read_ipv4_piece_first_digit [of d ds] by (cases pr) auto
        have k: "k < 4" using ipv4_separator_bound [OF d(2)] .
        then have i: "piece_index < 8" using ok by auto
        obtain address' where a: "store_u16 address piece_index (address ! piece_index * 0x100 + p) = Done address'"
          "ipv6_ok address'" using store_u16_ok [OF ok(1) i] by blast
        have "(if Suc k = 2 \<or> Suc k = 4 then Suc piece_index else piece_index) = p0 + Suc k div 2"
          using suc_div_2 [OF k] ok(2) by (auto split: if_splits)
        with IH [OF d(1,2) refl _ Done Some [unfolded pr] refl refl a(1)] d a ok k Done Some pr
        show ?thesis by (subst ipv4_in_ipv6_loop.simps) simp
      qed
    qed (use read_ipv4_piece_total in simp)
  qed
qed

lemma parse_ipv6_loop_ok:
  assumes "ipv6_ok address" "piece_index \<le> 8" "\<forall>c. compress = Some c \<longrightarrow> 0 < c \<and> c \<le> piece_index"
  shows "case parse_ipv6_loop address piece_index compress cs of
      Verify_failed \<Rightarrow> False
    | Done None \<Rightarrow> True
    | Done (Some (address', piece_index', compress')) \<Rightarrow> ipv6_ok address' \<and> piece_index' \<le> 8
        \<and> (\<forall>c. compress' = Some c \<longrightarrow> 0 < c \<and> c \<le> piece_index')"
  using assms
proof (induction address piece_index compress cs rule: parse_ipv6_loop.induct)
  case (2 address piece_index compress c cs)
  note IH = "2.IH" and ok = "2.prems"
  consider (stop) "piece_index = 8 \<or> c = cp CHR '':'' \<and> compress \<noteq> None"
    | (colon) "piece_index < 8" "c = cp CHR '':''" "compress = None"
    | (piece) "piece_index < 8" "c \<noteq> cp CHR '':''"
    using ok(2) by linarith
  then show ?case
  proof cases
    case stop
    then show ?thesis by (auto simp: parse_ipv6_loop.simps(2))
  next
    case colon
    with IH(1) ok show ?thesis by (simp add: parse_ipv6_loop.simps(2))
  next
    case piece
    obtain v n rest where r: "read_hex_piece 0 0 (c # cs) = Done (v, n, rest)"
      using read_hex_piece_total by blast
    obtain address' where a: "store_u16 address piece_index v = Done address'" "ipv6_ok address'"
      using store_u16_ok [OF ok(1) piece(1)] by blast
    have up: "\<forall>c. compress = Some c \<longrightarrow> 0 < c \<and> c \<le> Suc piece_index" using ok(3) by auto
    show ?thesis
    proof (cases rest)
      case Nil
      with piece r a up ok show ?thesis by (simp add: parse_ipv6_loop.simps(2))
    next
      case (Cons d ds)
      show ?thesis
      proof (cases "d = cp CHR ''.'' \<and> n \<noteq> 0 \<and> piece_index \<le> 6")
        case True
        with piece r Cons ok ipv4_in_ipv6_loop_ok [OF ok(1), of piece_index piece_index 0 "c # cs"]
        show ?thesis
          by (auto simp: parse_ipv6_loop.simps(2) split: exec.splits option.splits)
      next
        case False
        with piece r Cons a up IH(3) [OF _ _ r refl refl Cons _ _ _ a(1)]
        show ?thesis
          by (auto simp: parse_ipv6_loop.simps(2))
      qed
    qed
  qed
qed simp

lemma ipv6_swap_loop_ok:
  "\<lbrakk> ipv6_ok address; i < 8; compress + swaps \<le> 8 \<rbrakk> \<Longrightarrow> ipv6_ok (ipv6_swap_loop address compress i swaps)"
proof (induction address compress i swaps rule: ipv6_swap_loop.induct)
  case (3 address compress i swaps)
  then have "ipv6_ok (address[Suc i := address ! (compress + swaps), compress + swaps := address ! Suc i])"
    by (auto simp: ipv6_ok_def list_all_length nth_list_update)
  with 3 show ?case by simp
qed simp_all

lemma ipv6_ok_zero: "ipv6_ok (replicate 8 0)"
  by (simp add: ipv6_ok_def list_all_iff)

lemma finish_ipv6_address_ok:
  assumes "0 < piece_index \<or> compress = None" "piece_index \<le> 8" "\<forall>c. compress = Some c \<longrightarrow> 0 < c \<and> c \<le> piece_index"
  shows "case finish_ipv6_address (parse_ipv6_loop (replicate 8 0) piece_index compress cs) of
    Verify_failed \<Rightarrow> False | Done None \<Rightarrow> True | Done (Some address) \<Rightarrow> ipv6_ok address"
  using parse_ipv6_loop_ok [OF ipv6_ok_zero assms(2,3), of cs]
  by (auto split: exec.splits option.splits if_splits elim!: finish_ipv6_address.elims intro!: ipv6_swap_loop_ok)

lemma parse_ipv6_address_ok:
  "case parse_ipv6_address input of
    Verify_failed \<Rightarrow> False | Done None \<Rightarrow> True | Done (Some address) \<Rightarrow> ipv6_ok address"
  unfolding parse_ipv6_address_def
  using finish_ipv6_address_ok [of 1 "Some 1"] finish_ipv6_address_ok [of 0 None]
  by (auto split: list.splits)

subsection \<open>IPv4: the parser inverts the serializer\<close>

abbreviation dec_piece :: "nat \<Rightarrow> byte_string" where
  "dec_piece p \<equiv> convert_unsigned_to_string p 10 False"

lemma dec_piece_digit: "c \<in> set (dec_piece p) \<Longrightarrow> is_ascii_digit (cp c)"
  using convert_unsigned_digit(3) [of 10 c p False] by simp

lemma dec_piece_no_dot: "CHR ''.'' \<notin> set (dec_piece p)"
  using dec_piece_digit [of "CHR ''.''" p] by (auto simp: char_class)

lemma ipv4_octets_eq:
  "ipv4_octets 0 a [0, 0, 0, 0] =
    [a div 256 div 256 div 256 mod 256, a div 256 div 256 mod 256, a div 256 mod 256, a mod 256]"
  by (simp add: ipv4_octets.simps)

lemma serialize_ipv4_parts:
  "serialize_ipv4_address a = dec_piece (a div 256 div 256 div 256 mod 256) @ CHR ''.'' #
     dec_piece (a div 256 div 256 mod 256) @ CHR ''.'' #
     dec_piece (a div 256 mod 256) @ CHR ''.'' # dec_piece (a mod 256)"
  by (simp add: serialize_ipv4_address_def ipv4_octets_eq)

lemma parse_ipv4_number_dec:
  assumes "fast_float_ok ext" "p < 2 ^ 32"
  shows "parse_ipv4_number ext (dec_piece p) = Some (p, False)"
proof -
  have hd: "hd (dec_piece p) = CHR ''0'' \<longrightarrow> dec_piece p = ''0''"
    using convert_unsigned_no_leading_zero [of 10 p False]
    by (cases "p = 0") (auto simp: convert_unsigned_to_string_def)
  have "\<not> (length (dec_piece p) \<ge> 2 \<and> dec_piece p ! 0 = CHR ''0'')"
    using hd by (auto simp: hd_conv_nth)
  moreover have "\<not> (length (dec_piece p) \<ge> 2 \<and> (starts_with (dec_piece p) ''0X'' \<or> starts_with (dec_piece p) ''0x''))"
    using hd by (cases "dec_piece p") (auto simp: starts_with_def split: if_splits)
  moreover have "list_all (\<lambda>c. is_ascii_digit (cp c)) (dec_piece p)"
    using dec_piece_digit by (auto simp: list_all_iff)
  moreover have "parse_number ext 32 (dec_piece p) 10 = Some p"
    using assms convert_unsigned_digit(1) [of 10 _ p False] convert_unsigned_value [of 10 p False]
    by (subst parse_number_digits) (auto simp: list_all_iff)
  ultimately show ?thesis
    by (auto simp: parse_ipv4_number_def)
qed

lemma combine_octets:
  fixes a :: nat
  assumes "a = q1 * 256 + r0" "q1 = q2 * 256 + r1" "q2 = q3 * 256 + r2"
  shows "r0 + q3 * 16777216 + r2 * 65536 + r1 * 256 = a"
  using assms by simp

lemma octets_sum:
  fixes a :: nat
  assumes "a < 2 ^ 32"
  shows "a mod 256 + a div 256 div 256 div 256 mod 256 * 16777216 + a div 256 div 256 mod 256 * 65536
    + a div 256 mod 256 * 256 = a"
proof -
  have "a div 256 div 256 div 256 < 256"
    using assms by (simp add: div_mult2_eq [symmetric] less_mult_imp_div_less)
  then have "a div 256 div 256 div 256 mod 256 = a div 256 div 256 div 256" by (rule mod_less)
  then show ?thesis
    by (rule ssubst)
      (rule combine_octets [OF div_mult_mod_eq [of a 256, symmetric]
        div_mult_mod_eq [of "a div 256" 256, symmetric] div_mult_mod_eq [of "a div 256 div 256" 256, symmetric]])
qed

lemma parse_serialize_ipv4:
  assumes "fast_float_ok ext" "a < 2 ^ 32"
  shows "parse_ipv4_address ext (serialize_ipv4_address a) = Done (Some a)"
proof -
  define b0 b1 b2 b3 where b: "b0 = a div 256 div 256 div 256 mod 256" "b1 = a div 256 div 256 mod 256"
    "b2 = a div 256 mod 256" "b3 = a mod 256"
  have bounds: "b0 < 256" "b1 < 256" "b2 < 256" "b3 < 256" by (simp_all add: b)
  have sum: "b3 + b0 * 16777216 + b1 * 65536 + b2 * 256 = a"
    using octets_sum [OF assms(2)] by (simp add: b)
  have "split_view (serialize_ipv4_address a) CHR ''.'' True = [dec_piece b0, dec_piece b1, dec_piece b2, dec_piece b3]"
    by (simp add: serialize_ipv4_parts b [symmetric] split_view_def split_parts_append split_parts_plain dec_piece_no_dot)
  moreover have "parse_ipv4_number ext (dec_piece x) = Some (x, False)" if "x < 256" for x
    using parse_ipv4_number_dec [OF assms(1), of x] that by simp
  ultimately show ?thesis
    using bounds sum assms(2) by (simp add: parse_ipv4_address_def Let_def)
qed

subsection \<open>IPv4: bounds\<close>

lemma parse_ipv4_parts_length: "parse_ipv4_parts ext parts = Some ns \<Longrightarrow> length ns = length parts"
  by (induction parts arbitrary: ns) (auto split: option.splits)

lemma sum_ipv4_numbers_exact:
  assumes "length ns \<le> 3" "\<forall>n\<in>set ns. n \<le> 255" "v < 256 ^ (4 - length ns)"
  shows "sum_ipv4_numbers v 0 ns = v + (\<Sum>i<length ns. ns ! i * 256 ^ (3 - i)) \<and> sum_ipv4_numbers v 0 ns < 2 ^ 32"
proof -
  consider "ns = []" | a where "ns = [a]" | a b where "ns = [a, b]" | a b c where "ns = [a, b, c]"
    using assms(1) by (auto simp: numeral_eq_Suc le_Suc_eq length_Suc_conv)
  then show ?thesis
    using assms(2,3) by cases simp_all
qed

lemma parse_ipv4_address_total: "input \<noteq> [] \<Longrightarrow> parse_ipv4_address ext input \<noteq> Verify_failed"
  by (auto simp: parse_ipv4_address_def Let_def split_view_nonempty split: option.splits)

lemma parse_ipv4_address_sum:
  assumes "parse_ipv4_address ext input = Done (Some a)"
  shows "\<exists>ns n. length ns \<le> 3 \<and> a = n + (\<Sum>i<length ns. ns ! i * 256 ^ (3 - i)) \<and> a < 2 ^ 32
    \<and> (\<exists>parts. parse_ipv4_parts ext parts = Some (ns @ [n]) \<and> prefix parts (split_view input CHR ''.'' True))"
proof -
  define parts where "parts = split_view input CHR ''.'' True"
  define parts' where "parts' = (if last parts = [] \<and> length parts > 1 then butlast parts else parts)"
  have run: "(if parts = [] then Verify_failed
      else if length parts' > 4 then Done None
      else case parse_ipv4_parts ext parts' of
          None \<Rightarrow> Done None
        | Some numbers \<Rightarrow>
            if list_ex (\<lambda>n. n > 255) (butlast numbers) then Done None
            else if last numbers \<ge> 256 ^ (5 - length numbers) then Done None
            else Done (Some (sum_ipv4_numbers (last numbers) 0 (butlast numbers)))) = Done (Some a)"
    using assms unfolding parse_ipv4_address_def Let_def parts_def parts'_def .
  then have parts: "parts \<noteq> []" "length parts' \<le> 4"
    by (auto split: if_splits)
  then have parts': "parts' \<noteq> []" "prefix parts' parts" "length parts' \<le> 4"
    by (cases parts rule: rev_cases; auto simp: parts'_def)+
  then obtain numbers where numbers: "parse_ipv4_parts ext parts' = Some numbers"
    "\<not> list_ex (\<lambda>n. n > 255) (butlast numbers)" "last numbers < 256 ^ (5 - length numbers)"
    "a = sum_ipv4_numbers (last numbers) 0 (butlast numbers)"
    using run by (auto simp: not_le split: if_splits option.splits)
  then have "length numbers = length parts'" by (simp add: parse_ipv4_parts_length)
  with parts'(1) obtain ns n where ns: "numbers = ns @ [n]" by (cases numbers rule: rev_cases) auto
  with numbers parts'(3) \<open>length numbers = length parts'\<close> sum_ipv4_numbers_exact [of ns n]
  have "length ns \<le> 3" "a = n + (\<Sum>i<length ns. ns ! i * 256 ^ (3 - i))" "a < 2 ^ 32"
    by (auto simp: list_ex_iff not_less)
  with ns numbers(1) parts'(2) show ?thesis
    unfolding parts_def by blast
qed

interpretation ipv6_codec: codec ipv6_ok serialize_ipv6_address parse_ipv6_address
  by unfold_locales (rule parse_serialize_ipv6)

interpretation ipv4_codec: codec "\<lambda>a. fast_float_ok ext \<and> a < 2 ^ 32" serialize_ipv4_address "parse_ipv4_address ext"
  for ext
  by unfold_locales (simp add: parse_serialize_ipv4)

subsection \<open>Properties\<close>

text \<open>C17: parsing the serialization of an IPv6 address gives the address back: for every eight 16-bit
  pieces, wherever the run of zeros that \<^verbatim>\<open>::\<close> stands for lies.\<close>

theorem parse_ipv6_address_inverts_serialize:
  assumes "ipv6_ok address"
  shows "parse_ipv6_address (serialize_ipv6_address address) = Done (Some address)"
  using assms by (rule ipv6_codec.decode_encode)

theorem parse_ipv6_address_inverts_serialize_witness:
  "parse_ipv6_address (serialize_ipv6_address [0x2001, 0xdb8, 0, 0, 1, 0, 0, 1])
     = Done (Some [0x2001, 0xdb8, 0, 0, 1, 0, 0, 1])"
  by (rule parse_ipv6_address_inverts_serialize) (simp add: ipv6_ok_def)

text \<open>C18: the IPv6 parser is total: on every byte string it returns, no digit or index
  \<^verbatim>\<open>VERIFY\<close> fails, and what it accepts is eight pieces of 16 bits.\<close>

theorem parse_ipv6_address_total:
  "\<exists>result. parse_ipv6_address input = Done result \<and> (case result of None \<Rightarrow> True | Some address \<Rightarrow> ipv6_ok address)"
  using parse_ipv6_address_ok [of input] by (auto split: exec.splits)

text \<open>C27: the piece index the serializer compresses at is the start of the first longest run of zero
  pieces, and there is one exactly when some run has at least two pieces.\<close>

theorem compressed_piece_index_is_first_longest_run:
  "case find_the_ipv6_address_compressed_piece_index address of
     None \<Rightarrow> \<not> (\<exists>i<length address. 2 \<le> zero_run address i)
   | Some k \<Rightarrow> k < length address \<and> 2 \<le> zero_run address k
       \<and> \<not> (\<exists>i<length address. zero_run address k < zero_run address i)
       \<and> \<not> (\<exists>i<k. zero_run address k \<le> zero_run address i)"
  using compressed_piece_index_longest [of address]
  by (fastforce simp: longest_zero_run_def split: option.splits)

text \<open>C28: parsing the dotted form of a 32-bit IPv4 address gives the address back.\<close>

theorem parse_ipv4_address_inverts_serialize:
  assumes "fast_float_ok ext" "a < 2 ^ 32"
  shows "parse_ipv4_address ext (serialize_ipv4_address a) = Done (Some a)"
  using assms by (intro ipv4_codec.decode_encode) simp

theorem parse_ipv4_address_inverts_serialize_witness:
  "parse_ipv4_address reference_externals (serialize_ipv4_address 3232235777) = Done (Some 3232235777)"
  by (rule parse_ipv4_address_inverts_serialize) (simp_all add: fast_float_ok_reference)



end
