(* ===== verification/URL_Host.thy ===== *)
theory URL_Host
  imports URL_Percent_Encoding URL_IP_Address
begin

text \<open>
  Hosts of URLs: \<^verbatim>\<open>Libraries/LibURL/Host.cpp\<close> (serialization, public suffix, registrable domain) and
  the host parser of \<^verbatim>\<open>Libraries/LibURL/Parser.cpp\<close>.
\<close>

datatype host = IPv4 nat | IPv6 "nat list" | Name byte_string

subsection \<open>Serialization\<close>

fun is_domain :: "host \<Rightarrow> bool" where
  "is_domain (Name s) \<longleftrightarrow> s \<noteq> []"
| "is_domain _ \<longleftrightarrow> False"

fun is_empty_host :: "host \<Rightarrow> bool" where
  "is_empty_host (Name s) \<longleftrightarrow> s = []"
| "is_empty_host _ \<longleftrightarrow> False"

fun serialize_host :: "host \<Rightarrow> byte_string" where
  "serialize_host (IPv4 address) = serialize_ipv4_address address"
| "serialize_host (IPv6 address) = ''['' @ serialize_ipv6_address address @ '']''"
| "serialize_host (Name s) = s"

subsection \<open>Public suffix and registrable domain\<close>

definition trailing_dot :: "byte_string \<Rightarrow> byte_string" where
  "trailing_dot host_string = (if ends_with_char host_string CHR ''.'' then ''.'' else [])"

fun public_suffix :: "externals \<Rightarrow> host \<Rightarrow> byte_string option exec" where
  "public_suffix ext (Name host_string) =
     (if \<not> is_domain (Name host_string) then Done None
      else
        let psl_suffix = (case get_public_suffix ext host_string of
              Some s \<Rightarrow> s
            | None \<Rightarrow> (case find_last host_string CHR ''.'' of
                Some last_dot \<Rightarrow> drop (Suc last_dot) host_string
              | None \<Rightarrow> host_string))
        in if is_ascii_string psl_suffix \<and> \<not> ends_with_char psl_suffix CHR ''.''
           then Done (Some (psl_suffix @ trailing_dot host_string)) else Verify_failed)"
| "public_suffix ext _ = Done None"

definition get_registrable_domain :: "externals \<Rightarrow> byte_string \<Rightarrow> byte_string option" where
  "get_registrable_domain ext host =
     (case get_public_suffix ext host of
        None \<Rightarrow> None
      | Some psl_suffix \<Rightarrow>
          if \<not> ends_with host psl_suffix then None
          else if host = psl_suffix then None
          else
            let subhost = trim_right (take (length host - length psl_suffix) host) ''.''
            in if subhost = [] then None
               else let start_index = (case find_last subhost CHR ''.'' of
                          Some index \<Rightarrow> Suc index | None \<Rightarrow> 0)
                    in Some (drop start_index host))"

definition registrable_domain_fallback :: "byte_string \<Rightarrow> byte_string option" where
  "registrable_domain_fallback host_string =
     (case find_last host_string CHR ''.'' of
        None \<Rightarrow> None
      | Some last_dot \<Rightarrow>
          (case find_last (take last_dot host_string) CHR ''.'' of
             None \<Rightarrow> None
           | Some second_last_dot \<Rightarrow> Some (drop (Suc second_last_dot) host_string)))"

fun registrable_domain :: "externals \<Rightarrow> host \<Rightarrow> byte_string option exec" where
  "registrable_domain ext (Name host_string) =
     (case public_suffix ext (Name host_string) of
        Verify_failed \<Rightarrow> Verify_failed
      | Done None \<Rightarrow> Done None
      | Done (Some host_suffix) \<Rightarrow>
          if host_suffix = host_string then Done None
          else
            let domain = (case get_registrable_domain ext host_string of
                  Some d \<Rightarrow> d
                | None \<Rightarrow> (case registrable_domain_fallback host_string of
                    Some d \<Rightarrow> d | None \<Rightarrow> host_string))
            in if is_ascii_string domain \<and> \<not> ends_with_char domain CHR ''.''
               then Done (Some (domain @ trailing_dot host_string)) else Verify_failed)"
| "registrable_domain ext _ = Done None"

subsection \<open>Forbidden code points and opaque hosts\<close>

definition forbidden_host_characters :: byte_string where
  "forbidden_host_characters =
     [CHR 0x00, CHR 0x09, CHR 0x0A, CHR 0x0D] @ '' #/:<>?@['' @ [CHR 0x5C] @ '']^|''"

definition is_forbidden_host_code_point :: "code_point \<Rightarrow> bool" where
  "is_forbidden_host_code_point c \<longleftrightarrow> contains_code_point forbidden_host_characters c"

definition is_forbidden_domain_code_point :: "code_point \<Rightarrow> bool" where
  "is_forbidden_domain_code_point c \<longleftrightarrow>
     is_forbidden_host_code_point c \<or> is_ascii_c0_control c \<or> c = cp CHR ''%'' \<or> c = 0x7F"

definition parse_opaque_host :: "byte_string \<Rightarrow> host option exec" where
  "parse_opaque_host input =
     (if list_ex is_forbidden_host_code_point (code_points input) then Done None
      else exec_map (\<lambda>s. Some (Name s)) (percent_encode input C0Control False))"

definition ends_in_a_number_checker :: "byte_string \<Rightarrow> bool exec" where
  "ends_in_a_number_checker input =
     (let parts = split_view input CHR ''.'' True
      in if parts = [] then Verify_failed
         else if last parts = [] \<and> length parts = 1 then Done False
         else
           let parts' = (if last parts = [] then butlast parts else parts); last_part = last parts'
           in if last_part \<noteq> [] \<and> list_all (\<lambda>c. is_ascii_digit (cp c)) last_part then Done True
              else Done (starts_with_ignoring_ascii_case last_part ''0x''
                \<and> list_all (\<lambda>c. is_ascii_hex_digit (cp c)) (drop 2 last_part)))"

subsection \<open>Domains and the host parser\<close>

definition idna_to_ascii ::
  "externals \<Rightarrow> bool \<Rightarrow> bool \<Rightarrow> bool \<Rightarrow> bool \<Rightarrow> byte_string \<Rightarrow> byte_string option" where
  "idna_to_ascii ext check_hyphens use_std3_ascii_rules verify_dns_length ignore_invalid_punycode domain_name =
     (case name_to_ascii ext use_std3_ascii_rules domain_name of
        None \<Rightarrow> None
      | Some (builder, info_errors) \<Rightarrow>
          let errors1 = (if \<not> check_hyphens
                then filter (\<lambda>e. e \<noteq> HYPHEN_3_4 \<and> e \<noteq> LEADING_HYPHEN \<and> e \<noteq> TRAILING_HYPHEN) info_errors
                else info_errors);
              errors2 = (if \<not> verify_dns_length
                then filter (\<lambda>e. e \<noteq> EMPTY_LABEL \<and> e \<noteq> LABEL_TOO_LONG \<and> e \<noteq> DOMAIN_NAME_TOO_LONG) errors1
                else errors1);
              errors3 = (if ignore_invalid_punycode then filter (\<lambda>e. e \<noteq> PUNYCODE) errors2 else errors2)
          in if errors3 \<noteq> [] then None
             else if validate_utf8 ext builder then Some builder else None)"

definition domain_to_ascii :: "externals \<Rightarrow> byte_string \<Rightarrow> bool \<Rightarrow> byte_string option exec" where
  "domain_to_ascii ext domain be_strict =
     (let slow = (case idna_to_ascii ext be_strict be_strict be_strict False domain of
            None \<Rightarrow> Done None
          | Some result \<Rightarrow> if result = [] then Done None else Done (Some result))
      in if \<not> be_strict \<and> (domain = [] \<or> validate_ascii ext domain) then
           (if domain = [] then Done None
            else if list_ex (\<lambda>part. starts_with_ignoring_ascii_case part ''xn--'')
                      (split_view domain CHR ''.'' False) then slow
            else if validate_utf8 ext domain then Done (Some (to_ascii_lowercase_string domain))
            else Verify_failed)
         else slow)"

definition parse_host :: "externals \<Rightarrow> byte_string \<Rightarrow> bool \<Rightarrow> host option exec" where
  "parse_host ext input is_opaque =
     (if starts_with_char input CHR ''['' then
        (if \<not> ends_with_char input CHR '']'' then Done None
         else exec_map (map_option IPv6) (parse_ipv6_address (butlast (tl input))))
      else if is_opaque then parse_opaque_host input
      else if input = [] then Verify_failed
      else exec_bind (percent_decode input) (\<lambda>domain.
        exec_bind (domain_to_ascii ext domain False) (\<lambda>ascii_domain_or_error.
          case ascii_domain_or_error of
            None \<Rightarrow> Done None
          | Some ascii_domain \<Rightarrow>
              if list_ex (\<lambda>c. is_forbidden_domain_code_point (cp c)) ascii_domain then Done None
              else exec_bind (ends_in_a_number_checker ascii_domain) (\<lambda>ends_in_number.
                if ends_in_number then exec_map (map_option IPv4) (parse_ipv4_address ext ascii_domain)
                else Done (Some (Name ascii_domain))))))"

subsection \<open>What is relied on of the third-party code\<close>

text \<open>
  \<open>icu_ok\<close>: the result of ICU's ToASCII, when the only errors are ones that leave the labels alone
  (\<^verbatim>\<open>UIDNA_ERROR_\<close> hyphen and length errors), is lower-case ASCII and a fixed point (UTS 46).
  \<open>psl_ok\<close>: a public suffix is not empty, is ASCII on ASCII hosts and is joined without a final dot.
\<close>

definition ignorable_idna_errors :: "idna_error set" where
  "ignorable_idna_errors =
     {EMPTY_LABEL, LABEL_TOO_LONG, DOMAIN_NAME_TOO_LONG, LEADING_HYPHEN, TRAILING_HYPHEN, HYPHEN_3_4}"

definition icu_ok :: "externals \<Rightarrow> bool" where
  "icu_ok ext \<longleftrightarrow>
     (\<forall>std3 s r es. name_to_ascii ext std3 s = Some (r, es) \<longrightarrow> set es \<subseteq> ignorable_idna_errors \<longrightarrow>
        is_ascii_string r \<and> to_ascii_lowercase_string r = r
        \<and> (\<exists>es'. name_to_ascii ext std3 r = Some (r, es') \<and> set es' \<subseteq> ignorable_idna_errors))"

definition psl_ok :: "externals \<Rightarrow> bool" where
  "psl_ok ext \<longleftrightarrow>
     (\<forall>s p. get_public_suffix ext s = Some p \<longrightarrow>
        p \<noteq> [] \<and> last p \<noteq> CHR ''.'' \<and> (is_ascii_string s \<longrightarrow> is_ascii_string p))"

subsection \<open>Forbidden code points\<close>

lemma is_forbidden_host_code_point_ascii:
  "is_forbidden_host_code_point (cp c) \<longleftrightarrow> c \<in> set forbidden_host_characters" if "is_ascii (cp c)"
proof -
  have "append_code_point [] (cp c) = [c]"
    using that code_point_to_utf8_ascii [of "cp c"] by (auto simp: append_code_point_def char_class)
  then show ?thesis
    by (simp add: is_forbidden_host_code_point_def contains_code_point_def contains_char_def list_ex_iff)
qed

lemma forbidden_domain_bracket_percent:
  "is_forbidden_domain_code_point (cp CHR ''['')" "is_forbidden_domain_code_point (cp CHR ''%'')"
  using is_forbidden_host_code_point_ascii [of "CHR ''[''"]
  by (simp_all add: is_forbidden_domain_code_point_def char_class forbidden_host_characters_def)

lemma digits_and_dots_not_forbidden:
  "is_ascii_digit (cp c) \<or> c = CHR ''.'' \<Longrightarrow> \<not> is_forbidden_domain_code_point (cp c)"
  using is_forbidden_host_code_point_ascii [of c]
  by (auto simp: is_forbidden_domain_code_point_def char_class forbidden_host_characters_def)

subsection \<open>Domain to ASCII\<close>

lemma is_ascii_string_lower: "is_ascii_string s \<Longrightarrow> is_ascii_string (to_ascii_lowercase_string s)"
  by (auto simp: is_ascii_string_def to_ascii_lowercase_string_def char_to_ascii_lowercase_def list_all_iff
    to_ascii_lowercase_def char_class)

lemma lowercase_char_idem: "char_to_ascii_lowercase (char_to_ascii_lowercase c) = char_to_ascii_lowercase c"
  by (auto simp: char_to_ascii_lowercase_def to_ascii_lowercase_def char_class)

lemma lowercase_char_code: "to_ascii_lowercase (cp (char_to_ascii_lowercase c)) = to_ascii_lowercase (cp c)"
  by (auto simp: char_to_ascii_lowercase_def to_ascii_lowercase_def char_class)

lemma lowercase_char_dot: "char_to_ascii_lowercase c = CHR ''.'' \<longleftrightarrow> c = CHR ''.''"
  using of_char_eq_iff [of c "CHR ''.''", where 'a = nat]
  by (auto simp: char_to_ascii_lowercase_def to_ascii_lowercase_def char_class char_of_eq_iff_mod)

lemma split_parts_map:
  "\<forall>c. f c = sep \<longleftrightarrow> c = sep \<Longrightarrow> split_parts sep (map f s) = map (map f) (split_parts sep s)"
  by (induction s) (auto split: list.splits)

lemma starts_with_ignoring_case_lower:
  "starts_with_ignoring_ascii_case (map char_to_ascii_lowercase s) t = starts_with_ignoring_ascii_case s t"
  by (simp add: starts_with_ignoring_ascii_case_def take_map list_all2_map1 lowercase_char_code)

lemma punycode_labels_lower:
  "list_ex (\<lambda>part. starts_with_ignoring_ascii_case part t) (split_view (to_ascii_lowercase_string s) CHR ''.'' False)
   = list_ex (\<lambda>part. starts_with_ignoring_ascii_case part t) (split_view s CHR ''.'' False)"
  using split_parts_map [of char_to_ascii_lowercase "CHR ''.''" s] lowercase_char_dot
  by (auto simp: split_view_def to_ascii_lowercase_string_def starts_with_ignoring_case_lower list_ex_iff)

lemma lowercase_string_idem:
  "to_ascii_lowercase_string (to_ascii_lowercase_string s) = to_ascii_lowercase_string s"
  by (simp add: to_ascii_lowercase_string_def lowercase_char_idem)

lemma ascii_scalar_values:
  "is_ascii_string s \<Longrightarrow> list_all is_unicode_scalar_value (map cp s)"
  by (auto simp: list_all_iff is_ascii_string_def char_class)

lemma ascii_is_utf8: "\<lbrakk> simdutf_ok ext; is_ascii_string s \<rbrakk> \<Longrightarrow> validate_utf8 ext s"
  using ascii_code_points(2) [of s] ascii_scalar_values [of s]
  by (auto simp: simdutf_ok_def is_ascii_string_def intro!: exI [of _ "map cp s"])

lemma idna_to_ascii_errors:
  assumes "idna_to_ascii ext False False False False s = Some r"
  obtains es where "name_to_ascii ext False s = Some (r, es)" "set es \<subseteq> ignorable_idna_errors"
proof -
  from assms obtain es where "name_to_ascii ext False s = Some (r, es)"
    "filter (\<lambda>e. e \<noteq> EMPTY_LABEL \<and> e \<noteq> LABEL_TOO_LONG \<and> e \<noteq> DOMAIN_NAME_TOO_LONG)
      (filter (\<lambda>e. e \<noteq> HYPHEN_3_4 \<and> e \<noteq> LEADING_HYPHEN \<and> e \<noteq> TRAILING_HYPHEN) es) = []"
    by (auto simp: idna_to_ascii_def Let_def split: option.splits if_splits)
  with that [of es] show thesis
    by (auto simp: ignorable_idna_errors_def filter_empty_conv)
qed

lemma idna_to_ascii_fixed:
  assumes "icu_ok ext" "simdutf_ok ext" "idna_to_ascii ext False False False False s = Some r"
  shows "is_ascii_string r" "to_ascii_lowercase_string r = r"
    "idna_to_ascii ext False False False False r = Some r"
proof -
  obtain es where "name_to_ascii ext False s = Some (r, es)" "set es \<subseteq> ignorable_idna_errors"
    using assms(3) by (rule idna_to_ascii_errors)
  with assms(1) obtain es' where *: "is_ascii_string r" "to_ascii_lowercase_string r = r"
    "name_to_ascii ext False r = Some (r, es')" "set es' \<subseteq> ignorable_idna_errors"
    unfolding icu_ok_def by blast
  then show "is_ascii_string r" "to_ascii_lowercase_string r = r" by auto
  have "filter (\<lambda>e. e \<noteq> EMPTY_LABEL \<and> e \<noteq> LABEL_TOO_LONG \<and> e \<noteq> DOMAIN_NAME_TOO_LONG)
      (filter (\<lambda>e. e \<noteq> HYPHEN_3_4 \<and> e \<noteq> LEADING_HYPHEN \<and> e \<noteq> TRAILING_HYPHEN) es') = []"
    using *(4) by (auto simp: filter_empty_conv ignorable_idna_errors_def)
  with * ascii_is_utf8 [OF assms(2) *(1)] show "idna_to_ascii ext False False False False r = Some r"
    by (simp add: idna_to_ascii_def)
qed

lemma domain_to_ascii_total:
  assumes "simdutf_ok ext"
  shows "domain_to_ascii ext domain be_strict \<noteq> Verify_failed"
  using assms ascii_is_utf8 [OF assms, of domain]
  by (auto simp: domain_to_ascii_def Let_def simdutf_ok_def split: option.splits if_splits)

lemma domain_to_ascii_fixed:
  assumes "icu_ok ext" "simdutf_ok ext" "domain_to_ascii ext s False = Done (Some d)"
  shows "d \<noteq> []" "is_ascii_string d" "to_ascii_lowercase_string d = d"
    "domain_to_ascii ext d False = Done (Some d)"
proof -
  let ?puny = "\<lambda>s. list_ex (\<lambda>part. starts_with_ignoring_ascii_case part ''xn--'') (split_view s CHR ''.'' False)"
  consider (fast) "is_ascii_string s" "s \<noteq> []" "d = to_ascii_lowercase_string s" "\<not> ?puny s"
    | (slow) "idna_to_ascii ext False False False False s = Some d" "d \<noteq> []"
    using assms(2,3) by (auto simp: domain_to_ascii_def Let_def simdutf_ok_def split: option.splits if_splits)
  then have *: "d \<noteq> [] \<and> is_ascii_string d \<and> to_ascii_lowercase_string d = d
    \<and> (?puny d \<longrightarrow> idna_to_ascii ext False False False False d = Some d)"
  proof cases
    case fast
    then have "d \<noteq> []" by (simp add: to_ascii_lowercase_string_def)
    with fast punycode_labels_lower [of "''xn--''" s] show ?thesis
      by (simp add: is_ascii_string_lower lowercase_string_idem)
  next
    case slow
    with idna_to_ascii_fixed [OF assms(1,2)] show ?thesis by blast
  qed
  then show "d \<noteq> []" "is_ascii_string d" "to_ascii_lowercase_string d = d" by auto
  from * assms(2) ascii_is_utf8 [OF assms(2), of d] show "domain_to_ascii ext d False = Done (Some d)"
    by (auto simp: domain_to_ascii_def Let_def simdutf_ok_def)
qed

subsection \<open>The host parser\<close>

definition host_ok :: "host \<Rightarrow> bool" where
  "host_ok h = (case h of IPv4 a \<Rightarrow> a < 2 ^ 32 | IPv6 ps \<Rightarrow> ipv6_ok ps | Name s \<Rightarrow> is_ascii_string s)"

lemma ends_in_a_number_total: "input \<noteq> [] \<Longrightarrow> ends_in_a_number_checker input \<noteq> Verify_failed"
  by (auto simp: ends_in_a_number_checker_def Let_def split_view_nonempty)

lemma domain_to_ascii_nonempty: "domain_to_ascii ext s b = Done (Some d) \<Longrightarrow> d \<noteq> []"
  by (auto simp: domain_to_ascii_def Let_def to_ascii_lowercase_string_def split: option.splits if_splits)

lemma parse_opaque_host_total:
  "\<exists>r. parse_opaque_host input = Done r \<and> (case r of None \<Rightarrow> True | Some h \<Rightarrow> host_ok h \<and> (\<exists>s. h = Name s))"
  using percent_encode_printable [of input C0Control False]
  by (fastforce simp: parse_opaque_host_def host_ok_def is_ascii_string_def list_all_iff char_class)

lemma parse_host_total:
  assumes "simdutf_ok ext" "input \<noteq> [] \<or> is_opaque"
  shows "parse_host ext input is_opaque \<noteq> Verify_failed"
proof -
  consider (v6) "starts_with_char input CHR ''[''" | (opaque) "\<not> starts_with_char input CHR ''[''" is_opaque
    | (domain) "\<not> starts_with_char input CHR ''[''" "\<not> is_opaque" by blast
  then show ?thesis
  proof cases
    case v6
    then show ?thesis
      using parse_ipv6_address_ok [of "butlast (tl input)"]
      by (auto simp: parse_host_def split: exec.splits)
  next
    case opaque
    then show ?thesis
      using parse_opaque_host_total [of input] by (auto simp: parse_host_def)
  next
    case domain
    then show ?thesis
      using assms domain_to_ascii_total [OF assms(1), of "percent_decoded input" False]
      by (auto simp: parse_host_def percent_decode_eq domain_to_ascii_nonempty
        ends_in_a_number_total parse_ipv4_address_total split: exec.splits option.splits)
  qed
qed

lemma parse_host_domainE:
  assumes "parse_host ext input False = Done (Some h)" "\<not> starts_with_char input CHR ''[''"
  obtains d where "domain_to_ascii ext (percent_decoded input) False = Done (Some d)"
    "\<forall>c\<in>set d. \<not> is_forbidden_domain_code_point (cp c)"
    "ends_in_a_number_checker d = Done True \<and> (\<exists>a. parse_ipv4_address ext d = Done (Some a) \<and> h = IPv4 a)
     \<or> ends_in_a_number_checker d = Done False \<and> h = Name d"
proof -
  obtain d where d: "domain_to_ascii ext (percent_decoded input) False = Done (Some d)"
    using assms by (auto simp: parse_host_def percent_decode_eq split: if_splits option.splits)
  with assms have run: "(if list_ex (\<lambda>c. is_forbidden_domain_code_point (cp c)) d then Done None
      else exec_bind (ends_in_a_number_checker d) (\<lambda>ends_in_number.
        if ends_in_number then exec_map (map_option IPv4) (parse_ipv4_address ext d)
        else Done (Some (Name d)))) = Done (Some h)"
    by (simp add: parse_host_def percent_decode_eq del: exec_bind_eq_Done_iff split: if_splits)
  then have ok: "\<forall>c\<in>set d. \<not> is_forbidden_domain_code_point (cp c)"
    by (auto simp: list_ex_iff split: if_splits)
  show thesis
  proof (cases "ends_in_a_number_checker d")
    case (Done b)
    with ok run show thesis
      by (intro that [OF d ok]) (cases b; auto simp: list_ex_iff Some_eq_map_option_iff)
  qed (use ok run in \<open>simp add: list_ex_iff\<close>)
qed

lemma parse_host_domain_text:
  assumes "d \<noteq> []" "\<forall>c\<in>set d. \<not> is_forbidden_domain_code_point (cp c)"
  shows "\<not> starts_with_char d CHR ''[''" "percent_decoded d = d"
proof -
  show "\<not> starts_with_char d CHR ''[''"
    using assms forbidden_domain_bracket_percent(1) by (cases d) (auto simp: starts_with_char_def)
  show "percent_decoded d = d"
    using assms forbidden_domain_bracket_percent(2) by (intro percent_decoded_plain) auto
qed

lemma parse_host_domainI:
  assumes "domain_to_ascii ext d False = Done (Some d)" "d \<noteq> []"
    "\<forall>c\<in>set d. \<not> is_forbidden_domain_code_point (cp c)" "ends_in_a_number_checker d = Done b"
  shows "parse_host ext d False =
    (if b then exec_map (map_option IPv4) (parse_ipv4_address ext d) else Done (Some (Name d)))"
  using assms parse_host_domain_text [OF assms(2,3)]
  by (auto simp: parse_host_def percent_decode_eq list_ex_iff)

lemma parse_ipv4_bound: "parse_ipv4_address ext s = Done (Some a) \<Longrightarrow> a < 2 ^ 32"
  by (drule parse_ipv4_address_sum) auto

subsection \<open>IP hosts\<close>

lemma serialize_ipv4_chars:
  "c \<in> set (serialize_ipv4_address a) \<Longrightarrow> is_ascii_digit (cp c) \<or> c = CHR ''.''"
  by (auto simp: serialize_ipv4_parts dest: dec_piece_digit)

lemma serialize_ipv4_lower: "to_ascii_lowercase_string (serialize_ipv4_address a) = serialize_ipv4_address a"
  unfolding to_ascii_lowercase_string_def
  by (rule map_idI) (auto dest!: serialize_ipv4_chars simp: char_to_ascii_lowercase_def to_ascii_lowercase_def char_class)

lemma serialize_ipv4_split:
  "split_view (serialize_ipv4_address a) CHR ''.'' keep_empty =
    [dec_piece (a div 256 div 256 div 256 mod 256), dec_piece (a div 256 div 256 mod 256),
     dec_piece (a div 256 mod 256), dec_piece (a mod 256)]"
  by (simp add: serialize_ipv4_parts split_view_def split_parts_append split_parts_plain dec_piece_no_dot)

lemma dec_piece_not_punycode: "\<not> starts_with_ignoring_ascii_case (dec_piece p) ''xn--''"
proof (cases "dec_piece p")
  case (Cons c cs)
  with dec_piece_digit [of c p] show ?thesis
    by (auto simp: starts_with_ignoring_ascii_case_def to_ascii_lowercase_def char_class)
qed simp

lemma serialize_ipv4_domain:
  assumes "simdutf_ok ext"
  shows "domain_to_ascii ext (serialize_ipv4_address a) False = Done (Some (serialize_ipv4_address a))"
proof -
  have "is_ascii_string (serialize_ipv4_address a)"
    by (auto simp: is_ascii_string_def list_all_iff char_class dest!: serialize_ipv4_chars)
  moreover from this have "validate_utf8 ext (serialize_ipv4_address a)"
    using ascii_is_utf8 [OF assms] by blast
  moreover have "serialize_ipv4_address a \<noteq> []" by (simp add: serialize_ipv4_parts)
  ultimately show ?thesis
    using assms
    by (simp add: domain_to_ascii_def Let_def simdutf_ok_def serialize_ipv4_split dec_piece_not_punycode
      serialize_ipv4_lower)
qed

lemma serialize_ipv4_ends_in_number: "ends_in_a_number_checker (serialize_ipv4_address a) = Done True"
  by (auto simp: ends_in_a_number_checker_def Let_def serialize_ipv4_split list_all_iff dest: dec_piece_digit)

lemma parse_host_ipv4:
  assumes "fast_float_ok ext" "simdutf_ok ext" "a < 2 ^ 32"
  shows "parse_host ext (serialize_host (IPv4 a)) False = Done (Some (IPv4 a))"
proof -
  have "serialize_ipv4_address a \<noteq> []" by (simp add: serialize_ipv4_parts)
  moreover have "\<forall>c\<in>set (serialize_ipv4_address a). \<not> is_forbidden_domain_code_point (cp c)"
    using serialize_ipv4_chars digits_and_dots_not_forbidden by blast
  ultimately show ?thesis
    using parse_host_domainI [OF serialize_ipv4_domain [OF assms(2)] _ _ serialize_ipv4_ends_in_number]
      parse_serialize_ipv4 [OF assms(1,3)]
    by simp
qed

lemma parse_host_ipv6:
  "ipv6_ok ps \<Longrightarrow> parse_host ext (serialize_host (IPv6 ps)) is_opaque = Done (Some (IPv6 ps))"
  by (simp add: parse_host_def starts_with_char_def ends_with_char_def butlast_append parse_serialize_ipv6)

subsection \<open>Opaque hosts\<close>

lemma parse_opaque_host_fixed:
  assumes "parse_opaque_host input = Done (Some (Name s))"
  shows "parse_opaque_host s = Done (Some (Name s))"
proof -
  have e: "percent_encode input C0Control False = Done s"
    and ok: "\<not> list_ex is_forbidden_host_code_point (code_points input)"
    using assms by (auto simp: parse_opaque_host_def split: if_splits)
  have s: "set s = (\<Union>c\<in>set (code_points input). set (percent_encoded C0Control c))"
    using e by (auto simp: percent_encode_eq)
  have b: "\<not> code_point_is_in_percent_encode_set (cp b) C0Control \<and> \<not> is_forbidden_host_code_point (cp b)"
    if b_in: "b \<in> set s" for b
  proof -
    obtain c where c: "c \<in> set (code_points input)" "b \<in> set (percent_encoded C0Control c)"
      using b_in s by auto
    then have "is_unicode c" using code_points_unicode [of input] by (auto simp: list_all_iff)
    from percent_encoded_bytes [OF this c(2)] show ?thesis
    proof (elim disjE)
      assume "b = CHR ''%''"
      then show ?thesis
        using is_forbidden_host_code_point_ascii [of b] by (auto simp: char_class forbidden_host_characters_def)
    next
      assume "is_ascii_hex_digit (cp b)"
      then show ?thesis
        using hex_digit_not_encoded [of "cp b" C0Control] is_forbidden_host_code_point_ascii [of b]
        by (auto simp: char_class forbidden_host_characters_def)
    next
      assume "cp b = c \<and> is_ascii_printable (cp b) \<and> \<not> code_point_is_in_percent_encode_set (cp b) C0Control"
      then show ?thesis
        using ok c(1) by (auto simp: list_ex_iff)
    qed
  qed
  have "list_all (\<lambda>b. is_ascii (cp b)) s"
    using b by (force simp: list_all_iff char_class not_less)
  then have "code_points s = map cp s" by (rule ascii_code_points)
  moreover have "percent_encode s C0Control False = Done s"
    using b by (intro percent_encode_printable_id) (auto simp: list_all_iff)
  ultimately show ?thesis
    using b by (auto simp: parse_opaque_host_def list_ex_iff)
qed

lemma opaque_host_no_bracket:
  assumes "parse_opaque_host input = Done (Some (Name s))"
  shows "\<not> starts_with_char s CHR ''[''"
proof
  assume "starts_with_char s CHR ''[''"
  moreover have "is_forbidden_host_code_point (cp CHR ''['')"
    using is_forbidden_host_code_point_ascii [of "CHR ''[''"] by (simp add: char_class forbidden_host_characters_def)
  moreover have "\<not> list_ex is_forbidden_host_code_point (code_points s)" "code_points s = map cp s"
    using parse_opaque_host_fixed [OF assms] parse_opaque_host_total [of input] assms
    by (auto simp: parse_opaque_host_def host_ok_def is_ascii_string_def ascii_code_points split: if_splits)
  ultimately show False
    by (cases s) (auto simp: starts_with_char_def)
qed

subsection \<open>What the host parser returns\<close>

lemma parse_host_result:
  assumes "simdutf_ok ext" "icu_ok ext" "parse_host ext input is_opaque = Done (Some h)"
  shows "host_ok h \<and> (\<not> is_opaque \<longrightarrow> h \<noteq> Name []
    \<and> (\<forall>d. h = Name d \<longrightarrow> (\<forall>c\<in>set d. \<not> is_forbidden_domain_code_point (cp c))
          \<and> ends_in_a_number_checker d = Done False))"
proof -
  consider (v6) "starts_with_char input CHR ''[''" | (opaque) "\<not> starts_with_char input CHR ''[''" is_opaque
    | (domain) "\<not> starts_with_char input CHR ''[''" "\<not> is_opaque" by blast
  then show ?thesis
  proof cases
    case v6
    with assms(3) parse_ipv6_address_ok [of "butlast (tl input)"] show ?thesis
      by (auto simp: parse_host_def host_ok_def Some_eq_map_option_iff split: if_splits)
  next
    case opaque
    with assms(3) parse_opaque_host_total [of input] show ?thesis by (auto simp: parse_host_def)
  next
    case domain
    have "parse_host ext input False = Done (Some h)" using domain assms(3) by simp
    then obtain d where d: "domain_to_ascii ext (percent_decoded input) False = Done (Some d)"
      "\<forall>c\<in>set d. \<not> is_forbidden_domain_code_point (cp c)"
      "ends_in_a_number_checker d = Done True \<and> (\<exists>a. parse_ipv4_address ext d = Done (Some a) \<and> h = IPv4 a)
       \<or> ends_in_a_number_checker d = Done False \<and> h = Name d"
      using domain(1) by (rule parse_host_domainE)
    then show ?thesis
      using domain_to_ascii_fixed(1,2) [OF assms(2,1) d(1)] parse_ipv4_bound by (auto simp: host_ok_def)
  qed
qed

lemma parse_host_fixed:
  assumes "fast_float_ok ext" "simdutf_ok ext" "icu_ok ext" "parse_host ext input is_opaque = Done (Some h)"
  shows "parse_host ext (serialize_host h) is_opaque = Done (Some h)"
proof (cases h)
  case (IPv6 ps)
  with parse_host_result [OF assms(2-4)] parse_host_ipv6 show ?thesis by (simp add: host_ok_def)
next
  case (IPv4 a)
  with assms(4) have "\<not> is_opaque"
    using parse_opaque_host_total [of input]
    by (auto simp: parse_host_def Some_eq_map_option_iff split: if_splits)
  with IPv4 parse_host_result [OF assms(2-4)] parse_host_ipv4 [OF assms(1,2)] show ?thesis
    by (simp add: host_ok_def)
next
  case (Name s)
  with assms(4) have bracket: "\<not> starts_with_char input CHR ''[''"
    by (auto simp: parse_host_def Some_eq_map_option_iff split: if_splits)
  show ?thesis
  proof (cases is_opaque)
    case True
    with assms(4) bracket Name have "parse_opaque_host input = Done (Some (Name s))"
      by (simp add: parse_host_def)
    with True Name show ?thesis
      using parse_opaque_host_fixed [of input s] opaque_host_no_bracket [of input s] by (simp add: parse_host_def)
  next
    case False
    with assms(4) have "parse_host ext input False = Done (Some h)" by simp
    then obtain d where "domain_to_ascii ext (percent_decoded input) False = Done (Some d)"
      "\<forall>c\<in>set d. \<not> is_forbidden_domain_code_point (cp c)"
      "ends_in_a_number_checker d = Done True \<and> (\<exists>a. parse_ipv4_address ext d = Done (Some a) \<and> h = IPv4 a)
       \<or> ends_in_a_number_checker d = Done False \<and> h = Name d"
      using bracket by (rule parse_host_domainE)
    with False Name show ?thesis
      using domain_to_ascii_fixed(1,4) [OF assms(3,2)] parse_host_domainI [of ext s False] by auto
  qed
qed

subsection \<open>Registrable domains\<close>

lemma find_last_upto_Some: "find_last_upto s ch k = Some i \<Longrightarrow> i < k \<and> s ! i = ch"
  by (induction k) (auto split: if_splits simp: less_Suc_eq)

lemma find_last_Some: "find_last s ch = Some i \<Longrightarrow> i < length s \<and> s ! i = ch"
  by (auto simp: find_last_def dest: find_last_upto_Some)

lemma find_last_last: "\<lbrakk> s \<noteq> []; last s = ch \<rbrakk> \<Longrightarrow> find_last s ch = Some (length s - 1)"
  by (cases s rule: rev_cases) (simp_all add: find_last_def)

text \<open>\<open>label_suffix d s\<close>: \<open>d\<close> is \<open>s\<close> or what follows one of the dots of \<open>s\<close>.\<close>

definition label_suffix :: "byte_string \<Rightarrow> byte_string \<Rightarrow> bool" where
  "label_suffix d s \<longleftrightarrow> d = s \<or> (\<exists>x. s = x @ CHR ''.'' # d)"

lemma label_suffix_drop: "\<lbrakk> i < length s; s ! i = CHR ''.'' \<rbrakk> \<Longrightarrow> label_suffix (drop (Suc i) s) s"
  by (auto simp: label_suffix_def id_take_nth_drop [symmetric] intro!: exI [of _ "take i s"] dest: id_take_nth_drop)

lemma label_suffix_last: "\<lbrakk> label_suffix d s; s \<noteq> []; last s \<noteq> CHR ''.'' \<rbrakk> \<Longrightarrow> d \<noteq> [] \<and> last d = last s"
  by (auto simp: label_suffix_def split: if_splits)

lemma label_suffix_ascii: "\<lbrakk> label_suffix d s; is_ascii_string s \<rbrakk> \<Longrightarrow> is_ascii_string d"
  by (auto simp: label_suffix_def is_ascii_string_def)

lemma trim_right_prefix: "prefix (trim_right s characters) s"
  using suffix_dropWhile [of "contains_char characters" "rev s"]
  by (simp add: trim_right_def suffix_to_prefix)

lemma get_registrable_domain_label_suffix:
  assumes "get_registrable_domain ext s = Some d"
  shows "label_suffix d s"
proof -
  obtain p where p: "get_public_suffix ext s = Some p" "ends_with s p" "s \<noteq> p"
    "d = drop (case find_last (trim_right (take (length s - length p) s) ''.'') CHR ''.'' of
                 Some index \<Rightarrow> Suc index | None \<Rightarrow> 0) s"
    using assms by (auto simp: get_registrable_domain_def Let_def split: option.splits if_splits)
  show ?thesis
  proof (cases "find_last (trim_right (take (length s - length p) s) ''.'') CHR ''.''")
    case None
    with p show ?thesis by (simp add: label_suffix_def)
  next
    case (Some i)
    obtain z where z: "take (length s - length p) s = trim_right (take (length s - length p) s) ''.'' @ z"
      using trim_right_prefix by (auto simp: prefix_def)
    let ?t = "trim_right (take (length s - length p) s) ''.''"
    have "s = ?t @ z @ drop (length s - length p) s"
      using z append_take_drop_id [of "length s - length p" s] by (metis append.assoc)
    then have "i < length s \<and> s ! i = CHR ''.''"
      using find_last_Some [OF Some] by (metis length_append nth_append trans_less_add1)
    with p(4) Some show ?thesis by (simp add: label_suffix_drop)
  qed
qed

lemma fallback_label_suffix:
  assumes "registrable_domain_fallback s = Some d"
  shows "label_suffix d s"
proof -
  obtain i j where "find_last s CHR ''.'' = Some i" "find_last (take i s) CHR ''.'' = Some j" "d = drop (Suc j) s"
    using assms by (auto simp: registrable_domain_fallback_def split: option.splits)
  with find_last_Some [of "take i s" "CHR ''.''" j] show ?thesis
    by (auto intro!: label_suffix_drop)
qed

lemma fallback_trailing_dot:
  assumes "s \<noteq> []" "last s = CHR ''.''"
  shows "(case registrable_domain_fallback s of Some d \<Rightarrow> d \<noteq> [] \<and> last d = CHR ''.'' | None \<Rightarrow> True)"
proof -
  have "find_last s CHR ''.'' = Some (length s - 1)" using find_last_last [OF assms] .
  then show ?thesis
    using assms find_last_Some [of "take (length s - 1) s" "CHR ''.''"]
    by (fastforce simp: registrable_domain_fallback_def split: option.splits)
qed

lemma trailing_dot_not_in_list:
  assumes "psl_ok ext" "s \<noteq> []" "last s = CHR ''.''"
  shows "get_registrable_domain ext s = None"
proof -
  have "\<not> ends_with s p" if "get_public_suffix ext s = Some p" for p
  proof -
    have p: "p \<noteq> []" "last p \<noteq> CHR ''.''" using that assms(1) by (auto simp: psl_ok_def)
    show ?thesis
    proof
      assume "ends_with s p"
      with p have "drop (length s - length p) s = p" "length p \<le> length s"
        by (auto simp: ends_with_def split: if_splits)
      with p assms show False using last_drop [of "length s - length p" s] by (cases p) auto
    qed
  qed
  then show ?thesis by (auto simp: get_registrable_domain_def split: option.splits)
qed

lemma registrable_domain_trailing_dot:
  assumes "psl_ok ext" "s \<noteq> []" "last s = CHR ''.''" "public_suffix ext (Name s) = Done (Some p)" "p \<noteq> s"
  shows "registrable_domain ext (Name s) = Verify_failed"
  using assms fallback_trailing_dot [OF assms(2,3)] trailing_dot_not_in_list [OF assms(1-3)]
  by (auto simp: ends_with_char_def split: option.splits simp del: public_suffix.simps)

lemma public_suffix_total:
  assumes "psl_ok ext" "is_ascii_string s" "s \<noteq> []" "last s \<noteq> CHR ''.''"
  shows "\<exists>p. public_suffix ext (Name s) = Done (Some p)"
proof (cases "get_public_suffix ext s")
  case (Some p)
  with assms(1,2) have "p \<noteq> []" "CHR ''.'' \<noteq> last p" "is_ascii_string p"
    unfolding psl_ok_def by metis+
  with Some assms(3) show ?thesis by (simp add: ends_with_char_def)
next
  case None
  have "label_suffix (case find_last s CHR ''.'' of Some i \<Rightarrow> drop (Suc i) s | None \<Rightarrow> s) s"
    using find_last_Some [of s] label_suffix_drop by (auto simp: label_suffix_def split: option.splits)
  with None label_suffix_last [OF this assms(3,4)] label_suffix_ascii [OF this assms(2)] assms(4)
  show ?thesis by (simp add: ends_with_char_def assms(3) Let_def)
qed

lemma registrable_domain_total:
  assumes "psl_ok ext" "is_ascii_string s" "s \<noteq> []" "last s \<noteq> CHR ''.''"
  shows "\<exists>r. registrable_domain ext (Name s) = Done r \<and> (case r of None \<Rightarrow> True | Some d \<Rightarrow> label_suffix d s \<and> d \<noteq> [])"
proof -
  obtain p where p: "public_suffix ext (Name s) = Done (Some p)" using public_suffix_total [OF assms] by blast
  define d where "d = (case get_registrable_domain ext s of
      Some d \<Rightarrow> d | None \<Rightarrow> (case registrable_domain_fallback s of Some d \<Rightarrow> d | None \<Rightarrow> s))"
  have "label_suffix d s"
    using get_registrable_domain_label_suffix fallback_label_suffix
    by (auto simp: d_def label_suffix_def split: option.splits) 
  with p label_suffix_last [OF this assms(3,4)] label_suffix_ascii [OF this assms(2)] assms(3,4) show ?thesis
    by (auto simp: d_def [symmetric] ends_with_char_def trailing_dot_def simp del: public_suffix.simps)
qed

lemma icu_ok_reference: "icu_ok reference_externals"
  by (auto simp: icu_ok_def reference_externals_def is_ascii_string_lower lowercase_string_idem split: if_splits)

lemma psl_ok_reference: "psl_ok reference_externals"
  by (auto simp: psl_ok_def reference_externals_def Let_def is_ascii_string_def char_class split: if_splits)

subsection \<open>Properties\<close>

text \<open>C15: the host parser returns on every input it may be called with (any opaque host, any non-empty
  string otherwise), no \<^verbatim>\<open>VERIFY\<close> fails, and a host it returns is well-formed: a 32-bit IPv4 address,
  eight 16-bit IPv6 pieces or an ASCII string; a domain is not empty, has no forbidden domain code
  point and does not end in a number.\<close>

theorem parse_host_total_well_formed:
  assumes "simdutf_ok ext" "icu_ok ext" "input \<noteq> [] \<or> is_opaque"
  shows "\<exists>r. parse_host ext input is_opaque = Done r \<and> (\<forall>h. r = Some h \<longrightarrow> host_ok h \<and>
    (\<not> is_opaque \<longrightarrow> h \<noteq> Name [] \<and> (\<forall>d. h = Name d \<longrightarrow>
       (\<forall>c\<in>set d. \<not> is_forbidden_domain_code_point (cp c)) \<and> ends_in_a_number_checker d = Done False)))"
  using parse_host_total [OF assms(1,3)] parse_host_result [OF assms(1,2)]
  by (cases "parse_host ext input is_opaque") auto

theorem parse_host_total_well_formed_witness:
  "\<exists>r. parse_host reference_externals ''1.2'' False = Done r \<and> (\<forall>h. r = Some h \<longrightarrow> host_ok h \<and>
    (\<not> False \<longrightarrow> h \<noteq> Name [] \<and> (\<forall>d. h = Name d \<longrightarrow>
       (\<forall>c\<in>set d. \<not> is_forbidden_domain_code_point (cp c)) \<and> ends_in_a_number_checker d = Done False)))"
  by (rule parse_host_total_well_formed) (simp_all add: simdutf_ok_reference icu_ok_reference)

text \<open>C14: serializing a parsed host and parsing it again, with the same notion of opaqueness, gives
  the same host: IPv4, IPv6, domain and opaque host alike.\<close>

theorem parse_host_serialize_fixed_point:
  assumes "fast_float_ok ext" "simdutf_ok ext" "icu_ok ext" "parse_host ext input is_opaque = Done (Some h)"
  shows "parse_host ext (serialize_host h) is_opaque = Done (Some h)"
  using assms by (rule parse_host_fixed)

lemma parse_host_example: "parse_host reference_externals ''[::2]'' False = Done (Some (IPv6 [0, 0, 0, 0, 0, 0, 0, 2]))"
  using parse_host_ipv6 [of "[0, 0, 0, 0, 0, 0, 0, 2]" reference_externals False]
  by (simp add: ipv6_ok_def serialize_ipv6_address_def find_the_ipv6_address_compressed_piece_index_def
    convert_unsigned_to_string_def digit_buffer_pos lowercase_lookup_def)

theorem parse_host_serialize_fixed_point_witness:
  "parse_host reference_externals (serialize_host (IPv6 [0, 0, 0, 0, 0, 0, 0, 2])) False
     = Done (Some (IPv6 [0, 0, 0, 0, 0, 0, 0, 2]))"
  by (rule parse_host_serialize_fixed_point
    [OF fast_float_ok_reference simdutf_ok_reference icu_ok_reference parse_host_example])

text \<open>C34: the registrable domain of an ASCII domain without a final dot is always found without a
  failing \<^verbatim>\<open>VERIFY\<close>, and is the domain itself or what follows one of its dots.\<close>

theorem registrable_domain_is_label_suffix:
  assumes "psl_ok ext" "is_ascii_string s" "s \<noteq> []" "last s \<noteq> CHR ''.''"
  shows "\<exists>r. registrable_domain ext (Name s) = Done r
    \<and> (case r of None \<Rightarrow> True | Some d \<Rightarrow> label_suffix d s \<and> d \<noteq> [])"
  using assms by (rule registrable_domain_total)

theorem registrable_domain_is_label_suffix_witness:
  "\<exists>r. registrable_domain reference_externals (Name ''www.b.com'') = Done r
    \<and> (case r of None \<Rightarrow> True | Some d \<Rightarrow> label_suffix d ''www.b.com'' \<and> d \<noteq> [])"
  by (rule registrable_domain_is_label_suffix) (simp_all add: psl_ok_reference is_ascii_string_def char_class)

text \<open>C35: a domain written with a final dot (\<^verbatim>\<open>example.com.\<close>) that is not itself a public suffix makes
  \<^verbatim>\<open>Host::registrable_domain\<close> fail its own assertion: the fallback keeps the dot that the assertion
  rules out.\<close>

theorem registrable_domain_fails_on_trailing_dot:
  assumes "psl_ok ext" "s \<noteq> []" "last s = CHR ''.''" "public_suffix ext (Name s) = Done (Some p)" "p \<noteq> s"
  shows "registrable_domain ext (Name s) = Verify_failed"
  using assms by (rule registrable_domain_trailing_dot)

theorem registrable_domain_fails_on_trailing_dot_witness:
  "registrable_domain reference_externals (Name ''b.com.'') = Verify_failed"
  by (rule registrable_domain_fails_on_trailing_dot [OF psl_ok_reference, where p = "''com.''"])
    (simp_all add: reference_externals_def split_view_def is_ascii_string_def char_class
      ends_with_char_def trailing_dot_def)

end
