(* ===== verification/AK_Hash.thy ===== *)
theory AK_Hash
  imports AK_Strings
begin

text \<open>
  The hash functions of \<^verbatim>\<open>AK/HashFunctions.h\<close> and \<^verbatim>\<open>AK/StringHash.h\<close>, in the 32-bit arithmetic of
  the source.  A \<^verbatim>\<open>char\<close> is converted to \<^verbatim>\<open>u32\<close> with its sign, as on the x86 targets.
\<close>

type_synonym u32 = "32 word"

definition int_hash :: "u32 \<Rightarrow> u32" where
  "int_hash key =
     (let key = key + NOT (push_bit 15 key);
          key = key XOR drop_bit 10 key;
          key = key + push_bit 3 key;
          key = key XOR drop_bit 6 key;
          key = key + NOT (push_bit 11 key);
          key = key XOR drop_bit 16 key
      in key)"

definition pair_int_hash :: "u32 \<Rightarrow> u32 \<Rightarrow> u32" where
  "pair_int_hash key1 key2 = int_hash ((int_hash key1 * 209) XOR int_hash (key2 * 413))"

definition char_to_u32 :: "char \<Rightarrow> u32" where
  "char_to_u32 c = word_of_int (if cp c < 128 then int (cp c) else int (cp c) - 256)"

definition hash_mix :: "u32 \<Rightarrow> u32 \<Rightarrow> u32" where
  "hash_mix hash ch =
     (let hash = hash + ch; hash = hash + push_bit 10 hash; hash = hash XOR drop_bit 6 hash in hash)"

definition hash_finish :: "u32 \<Rightarrow> u32" where
  "hash_finish hash =
     (let hash = hash + push_bit 3 hash; hash = hash XOR drop_bit 11 hash; hash = hash + push_bit 15 hash in hash)"

definition string_hash :: "byte_string \<Rightarrow> u32 \<Rightarrow> u32" where
  "string_hash characters seed = hash_finish (foldl (\<lambda>hash c. hash_mix hash (char_to_u32 c)) seed characters)"

definition hash_to_lowercase :: "char \<Rightarrow> u32" where
  "hash_to_lowercase ch =
     (if cp CHR ''A'' \<le> cp ch \<and> cp ch \<le> cp CHR ''Z'' then char_to_u32 ch + 0x20 else char_to_u32 ch)"

definition case_insensitive_string_hash :: "byte_string \<Rightarrow> u32 \<Rightarrow> u32" where
  "case_insensitive_string_hash characters seed =
     hash_finish (foldl (\<lambda>hash c. hash_mix hash (hash_to_lowercase c)) seed characters)"

text \<open>\<^verbatim>\<open>CaseInsensitiveASCIIStringViewTraits::hash\<close>.\<close>

definition case_insensitive_view_hash :: "byte_string \<Rightarrow> u32" where
  "case_insensitive_view_hash s = (if s = [] then 0 else case_insensitive_string_hash s 0)"

text \<open>\<^verbatim>\<open>String::hash\<close> and \<^verbatim>\<open>StringView::hash\<close>.\<close>

definition string_hash_of :: "byte_string \<Rightarrow> u32" where
  "string_hash_of s = (if s = [] then 0 else string_hash s 0)"

subsection \<open>Hash contracts\<close>

text \<open>What \<^verbatim>\<open>HashTable\<close> relies on of \<^verbatim>\<open>Traits\<close>: keys that compare equal hash alike.\<close>

locale hash_traits =
  fixes equals :: "'a \<Rightarrow> 'a \<Rightarrow> bool" and hash :: "'a \<Rightarrow> u32"
  assumes equals_hash: "equals a b \<Longrightarrow> hash a = hash b"
begin

lemma different_hash: "hash a \<noteq> hash b \<Longrightarrow> \<not> equals a b"
  using equals_hash by blast

text \<open>Two equal keys fall into the same bucket, whatever the number of buckets.\<close>

lemma same_bucket: "equals a b \<Longrightarrow> unat (hash a) mod n = unat (hash b) mod n"
  by (simp add: equals_hash)

end

lemma hash_to_lowercase_eq: "hash_to_lowercase c = char_to_u32 (char_to_ascii_lowercase c)"
  by (auto simp: hash_to_lowercase_def char_to_u32_def char_to_ascii_lowercase_def to_ascii_lowercase_def char_class)

lemma foldl_lowercase:
  "foldl (\<lambda>hash c. hash_mix hash (hash_to_lowercase c)) h s
   = foldl (\<lambda>hash c. hash_mix hash (char_to_u32 c)) h (to_ascii_lowercase_string s)"
  by (induction s arbitrary: h) (simp_all add: to_ascii_lowercase_string_def hash_to_lowercase_eq)

lemma case_insensitive_hash_lowercase:
  "case_insensitive_string_hash s seed = string_hash (to_ascii_lowercase_string s) seed"
  by (simp add: case_insensitive_string_hash_def string_hash_def foldl_lowercase)

lemma to_ascii_lowercase_char_inj:
  "to_ascii_lowercase (cp x) = to_ascii_lowercase (cp y) \<longleftrightarrow> char_to_ascii_lowercase x = char_to_ascii_lowercase y"
proof -
  have "to_ascii_lowercase (cp c) < 256" for c
    using of_char_less_256 [of c] by (auto simp: to_ascii_lowercase_def char_class)
  then show ?thesis
    by (auto simp: char_to_ascii_lowercase_def dest: arg_cong [where f = "of_char :: char \<Rightarrow> nat"])
qed

lemma equals_ignoring_ascii_case_lowercase:
  "equals_ignoring_ascii_case a b \<longleftrightarrow> to_ascii_lowercase_string a = to_ascii_lowercase_string b"
proof -
  have "list_all2 (\<lambda>x y. char_to_ascii_lowercase x = char_to_ascii_lowercase y) a b
      \<longleftrightarrow> map char_to_ascii_lowercase a = map char_to_ascii_lowercase b"
    by (auto simp: list_all2_conv_all_nth list_eq_iff_nth_eq)
  then show ?thesis
    by (auto simp: equals_ignoring_ascii_case_def to_ascii_lowercase_string_def to_ascii_lowercase_char_inj
      dest: map_eq_imp_length_eq)
qed

interpretation case_insensitive_views: hash_traits equals_ignoring_ascii_case case_insensitive_view_hash
proof unfold_locales
  fix a b assume "equals_ignoring_ascii_case a b"
  then have "to_ascii_lowercase_string a = to_ascii_lowercase_string b"
    by (simp add: equals_ignoring_ascii_case_lowercase)
  moreover from this have "a = [] \<longleftrightarrow> b = []"
    by (auto simp: to_ascii_lowercase_string_def)
  ultimately show "case_insensitive_view_hash a = case_insensitive_view_hash b"
    by (simp add: case_insensitive_view_hash_def case_insensitive_hash_lowercase)
qed

text \<open>C40: strings equal up to ASCII case have the same hash under the case-insensitive \<^verbatim>\<open>Traits\<close>, and
  fall into the same bucket of a table of any size.\<close>

theorem case_insensitive_hash_contract:
  assumes "equals_ignoring_ascii_case a b"
  shows "case_insensitive_view_hash a = case_insensitive_view_hash b
    \<and> unat (case_insensitive_view_hash a) mod n = unat (case_insensitive_view_hash b) mod n"
  using assms case_insensitive_views.equals_hash case_insensitive_views.same_bucket by blast

theorem case_insensitive_hash_contract_witness:
  "case_insensitive_view_hash ''Host'' = case_insensitive_view_hash ''hOST''
    \<and> unat (case_insensitive_view_hash ''Host'') mod 8 = unat (case_insensitive_view_hash ''hOST'') mod 8"
  by (rule case_insensitive_hash_contract)
    (simp add: equals_ignoring_ascii_case_def to_ascii_lowercase_def char_class)

end
