(* ===== verification/URL_Origin.thy ===== *)
theory URL_Origin
  imports URL_Host AK_Hash
begin

text \<open>
  Origins and sites: \<^verbatim>\<open>Libraries/LibURL/Origin.h\<close>, \<^verbatim>\<open>Origin.cpp\<close>, \<^verbatim>\<open>Site.h\<close> and \<^verbatim>\<open>Site.cpp\<close>.  The nonce of
  an opaque origin is the list of its sixteen bytes; \<^verbatim>\<open>create_opaque\<close> draws it from the secure random
  generator, so it is an argument here.
\<close>

record origin_tuple =
  tuple_scheme :: "byte_string option"
  tuple_host :: host
  tuple_port :: "nat option"
  tuple_domain :: "byte_string option"

datatype origin = Tuple origin_tuple | Nonce "nat list"

definition create_opaque :: "nat list \<Rightarrow> origin" where
  "create_opaque nonce = Nonce nonce"

fun is_opaque_origin :: "origin \<Rightarrow> bool" where
  "is_opaque_origin (Nonce _) \<longleftrightarrow> True"
| "is_opaque_origin (Tuple _) \<longleftrightarrow> False"

fun is_same_origin :: "origin \<Rightarrow> origin \<Rightarrow> bool" where
  "is_same_origin (Nonce a) (Nonce b) \<longleftrightarrow> a = b"
| "is_same_origin (Tuple a) (Tuple b) \<longleftrightarrow>
     tuple_scheme a = tuple_scheme b \<and> tuple_host a = tuple_host b \<and> tuple_port a = tuple_port b"
| "is_same_origin _ _ \<longleftrightarrow> False"

fun is_same_origin_domain :: "origin \<Rightarrow> origin \<Rightarrow> bool" where
  "is_same_origin_domain (Nonce a) (Nonce b) \<longleftrightarrow> a = b"
| "is_same_origin_domain (Tuple a) (Tuple b) \<longleftrightarrow>
     (if tuple_domain a \<noteq> None \<and> tuple_domain a = tuple_domain b \<and> tuple_scheme a = tuple_scheme b then True
      else tuple_domain a = None \<and> tuple_domain b = None \<and> is_same_origin (Tuple a) (Tuple b))"
| "is_same_origin_domain _ _ \<longleftrightarrow> False"

fun effective_domain :: "origin \<Rightarrow> host option" where
  "effective_domain (Nonce _) = None"
| "effective_domain (Tuple t) =
     (case tuple_domain t of Some d \<Rightarrow> Some (Name d) | None \<Rightarrow> Some (tuple_host t))"

fun serialize_origin :: "origin \<Rightarrow> byte_string" where
  "serialize_origin (Nonce _) = ''null''"
| "serialize_origin (Tuple t) =
     (case tuple_scheme t of Some s \<Rightarrow> s | None \<Rightarrow> []) @ ''://'' @ serialize_host (tuple_host t)
     @ (case tuple_port t of Some p \<Rightarrow> '':'' @ convert_unsigned_to_string p 10 False | None \<Rightarrow> [])"

fun origin_hash :: "origin \<Rightarrow> u32" where
  "origin_hash (Nonce nonce) =
     push_bit 24 (of_nat (nonce ! 0)) OR push_bit 16 (of_nat (nonce ! 1))
     OR push_bit 8 (of_nat (nonce ! 2)) OR of_nat (nonce ! 3)"
| "origin_hash (Tuple t) =
     (let hash = string_hash_of (case tuple_scheme t of Some s \<Rightarrow> s | None \<Rightarrow> []);
          hash = (case tuple_port t of Some p \<Rightarrow> pair_int_hash hash (of_nat p) | None \<Rightarrow> hash);
          hash = pair_int_hash hash (string_hash_of (serialize_host (tuple_host t)));
          hash = (case tuple_domain t of Some d \<Rightarrow> pair_int_hash hash (string_hash_of d) | None \<Rightarrow> hash)
      in hash)"

subsection \<open>Sites\<close>

record scheme_and_host =
  site_scheme :: byte_string
  site_host :: host

datatype site = Opaque_Site origin | Scheme_And_Host scheme_and_host

fun obtain_site :: "externals \<Rightarrow> origin \<Rightarrow> site exec" where
  "obtain_site ext (Nonce n) = Done (Opaque_Site (Nonce n))"
| "obtain_site ext (Tuple t) =
     (let origin_scheme = (case tuple_scheme t of Some s \<Rightarrow> s | None \<Rightarrow> [])
      in case registrable_domain ext (tuple_host t) of
           Verify_failed \<Rightarrow> Verify_failed
         | Done None \<Rightarrow> Done (Scheme_And_Host \<lparr> site_scheme = origin_scheme, site_host = tuple_host t \<rparr>)
         | Done (Some d) \<Rightarrow> Done (Scheme_And_Host \<lparr> site_scheme = origin_scheme, site_host = Name d \<rparr>))"

fun origin_nonce :: "origin \<Rightarrow> nat list exec" where
  "origin_nonce (Nonce n) = Done n"
| "origin_nonce (Tuple _) = Verify_failed"

fun is_same_site :: "site \<Rightarrow> site \<Rightarrow> bool exec" where
  "is_same_site (Opaque_Site a) (Opaque_Site b) =
     exec_bind (origin_nonce a) (\<lambda>m. exec_map (\<lambda>n. m = n) (origin_nonce b))"
| "is_same_site (Scheme_And_Host a) (Scheme_And_Host b) =
     (if site_scheme a \<noteq> site_scheme b then Done False
      else if site_host a \<noteq> site_host b then Done False else Done True)"
| "is_same_site _ _ = Done False"

fun serialize_site :: "site \<Rightarrow> byte_string" where
  "serialize_site (Opaque_Site _) = ''null''"
| "serialize_site (Scheme_And_Host s) = site_scheme s @ ''://'' @ serialize_host (site_host s)"

definition origins_are_same_site :: "externals \<Rightarrow> origin \<Rightarrow> origin \<Rightarrow> bool exec" where
  "origins_are_same_site ext a b =
     exec_bind (obtain_site ext a) (\<lambda>site_a.
       exec_bind (obtain_site ext b) (\<lambda>site_b. is_same_site site_a site_b))"

subsection \<open>The relations are equivalences\<close>

text \<open>The contract of a relation that splits its domain into classes.\<close>

locale equivalence_test =
  fixes related :: "'a \<Rightarrow> 'a \<Rightarrow> bool"
  assumes refl: "related a a"
    and sym: "related a b \<Longrightarrow> related b a"
    and trans: "related a b \<Longrightarrow> related b c \<Longrightarrow> related a c"
begin

lemma same_class: "related a b \<Longrightarrow> related a c = related b c"
  using sym trans by blast

lemma sym_iff: "related a b = related b a"
  by (rule iffI; erule sym)

end

text \<open>Both relations compare a key of the origin.\<close>

fun origin_key :: "origin \<Rightarrow> nat list + byte_string option \<times> host \<times> nat option" where
  "origin_key (Nonce n) = Inl n"
| "origin_key (Tuple t) = Inr (tuple_scheme t, tuple_host t, tuple_port t)"

fun domain_key ::
  "origin \<Rightarrow> (nat list + byte_string option \<times> host \<times> nat option) + byte_string \<times> byte_string option" where
  "domain_key (Nonce n) = Inl (Inl n)"
| "domain_key (Tuple t) =
     (case tuple_domain t of None \<Rightarrow> Inl (origin_key (Tuple t)) | Some d \<Rightarrow> Inr (d, tuple_scheme t))"

lemma is_same_origin_key: "is_same_origin a b \<longleftrightarrow> origin_key a = origin_key b"
  by (cases a; cases b) simp_all

lemma is_same_origin_domain_key: "is_same_origin_domain a b \<longleftrightarrow> domain_key a = domain_key b"
proof (cases a; cases b)
  fix s t assume "a = Tuple s" "b = Tuple t"
  then show ?thesis
    by (cases "tuple_domain s"; cases "tuple_domain t") simp_all
qed (auto split: option.splits)

interpretation same_origin: equivalence_test is_same_origin
  by unfold_locales (simp_all add: is_same_origin_key)

interpretation same_origin_domain: equivalence_test is_same_origin_domain
  by unfold_locales (simp_all add: is_same_origin_domain_key)

lemma obtain_site_opaque: "obtain_site ext a = Done (Opaque_Site o') \<Longrightarrow> \<exists>n. o' = Nonce n"
  by (cases a) (auto split: exec.splits option.splits)

lemma is_same_site_eq:
  assumes "obtain_site ext a = Done s" "obtain_site ext b = Done t"
  shows "is_same_site s t = Done (s = t)"
proof (cases s; cases t)
  fix x y assume "s = Opaque_Site x" "t = Opaque_Site y"
  with assms obtain_site_opaque [of ext a x] obtain_site_opaque [of ext b y] show ?thesis by auto
next
  fix x y assume "s = Scheme_And_Host x" "t = Scheme_And_Host y"
  then show ?thesis by (cases x; cases y) simp
qed simp_all

lemma origins_are_same_site_eq:
  assumes "obtain_site ext a = Done s" "obtain_site ext b = Done t"
  shows "origins_are_same_site ext a b = Done (s = t)"
  using assms is_same_site_eq [OF assms] by (simp add: origins_are_same_site_def)

lemma same_origin_same_site:
  assumes "is_same_origin a b" "obtain_site ext a = Done s"
  shows "obtain_site ext b = Done s"
  using assms by (cases a; cases b) (auto simp: Let_def split: exec.splits option.splits)

interpretation same_site: equivalence_test "\<lambda>a b. obtain_site ext a = obtain_site ext b" for ext
  by unfold_locales (rule refl, erule HOL.sym, erule (1) HOL.trans)

subsection \<open>Serialization tells origins apart\<close>

text \<open>\<open>tuple_ok\<close>: what an origin made from a parsed URL looks like.\<close>

definition scheme_ok :: "byte_string \<Rightarrow> bool" where
  "scheme_ok s \<longleftrightarrow> s \<noteq> [] \<and> list_all (\<lambda>c. is_ascii_alphanumeric (cp c) \<or> c \<in> set ''+-.'') s"

definition domain_host_ok :: "host \<Rightarrow> bool" where
  "domain_host_ok h \<longleftrightarrow> host_ok h \<and> (\<forall>d. h = Name d \<longrightarrow>
     (\<forall>c\<in>set d. \<not> is_forbidden_domain_code_point (cp c)) \<and> ends_in_a_number_checker d \<noteq> Done True)"

definition tuple_ok :: "origin_tuple \<Rightarrow> bool" where
  "tuple_ok t \<longleftrightarrow> (\<exists>s. tuple_scheme t = Some s \<and> scheme_ok s) \<and> domain_host_ok (tuple_host t)
     \<and> (\<forall>p. tuple_port t = Some p \<longrightarrow> p < 65536)"

lemma append_stop_inject:
  assumes "c \<notin> set xs" "c \<notin> set ys" "xs @ c # zs = ys @ c # ws"
  shows "xs = ys \<and> zs = ws"
  using assms
proof (induction xs arbitrary: ys)
  case Nil
  then show ?case by (cases ys) auto
next
  case (Cons x xs)
  then show ?case by (cases ys) auto
qed

lemma append_stop_or_end:
  assumes "c \<notin> set xs" "c \<notin> set ys" "xs @ zs = ys @ ws" "zs = [] \<or> hd zs = c" "ws = [] \<or> hd ws = c"
  shows "xs = ys \<and> zs = ws"
proof -
  have no_stop: False if "us @ c # vs = ts" "c \<notin> set ts" for us vs ts
    using that by auto
  consider "zs = []" "ws = []" | zs' where "zs = c # zs'" "ws = []" | ws' where "zs = []" "ws = c # ws'"
    | zs' ws' where "zs = c # zs'" "ws = c # ws'"
    using assms(4,5) by (metis list.exhaust_sel)
  then show ?thesis
  proof cases
    case 1
    with assms(3) show ?thesis by simp
  next
    case (2 zs')
    with assms(3) no_stop [of xs zs' ys] assms(2) show ?thesis by simp
  next
    case (3 ws')
    with assms(3) no_stop [of ys ws' xs] assms(1) show ?thesis by simp
  next
    case (4 zs' ws')
    with append_stop_inject [OF assms(1,2), of zs' ws'] assms(3) show ?thesis by simp
  qed
qed

lemma domain_chars:
  assumes "domain_host_ok (Name d)" "c \<in> set d"
  shows "c \<noteq> CHR '':'' \<and> c \<noteq> CHR ''['' \<and> c \<noteq> CHR '']'' \<and> c \<noteq> CHR ''/''"
proof -
  have "is_ascii (cp c)" "\<not> is_forbidden_host_code_point (cp c)"
    using assms by (auto simp: domain_host_ok_def host_ok_def is_ascii_string_def list_all_iff
      is_forbidden_domain_code_point_def)
  then show ?thesis
    using is_forbidden_host_code_point_ascii [of c] by (auto simp: forbidden_host_characters_def)
qed

lemma ipv4_chars: "c \<in> set (serialize_ipv4_address a) \<Longrightarrow> c \<noteq> CHR '':'' \<and> c \<noteq> CHR ''[''"
  by (drule serialize_ipv4_chars) (auto simp: char_class)

lemma ipv6_chars: "c \<in> set (serialize_ipv6_address a) \<Longrightarrow> c \<noteq> CHR '']''"
  using ipv6_text_serialized [of "find_the_ipv6_address_compressed_piece_index a" 0 False a]
  by (auto simp: serialize_ipv6_address_def ipv6_text_def list_all_iff char_class)

lemma serialize_host_inject:
  assumes "domain_host_ok g" "domain_host_ok h" "serialize_host g = serialize_host h"
  shows "g = h"
proof -
  have v4: "serialize_ipv4_address a \<noteq> d" if "domain_host_ok (Name d)" for a d
    using that serialize_ipv4_ends_in_number [of a] by (auto simp: domain_host_ok_def)
  have v6: "CHR ''['' # s \<noteq> d" if "domain_host_ok (Name d)" for s d
    using domain_chars [OF that, of "CHR ''[''"] by auto
  have v46: "CHR ''['' # s \<noteq> serialize_ipv4_address a" for s a
    using ipv4_chars [of "CHR ''[''" a] by (metis list.set_intros(1))
  have eq4: "serialize_ipv4_address a = serialize_ipv4_address b \<longleftrightarrow> a = b" if "a < 2 ^ 32" "b < 2 ^ 32" for a b
    using ipv4_codec.encode_eq_iff [of reference_externals a b] fast_float_ok_reference that by blast
  show ?thesis
  proof (cases g)
    case g: (IPv4 a)
    with assms eq4 [of a] v4 [of _ a] v46 [of _ a] show ?thesis
      by (cases h) (auto simp: domain_host_ok_def host_ok_def)
  next
    case g: (IPv6 a)
    with assms ipv6_codec.encode_eq_iff [of a] v6 v46 show ?thesis
      by (cases h) (auto simp: domain_host_ok_def host_ok_def)
  next
    case g: (Name d)
    with assms(1,3) v4 [of d] v6 [of d] show ?thesis
      by (cases h) auto
  qed
qed

lemma serialize_host_no_colon:
  "\<lbrakk> domain_host_ok h; \<nexists>a. h = IPv6 a \<rbrakk> \<Longrightarrow> CHR '':'' \<notin> set (serialize_host h) \<and> CHR ''['' \<notin> set (serialize_host h)"
  using domain_chars ipv4_chars by (cases h) auto

lemma serialize_host_port_inject:
  assumes "domain_host_ok g" "domain_host_ok h" "serialize_host g @ zs = serialize_host h @ ws"
    "zs = [] \<or> hd zs = CHR '':''" "ws = [] \<or> hd ws = CHR '':''" 
  shows "serialize_host g = serialize_host h \<and> zs = ws"
proof -
  have bracket: False if "serialize_host (IPv6 a) @ us = serialize_host k @ vs"
    "domain_host_ok k" "\<nexists>b. k = IPv6 b" "vs = [] \<or> hd vs = CHR '':''" for a us k vs
  proof (cases "serialize_host k")
    case Nil
    with that show False by (cases vs) auto
  next
    case (Cons c cs)
    with that serialize_host_no_colon [OF that(2,3)] show False by auto
  qed
  consider (both) a b where "g = IPv6 a" "h = IPv6 b" | (none) "\<nexists>a. g = IPv6 a" "\<nexists>a. h = IPv6 a"
    using bracket [of _ zs h ws] bracket [of _ ws g zs] assms by metis
  then show ?thesis
  proof cases
    case both
    with assms(3) append_stop_inject [of "CHR '']''" "serialize_ipv6_address a" "serialize_ipv6_address b" zs ws]
      ipv6_chars show ?thesis by auto
  next
    case none
    with assms append_stop_or_end [of "CHR '':''" "serialize_host g" "serialize_host h" zs ws]
      serialize_host_no_colon show ?thesis by blast
  qed
qed

lemma scheme_no_colon: "scheme_ok s \<Longrightarrow> CHR '':'' \<notin> set s"
  by (auto simp: scheme_ok_def list_all_iff char_class)

lemma port_text_inject:
  "(case p of Some n \<Rightarrow> '':'' @ convert_unsigned_to_string n 10 False | None \<Rightarrow> [])
   = (case q of Some n \<Rightarrow> '':'' @ convert_unsigned_to_string n 10 False | None \<Rightarrow> []) \<longleftrightarrow> p = q"
proof (cases p; cases q)
  fix m n assume "p = Some m" "q = Some n"
  then show ?thesis
    using convert_unsigned_value [of 10 _ False] by (simp, metis numeral_le_iff semiring_norm(68,69,71))
qed auto

lemma serialize_origin_inject:
  assumes "tuple_ok s" "tuple_ok t" "serialize_origin (Tuple s) = serialize_origin (Tuple t)"
  shows "is_same_origin (Tuple s) (Tuple t)"
proof -
  define port where "port p = (case p of Some n \<Rightarrow> '':'' @ convert_unsigned_to_string n 10 False | None \<Rightarrow> [])" for p
  have port: "port p = port q \<longleftrightarrow> p = q" "port p = [] \<or> hd (port p) = CHR '':''" for p q
    unfolding port_def using port_text_inject [of p q] by (auto split: option.splits)
  obtain a b where schemes: "tuple_scheme s = Some a" "scheme_ok a" "tuple_scheme t = Some b" "scheme_ok b"
    and hosts: "domain_host_ok (tuple_host s)" "domain_host_ok (tuple_host t)"
    using assms(1,2) by (auto simp: tuple_ok_def)
  then have "a @ CHR '':'' # ''//'' @ serialize_host (tuple_host s) @ port (tuple_port s)
      = b @ CHR '':'' # ''//'' @ serialize_host (tuple_host t) @ port (tuple_port t)"
    using assms(3) by (simp add: port_def)
  then have "a = b" "serialize_host (tuple_host s) @ port (tuple_port s) = serialize_host (tuple_host t) @ port (tuple_port t)"
    using append_stop_inject [OF scheme_no_colon [OF schemes(2)] scheme_no_colon [OF schemes(4)]] by auto
  with serialize_host_port_inject [OF hosts _ port(2) port(2)] serialize_host_inject [OF hosts] port(1)
  show ?thesis using schemes by auto
qed

subsection \<open>Properties\<close>

text \<open>C32: same origin and same origin-domain are equivalence relations.\<close>

theorem origin_relations_are_equivalences: "equivp is_same_origin \<and> equivp is_same_origin_domain"
  by (intro conjI equivpI reflpI sympI transpI)
    (blast intro: same_origin.refl same_origin.sym same_origin.trans
      same_origin_domain.refl same_origin_domain.sym same_origin_domain.trans)+

text \<open>C31: two origins that are same origin are same site, whenever a site can be obtained for one.\<close>

theorem same_origin_implies_same_site:
  assumes "is_same_origin a b" "obtain_site ext a = Done s"
  shows "origins_are_same_site ext a b = Done True"
  using origins_are_same_site_eq [OF assms(2) same_origin_same_site [OF assms]] by simp

theorem same_origin_implies_same_site_witness:
  "origins_are_same_site reference_externals
     (Tuple \<lparr> tuple_scheme = Some ''http'', tuple_host = IPv4 1, tuple_port = None, tuple_domain = None \<rparr>)
     (Tuple \<lparr> tuple_scheme = Some ''http'', tuple_host = IPv4 1, tuple_port = None, tuple_domain = Some ''a'' \<rparr>)
   = Done True"
  by (rule same_origin_implies_same_site
    [where s = "Scheme_And_Host \<lparr> site_scheme = ''http'', site_host = IPv4 1 \<rparr>"]) simp_all

text \<open>C30: the serialization of an origin identifies it: tuple origins with a well-formed scheme, a host
  the parser returns for special schemes and a 16-bit port serialize alike exactly when they are the
  same origin.\<close>

theorem serialize_origin_identifies:
  assumes "tuple_ok s" "tuple_ok t"
  shows "serialize_origin (Tuple s) = serialize_origin (Tuple t) \<longleftrightarrow> is_same_origin (Tuple s) (Tuple t)"
  using serialize_origin_inject [OF assms] by auto

theorem serialize_origin_identifies_witness:
  "serialize_origin (Tuple \<lparr> tuple_scheme = Some ''http'', tuple_host = IPv4 1, tuple_port = Some 8080, tuple_domain = None \<rparr>)
   = serialize_origin (Tuple \<lparr> tuple_scheme = Some ''http'', tuple_host = IPv6 [0, 0, 0, 0, 0, 0, 0, 1],
       tuple_port = None, tuple_domain = None \<rparr>)
   \<longleftrightarrow> is_same_origin
     (Tuple \<lparr> tuple_scheme = Some ''http'', tuple_host = IPv4 1, tuple_port = Some 8080, tuple_domain = None \<rparr>)
     (Tuple \<lparr> tuple_scheme = Some ''http'', tuple_host = IPv6 [0, 0, 0, 0, 0, 0, 0, 1],
       tuple_port = None, tuple_domain = None \<rparr>)"
  by (rule serialize_origin_identifies)
    (simp_all add: tuple_ok_def scheme_ok_def domain_host_ok_def host_ok_def ipv6_ok_def char_class)

text \<open>C33: the hash of origins does not keep the contract of hash tables.  \<^verbatim>\<open>operator==\<close> is same origin,
  which ignores the domain, while \<^verbatim>\<open>Traits<Origin>::hash\<close> mixes the domain in: here are two equal keys
  with different hashes.\<close>

theorem origin_hash_breaks_contract:
  "\<exists>a b. is_same_origin a b \<and> origin_hash a \<noteq> origin_hash b"
proof -
  let ?o = "\<lambda>d. Tuple \<lparr> tuple_scheme = None, tuple_host = Name [], tuple_port = None, tuple_domain = d \<rparr>"
  have "string_hash_of ''a'' = 3392050242" "pair_int_hash 0 0 = 954888656"
    "pair_int_hash 954888656 3392050242 = 1057202421"
    by code_simp+
  then have "origin_hash (?o None) \<noteq> origin_hash (?o (Some ''a''))"
    by (simp add: string_hash_of_def [of "[]"])
  moreover have "is_same_origin (?o None) (?o (Some ''a''))" by simp
  ultimately show ?thesis by blast
qed

end
