(* ===== verification/URL_Record.thy ===== *)
theory URL_Record
  imports URL_Origin
begin

text \<open>
  The URL record: \<^verbatim>\<open>struct URL::Data\<close> and the operations of \<^verbatim>\<open>class URL\<close> in
  \<^verbatim>\<open>Libraries/LibURL/URL.h\<close> and \<^verbatim>\<open>Libraries/LibURL/URL.cpp\<close> that do not call the parser.  The record is
  a value: the reference counting of \<^verbatim>\<open>CopyOnWrite\<close> is not visible to its clients.  An index into an
  empty \<^verbatim>\<open>Vector\<close> fails its \<^verbatim>\<open>VERIFY\<close>.
\<close>

datatype blob_object = Blob_Object byte_string byte_string | MediaSource_Object

record blob_url_entry =
  entry_object :: blob_object
  entry_origin :: origin

record url =
  url_scheme :: byte_string
  url_username :: byte_string
  url_password :: byte_string
  url_host :: "host option"
  url_port :: "nat option"
  url_paths :: "byte_string list"
  url_query :: "byte_string option"
  url_fragment :: "byte_string option"
  url_has_an_opaque_path :: bool
  url_blob_url_entry :: "blob_url_entry option"

definition empty_url :: url where
  "empty_url = \<lparr> url_scheme = [], url_username = [], url_password = [], url_host = None, url_port = None,
     url_paths = [], url_query = None, url_fragment = None, url_has_an_opaque_path = False,
     url_blob_url_entry = None \<rparr>"

subsection \<open>Schemes\<close>

definition default_port_for_scheme :: "byte_string \<Rightarrow> nat option" where
  "default_port_for_scheme scheme =
     (if scheme = ''ftp'' then Some 21
      else if scheme = ''http'' then Some 80
      else if scheme = ''https'' then Some 443
      else if scheme = ''ws'' then Some 80
      else if scheme = ''wss'' then Some 443
      else if scheme = ''irc'' then Some 6667
      else if scheme = ''ircs'' then Some 6697
      else None)"

definition special_schemes :: "byte_string list" where
  "special_schemes = [''ftp'', ''file'', ''http'', ''https'', ''ws'', ''wss'']"

definition is_special_scheme :: "byte_string \<Rightarrow> bool" where
  "is_special_scheme scheme \<longleftrightarrow> List.member special_schemes scheme"

definition is_special :: "url \<Rightarrow> bool" where
  "is_special u \<longleftrightarrow> is_special_scheme (url_scheme u)"

subsection \<open>Getters\<close>

definition path_segment_at_index :: "url \<Rightarrow> nat \<Rightarrow> byte_string exec" where
  "path_segment_at_index u index =
     (if index < length (url_paths u) then percent_decode (url_paths u ! index) else Verify_failed)"

definition url_basename :: "url \<Rightarrow> byte_string exec" where
  "url_basename u = (if url_paths u = [] then Done [] else percent_decode (last (url_paths u)))"

definition port_or_default :: "url \<Rightarrow> nat" where
  "port_or_default u =
     (case url_port u of
        Some p \<Rightarrow> p
      | None \<Rightarrow> (case default_port_for_scheme (url_scheme u) of Some p \<Rightarrow> p | None \<Rightarrow> 0))"

definition includes_credentials :: "url \<Rightarrow> bool" where
  "includes_credentials u \<longleftrightarrow> url_username u \<noteq> [] \<or> url_password u \<noteq> []"

definition cannot_have_a_username_or_password_or_port :: "url \<Rightarrow> bool" where
  "cannot_have_a_username_or_password_or_port u \<longleftrightarrow>
     (case url_host u of None \<Rightarrow> True | Some h \<Rightarrow> is_empty_host h) \<or> url_scheme u = ''file''"

subsection \<open>Setters\<close>

definition set_scheme :: "byte_string \<Rightarrow> url \<Rightarrow> url" where
  "set_scheme scheme u = u \<lparr> url_scheme := scheme \<rparr>"

definition set_username :: "byte_string \<Rightarrow> url \<Rightarrow> url exec" where
  "set_username username u = exec_map (\<lambda>s. u \<lparr> url_username := s \<rparr>) (percent_encode username Userinfo False)"

definition set_password :: "byte_string \<Rightarrow> url \<Rightarrow> url exec" where
  "set_password password u = exec_map (\<lambda>s. u \<lparr> url_password := s \<rparr>) (percent_encode password Userinfo False)"

definition set_host :: "host \<Rightarrow> url \<Rightarrow> url" where
  "set_host h u = u \<lparr> url_host := Some h \<rparr>"

definition set_port :: "nat option \<Rightarrow> url \<Rightarrow> url" where
  "set_port port u =
     (if port = default_port_for_scheme (url_scheme u) then u \<lparr> url_port := None \<rparr>
      else u \<lparr> url_port := port \<rparr>)"

fun percent_encode_segments :: "byte_string list \<Rightarrow> byte_string list exec" where
  "percent_encode_segments [] = Done []"
| "percent_encode_segments (segment # segments) =
     exec_bind (percent_encode segment Path_Set False) (\<lambda>s.
       exec_map (\<lambda>ss. s # ss) (percent_encode_segments segments))"

definition set_paths :: "byte_string list \<Rightarrow> url \<Rightarrow> url exec" where
  "set_paths paths u = exec_map (\<lambda>ps. u \<lparr> url_paths := ps \<rparr>) (percent_encode_segments paths)"

definition set_raw_paths :: "byte_string list \<Rightarrow> url \<Rightarrow> url" where
  "set_raw_paths paths u = u \<lparr> url_paths := paths \<rparr>"

definition append_path :: "byte_string \<Rightarrow> url \<Rightarrow> url exec" where
  "append_path path u =
     exec_map (\<lambda>s. u \<lparr> url_paths := url_paths u @ [s] \<rparr>) (percent_encode path Path_Set False)"

definition append_slash :: "url \<Rightarrow> url" where
  "append_slash u = u \<lparr> url_paths := url_paths u @ [[]] \<rparr>"

definition set_query :: "byte_string option \<Rightarrow> url \<Rightarrow> url" where
  "set_query query u = u \<lparr> url_query := query \<rparr>"

definition set_fragment :: "byte_string option \<Rightarrow> url \<Rightarrow> url" where
  "set_fragment fragment u = u \<lparr> url_fragment := fragment \<rparr>"

definition set_has_an_opaque_path :: "bool \<Rightarrow> url \<Rightarrow> url" where
  "set_has_an_opaque_path v u = u \<lparr> url_has_an_opaque_path := v \<rparr>"

definition set_blob_url_entry :: "blob_url_entry option \<Rightarrow> url \<Rightarrow> url" where
  "set_blob_url_entry entry u = u \<lparr> url_blob_url_entry := entry \<rparr>"

definition about :: "byte_string \<Rightarrow> url" where
  "about path = empty_url \<lparr> url_scheme := ''about'', url_paths := [path], url_has_an_opaque_path := True \<rparr>"

definition create_with_data :: "byte_string \<Rightarrow> byte_string \<Rightarrow> bool \<Rightarrow> url exec" where
  "create_with_data mime_type payload is_base64 =
     (let u = set_scheme ''data'' (set_has_an_opaque_path True empty_url);
          builder = mime_type @ (if is_base64 then '';base64'' else []) @ '','' @ payload
      in set_paths [builder] u)"

subsection \<open>Serialization\<close>

definition serialized_host :: "url \<Rightarrow> byte_string exec" where
  "serialized_host u = (case url_host u of Some h \<Rightarrow> Done (serialize_host h) | None \<Rightarrow> Verify_failed)"

definition first_path :: "url \<Rightarrow> byte_string exec" where
  "first_path u = (case url_paths u of p # _ \<Rightarrow> Done p | [] \<Rightarrow> Verify_failed)"

definition path_segments_text :: "byte_string list \<Rightarrow> byte_string" where
  "path_segments_text paths = concat (map (\<lambda>segment. ''/'' @ segment) paths)"

definition serialize_path :: "url \<Rightarrow> byte_string exec" where
  "serialize_path u =
     (if url_has_an_opaque_path u then first_path u else Done (path_segments_text (url_paths u)))"

definition file_path :: "url \<Rightarrow> byte_string exec" where
  "file_path u = exec_bind (serialize_path u) percent_decode"

text \<open>The steps \<^verbatim>\<open>serialize\<close> and \<^verbatim>\<open>serialize_for_display\<close> share.\<close>

definition port_text :: "nat option \<Rightarrow> byte_string" where
  "port_text port = (case port of Some p \<Rightarrow> '':'' @ convert_unsigned_to_string p 10 False | None \<Rightarrow> [])"

definition path_text :: "url \<Rightarrow> byte_string exec" where
  "path_text u =
     (if url_has_an_opaque_path u then first_path u
      else Done ((if url_host u = None \<and> length (url_paths u) > 1 \<and> hd (url_paths u) = [] then ''/.'' else [])
                 @ path_segments_text (url_paths u)))"

definition query_text :: "url \<Rightarrow> byte_string" where
  "query_text u = (case url_query u of Some q \<Rightarrow> ''?'' @ q | None \<Rightarrow> [])"

definition fragment_text :: "url \<Rightarrow> byte_string" where
  "fragment_text u = (case url_fragment u of Some f \<Rightarrow> ''#'' @ f | None \<Rightarrow> [])"

definition credentials_text :: "url \<Rightarrow> byte_string" where
  "credentials_text u =
     (if includes_credentials u
      then url_username u @ (if url_password u \<noteq> [] then '':'' @ url_password u else []) @ ''@'' else [])"

definition serialize_url :: "bool \<Rightarrow> url \<Rightarrow> byte_string exec" where
  "serialize_url exclude_fragment u =
     exec_map (\<lambda>path.
         url_scheme u @ '':''
         @ (case url_host u of
              Some h \<Rightarrow> ''//'' @ credentials_text u @ serialize_host h @ port_text (url_port u)
            | None \<Rightarrow> [])
         @ path @ query_text u
         @ (if \<not> exclude_fragment then fragment_text u else []))
       (path_text u)"

definition serialize_for_display :: "url \<Rightarrow> byte_string exec" where
  "serialize_for_display u =
     exec_map (\<lambda>path.
         url_scheme u @ '':''
         @ (case url_host u of Some h \<Rightarrow> ''//'' @ serialize_host h @ port_text (url_port u) | None \<Rightarrow> [])
         @ path @ query_text u @ fragment_text u)
       (path_text u)"

definition url_equals :: "bool \<Rightarrow> url \<Rightarrow> url \<Rightarrow> bool exec" where
  "url_equals exclude_fragments a b =
     exec_bind (serialize_url exclude_fragments a) (\<lambda>s. exec_map (\<lambda>t. s = t) (serialize_url exclude_fragments b))"

end
