(* ===== verification/URL_Parser.thy ===== *)
theory URL_Parser
  imports URL_Record
begin

text \<open>
  The basic URL parser, \<^verbatim>\<open>Parser::basic_parse\<close> of \<^verbatim>\<open>Libraries/LibURL/Parser.cpp\<close>, and its helpers.

  The parser is a state machine.  Its local variables are the record \<open>parser\<close>; the iterator into
  the input is the string of bytes that are left, so \<^verbatim>\<open>iterator.done()\<close> is emptiness and the distance
  from the start is the difference of the lengths.  The arguments that do not change are the record
  \<open>environment\<close>.  There is one definition per \<^verbatim>\<open>case\<close> of the source's \<^verbatim>\<open>switch\<close>; each returns how the
  case ends: \<open>Continue\<close> is \<^verbatim>\<open>continue\<close> (the iterator is not advanced), \<open>Break\<close> is \<^verbatim>\<open>break\<close>,
  \<open>Return_Url\<close> is \<^verbatim>\<open>return *url\<close>, \<open>Return_Failure\<close> is \<^verbatim>\<open>return {}\<close> and \<open>Crash\<close> a failing \<^verbatim>\<open>VERIFY\<close>.
  \<^verbatim>\<open>report_validation_error\<close> only logs and is left out.
\<close>

datatype parser_state =
    SchemeStart | Scheme | NoScheme | SpecialRelativeOrAuthority | PathOrAuthority | Relative | RelativeSlash
  | SpecialAuthoritySlashes | SpecialAuthorityIgnoreSlashes | Authority | Host_State | Hostname | Port | File
  | FileSlash | FileHost | PathStart | Path_State | OpaquePath | Query_State | Fragment_State

record parser =
  the_url :: url
  buffer :: byte_string
  at_sign_seen :: bool
  inside_brackets :: bool
  password_token_seen :: bool
  state :: parser_state
  iterator :: byte_string
  encoder_of :: encoder

record environment =
  externals_of :: externals
  input_of :: byte_string
  base_url :: "url option"
  state_override :: "parser_state option"

datatype step_result = Continue parser | Break parser | Return_Url parser | Return_Failure parser | Crash

subsection \<open>Windows drive letters and dot segments\<close>

definition starts_with_windows_drive_letter :: "byte_string \<Rightarrow> bool" where
  "starts_with_windows_drive_letter input \<longleftrightarrow>
     (if length input < 2 then False
      else if \<not> is_ascii_alpha (cp (input ! 0)) \<or> \<not> (input ! 1 = CHR '':'' \<or> input ! 1 = CHR ''|'') then False
      else if length input = 2 then True
      else contains_char (''/'' @ [CHR 0x5C] @ ''?#'') (input ! 2))"

definition is_windows_drive_letter :: "byte_string \<Rightarrow> bool" where
  "is_windows_drive_letter input \<longleftrightarrow>
     length input = 2 \<and> is_ascii_alpha (cp (input ! 0)) \<and> (input ! 1 = CHR '':'' \<or> input ! 1 = CHR ''|'')"

definition is_normalized_windows_drive_letter :: "byte_string \<Rightarrow> bool" where
  "is_normalized_windows_drive_letter input \<longleftrightarrow>
     length input = 2 \<and> is_ascii_alpha (cp (input ! 0)) \<and> input ! 1 = CHR '':''"

definition is_single_dot_path_segment :: "byte_string \<Rightarrow> bool" where
  "is_single_dot_path_segment input \<longleftrightarrow> input = ''.'' \<or> equals_ignoring_ascii_case input ''%2e''"

definition is_double_dot_path_segment :: "byte_string \<Rightarrow> bool" where
  "is_double_dot_path_segment input \<longleftrightarrow>
     input = ''..'' \<or> equals_ignoring_ascii_case input ''.%2e'' \<or> equals_ignoring_ascii_case input ''%2e.''
     \<or> equals_ignoring_ascii_case input ''%2e%2e''"

definition shorten_urls_path :: "url \<Rightarrow> url exec" where
  "shorten_urls_path u =
     (if url_has_an_opaque_path u then Verify_failed
      else if url_scheme u = ''file'' \<and> length (url_paths u) = 1
        \<and> is_normalized_windows_drive_letter (url_paths u ! 0) then Done u
      else if url_paths u \<noteq> [] then Done (u \<lparr> url_paths := butlast (url_paths u) \<rparr>)
      else Done u)"

subsection \<open>The input\<close>

definition contains_ascii_tab_or_newline :: "byte_string \<Rightarrow> bool" where
  "contains_ascii_tab_or_newline input \<longleftrightarrow>
     list_ex (\<lambda>c. c = CHR 0x09 \<or> c = CHR 0x0A \<or> c = CHR 0x0D) input"

definition remove_ascii_tab_or_newline :: "byte_string \<Rightarrow> byte_string" where
  "remove_ascii_tab_or_newline input = filter (\<lambda>c. c \<noteq> CHR 0x09 \<and> c \<noteq> CHR 0x0A \<and> c \<noteq> CHR 0x0D) input"

definition from_utf8_with_replacement_character :: "externals \<Rightarrow> byte_string \<Rightarrow> byte_string" where
  "from_utf8_with_replacement_character ext view =
     (if validate_utf8 ext view then view
      else foldl (\<lambda>builder c. if is_unicode_surrogate c then append_code_point builder REPLACEMENT_CODE_POINT
                              else append_code_point builder c) [] (code_points view))"

definition end_of_file :: code_point where
  "end_of_file = 0xFFFFFFFF"

fun current_code_point :: "byte_string \<Rightarrow> code_point" where
  "current_code_point [] = end_of_file"
| "current_code_point (b # bs) = iterator_deref b bs"

fun advance_iterator :: "byte_string \<Rightarrow> byte_string exec" where
  "advance_iterator [] = Verify_failed"
| "advance_iterator (b # bs) = Done (drop (underlying_code_point_length_in_bytes b bs) (b # bs))"

fun get_remaining :: "byte_string \<Rightarrow> byte_string exec" where
  "get_remaining [] = Verify_failed"
| "get_remaining (b # bs) = Done (drop (underlying_code_point_length_in_bytes b bs) (b # bs))"

fun iterator_at_byte_offset_from :: "nat \<Rightarrow> byte_string \<Rightarrow> nat \<Rightarrow> byte_string" where
  "iterator_at_byte_offset_from current_offset [] byte_offset = []"
| "iterator_at_byte_offset_from current_offset (b # bs) byte_offset =
     (if current_offset \<ge> byte_offset then b # bs
      else let n = underlying_code_point_length_in_bytes b bs
           in iterator_at_byte_offset_from (current_offset + n) (drop (n - 1) bs) byte_offset)"

definition iterator_at_byte_offset :: "byte_string \<Rightarrow> nat \<Rightarrow> byte_string" where
  "iterator_at_byte_offset view byte_offset = iterator_at_byte_offset_from 0 view byte_offset"

definition size_t_minus :: "nat \<Rightarrow> nat \<Rightarrow> nat" where
  "size_t_minus a b = (a + (2 ^ 64 - b mod 2 ^ 64)) mod 2 ^ 64"

subsection \<open>Small steps on the parser record\<close>

definition on_url :: "(url \<Rightarrow> url) \<Rightarrow> parser \<Rightarrow> parser" where
  "on_url f p = p \<lparr> the_url := f (the_url p) \<rparr>"

definition clear_buffer :: "parser \<Rightarrow> parser" where
  "clear_buffer p = p \<lparr> buffer := [] \<rparr>"

definition goto :: "parser_state \<Rightarrow> parser \<Rightarrow> parser" where
  "goto s p = p \<lparr> state := s \<rparr>"

definition append_to_buffer :: "byte_string \<Rightarrow> parser \<Rightarrow> parser" where
  "append_to_buffer s p = p \<lparr> buffer := buffer p @ s \<rparr>"

definition push_code_point :: "code_point \<Rightarrow> parser \<Rightarrow> parser" where
  "push_code_point c p = p \<lparr> buffer := append_code_point (buffer p) c \<rparr>"

fun or_crash :: "'a exec \<Rightarrow> ('a \<Rightarrow> step_result) \<Rightarrow> step_result" where
  "or_crash (Done x) k = k x"
| "or_crash Verify_failed k = Crash"

fun with_iterator :: "byte_string exec \<Rightarrow> parser \<Rightarrow> step_result" where
  "with_iterator (Done rest) p = Break (p \<lparr> iterator := rest \<rparr>)"
| "with_iterator Verify_failed p = Crash"

subsection \<open>The states\<close>

definition scheme_start_state :: "environment \<Rightarrow> code_point \<Rightarrow> parser \<Rightarrow> step_result" where
  "scheme_start_state env c p =
     (if is_ascii_alpha c then Break (goto Scheme (append_to_buffer [char_of (to_ascii_lowercase c)] p))
      else if state_override env = None then Continue (goto NoScheme p)
      else Return_Failure p)"

definition scheme_state_colon :: "environment \<Rightarrow> parser \<Rightarrow> step_result" where
  "scheme_state_colon env p =
     (let u = the_url p; b = buffer p
      in if state_override env \<noteq> None
            \<and> (is_special_scheme (url_scheme u) \<and> \<not> is_special_scheme b
               \<or> \<not> is_special_scheme (url_scheme u) \<and> is_special_scheme b
               \<or> (includes_credentials u \<or> url_port u \<noteq> None) \<and> b = ''file''
               \<or> url_scheme u = ''file'' \<and> (case url_host u of Some h \<Rightarrow> is_empty_host h | None \<Rightarrow> False))
         then Return_Url p
         else
           let p = on_url (\<lambda>u. u \<lparr> url_scheme := b \<rparr>) p
           in if state_override env \<noteq> None
              then Return_Url (if url_port (the_url p) = default_port_for_scheme b
                     then on_url (\<lambda>u. u \<lparr> url_port := None \<rparr>) p else p)
              else
                let p = clear_buffer p
                in if b = ''file'' then
                     or_crash (get_remaining (iterator p)) (\<lambda>_. Break (goto File p))
                   else if is_special (the_url p)
                     \<and> (case base_url env of Some base \<Rightarrow> url_scheme base = b | None \<Rightarrow> False) then
                     (if is_special (the (base_url env)) then Break (goto SpecialRelativeOrAuthority p) else Crash)
                   else if is_special (the_url p) then Break (goto SpecialAuthoritySlashes p)
                   else or_crash (get_remaining (iterator p)) (\<lambda>remaining.
                     if starts_with remaining ''/'' then
                       with_iterator (advance_iterator (iterator p)) (goto PathOrAuthority p)
                     else Break (goto OpaquePath
                       (on_url (\<lambda>u. append_slash (u \<lparr> url_has_an_opaque_path := True \<rparr>)) p))))"

definition scheme_state :: "environment \<Rightarrow> code_point \<Rightarrow> parser \<Rightarrow> step_result" where
  "scheme_state env c p =
     (if is_ascii_alphanumeric c \<or> c = cp CHR ''+'' \<or> c = cp CHR ''-'' \<or> c = cp CHR ''.'' then
        Break (append_to_buffer [char_of (to_ascii_lowercase c)] p)
      else if c = cp CHR '':'' then scheme_state_colon env p
      else if state_override env = None then
        Continue (goto NoScheme (clear_buffer p) \<lparr> iterator := input_of env \<rparr>)
      else Return_Failure p)"

definition no_scheme_state :: "environment \<Rightarrow> code_point \<Rightarrow> parser \<Rightarrow> step_result" where
  "no_scheme_state env c p =
     (case base_url env of
        None \<Rightarrow> Return_Failure p
      | Some base \<Rightarrow>
          if url_has_an_opaque_path base \<and> c \<noteq> cp CHR ''#'' then Return_Failure p
          else if url_has_an_opaque_path base \<and> c = cp CHR ''#'' then
            Break (goto Fragment_State (on_url (\<lambda>u. u \<lparr> url_scheme := url_scheme base,
              url_paths := url_paths base, url_query := url_query base, url_fragment := Some [],
              url_has_an_opaque_path := True \<rparr>) p))
          else if url_scheme base \<noteq> ''file'' then Continue (goto Relative p)
          else Continue (goto File p))"

definition special_relative_or_authority_state :: "environment \<Rightarrow> code_point \<Rightarrow> parser \<Rightarrow> step_result" where
  "special_relative_or_authority_state env c p =
     (if c = cp CHR ''/'' then
        or_crash (get_remaining (iterator p)) (\<lambda>remaining.
          if starts_with remaining ''/'' then
            with_iterator (advance_iterator (iterator p)) (goto SpecialAuthorityIgnoreSlashes p)
          else Continue (goto Relative p))
      else Continue (goto Relative p))"

definition path_or_authority_state :: "environment \<Rightarrow> code_point \<Rightarrow> parser \<Rightarrow> step_result" where
  "path_or_authority_state env c p =
     (if c = cp CHR ''/'' then Break (goto Authority p) else Continue (goto Path_State p))"

definition relative_state :: "environment \<Rightarrow> code_point \<Rightarrow> parser \<Rightarrow> step_result" where
  "relative_state env c p =
     (case base_url env of
        None \<Rightarrow> Crash
      | Some base \<Rightarrow>
          if url_scheme base = ''file'' then Crash
          else
            let p = on_url (\<lambda>u. u \<lparr> url_scheme := url_scheme base \<rparr>) p
            in if c = cp CHR ''/'' then Break (goto RelativeSlash p)
               else if is_special (the_url p) \<and> c = 0x5C then Break (goto RelativeSlash p)
               else
                 let p = on_url (\<lambda>u. u \<lparr> url_username := url_username base, url_password := url_password base,
                           url_host := url_host base, url_port := url_port base, url_paths := url_paths base,
                           url_query := url_query base \<rparr>) p
                 in if c = cp CHR ''?'' then
                      Break (goto Query_State (on_url (\<lambda>u. u \<lparr> url_query := Some [] \<rparr>) p))
                    else if c = cp CHR ''#'' then
                      Break (goto Fragment_State (on_url (\<lambda>u. u \<lparr> url_fragment := Some [] \<rparr>) p))
                    else if c \<noteq> end_of_file then
                      or_crash (shorten_urls_path ((the_url p) \<lparr> url_query := None \<rparr>)) (\<lambda>u.
                        Continue (goto Path_State (p \<lparr> the_url := u \<rparr>)))
                    else Break p)"

definition relative_slash_state :: "environment \<Rightarrow> code_point \<Rightarrow> parser \<Rightarrow> step_result" where
  "relative_slash_state env c p =
     (if is_special (the_url p) \<and> (c = cp CHR ''/'' \<or> c = 0x5C) then
        Break (goto SpecialAuthorityIgnoreSlashes p)
      else if c = cp CHR ''/'' then Break (goto Authority p)
      else case base_url env of
        None \<Rightarrow> Crash
      | Some base \<Rightarrow>
          Continue (goto Path_State (on_url (\<lambda>u. u \<lparr> url_username := url_username base,
            url_password := url_password base, url_host := url_host base, url_port := url_port base \<rparr>) p)))"

definition special_authority_slashes_state :: "environment \<Rightarrow> code_point \<Rightarrow> parser \<Rightarrow> step_result" where
  "special_authority_slashes_state env c p =
     (if c = cp CHR ''/'' then
        or_crash (get_remaining (iterator p)) (\<lambda>remaining.
          if starts_with remaining ''/'' then
            with_iterator (advance_iterator (iterator p)) (goto SpecialAuthorityIgnoreSlashes p)
          else Continue (goto SpecialAuthorityIgnoreSlashes p))
      else Continue (goto SpecialAuthorityIgnoreSlashes p))"

definition special_authority_ignore_slashes_state :: "environment \<Rightarrow> code_point \<Rightarrow> parser \<Rightarrow> step_result" where
  "special_authority_ignore_slashes_state env c p =
     (if c \<noteq> cp CHR ''/'' \<and> c \<noteq> 0x5C then Continue (goto Authority p) else Break p)"

text \<open>The loop over the buffer when an \<open>@\<close> is read: each code point goes to the username or, after
  the first colon, to the password.\<close>

fun split_credentials ::
  "url \<Rightarrow> bool \<Rightarrow> byte_string \<Rightarrow> byte_string \<Rightarrow> code_point list \<Rightarrow> (bool \<times> byte_string \<times> byte_string) exec" where
  "split_credentials u seen username_builder password_builder [] = Done (seen, username_builder, password_builder)"
| "split_credentials u seen username_builder password_builder (c # cs) =
     (if c = cp CHR '':'' \<and> \<not> seen then split_credentials u True username_builder password_builder cs
      else if seen then
        (case append_percent_encoded_if_necessary
            (if password_builder = [] then url_password u else password_builder) c Userinfo of
           Verify_failed \<Rightarrow> Verify_failed
         | Done pb \<Rightarrow> split_credentials u seen username_builder pb cs)
      else
        (case append_percent_encoded_if_necessary
            (if username_builder = [] then url_username u else username_builder) c Userinfo of
           Verify_failed \<Rightarrow> Verify_failed
         | Done ub \<Rightarrow> split_credentials u seen ub password_builder cs))"

definition authority_at_sign :: "parser \<Rightarrow> step_result" where
  "authority_at_sign p =
     (let b = (if at_sign_seen p then ''%40'' @ buffer p else buffer p); u = the_url p
      in or_crash (split_credentials u (password_token_seen p) [] [] (code_points b)) (\<lambda>(seen, ub, pb).
           let u = (if length ub > length (url_username u) then u \<lparr> url_username := ub \<rparr> else u);
               u = (if length pb > length (url_password u) then u \<lparr> url_password := pb \<rparr> else u)
           in Break (p \<lparr> the_url := u, buffer := [], at_sign_seen := True, password_token_seen := seen \<rparr>)))"

definition ends_authority :: "url \<Rightarrow> code_point \<Rightarrow> bool" where
  "ends_authority u c \<longleftrightarrow>
     (c = end_of_file \<or> c = cp CHR ''/'' \<or> c = cp CHR ''?'' \<or> c = cp CHR ''#'') \<or> (is_special u \<and> c = 0x5C)"

definition authority_state :: "environment \<Rightarrow> code_point \<Rightarrow> parser \<Rightarrow> step_result" where
  "authority_state env c p =
     (if c = cp CHR ''@'' then authority_at_sign p
      else if ends_authority (the_url p) c then
        (if at_sign_seen p \<and> buffer p = [] then Return_Failure p
         else
           let offset = length (input_of env) - length (iterator p);
               target = size_t_minus (size_t_minus offset (length (buffer p))) 1
           in Break (goto Host_State (clear_buffer p) \<lparr> iterator := iterator_at_byte_offset (input_of env) target \<rparr>))
      else Break (push_code_point c p))"

definition host_state_colon :: "environment \<Rightarrow> parser \<Rightarrow> step_result" where
  "host_state_colon env p =
     (if buffer p = [] then Return_Failure p
      else if state_override env = Some Hostname then Return_Failure p
      else or_crash (parse_host (externals_of env) (buffer p) (\<not> is_special (the_url p))) (\<lambda>host.
        case host of
          None \<Rightarrow> Return_Failure p
        | Some h \<Rightarrow> Break (goto Port (clear_buffer (on_url (\<lambda>u. u \<lparr> url_host := Some h \<rparr>) p)))))"

definition host_state_end :: "environment \<Rightarrow> parser \<Rightarrow> step_result" where
  "host_state_end env p =
     (if is_special (the_url p) \<and> buffer p = [] then Return_Failure p
      else if state_override env \<noteq> None \<and> buffer p = []
        \<and> (includes_credentials (the_url p) \<or> url_port (the_url p) \<noteq> None) then Return_Failure p
      else or_crash (parse_host (externals_of env) (buffer p) (\<not> is_special (the_url p))) (\<lambda>host.
        case host of
          None \<Rightarrow> Return_Failure p
        | Some h \<Rightarrow>
            let p = goto Port (clear_buffer (on_url (\<lambda>u. u \<lparr> url_host := Some h \<rparr>) p))
            in if state_override env \<noteq> None then Return_Url p else Continue p))"

definition host_state :: "environment \<Rightarrow> code_point \<Rightarrow> parser \<Rightarrow> step_result" where
  "host_state env c p =
     (if state_override env \<noteq> None \<and> url_scheme (the_url p) = ''file'' then Continue (goto FileHost p)
      else if c = cp CHR '':'' \<and> \<not> inside_brackets p then host_state_colon env p
      else if ends_authority (the_url p) c then host_state_end env p
      else
        let p = (if c = cp CHR ''['' then p \<lparr> inside_brackets := True \<rparr>
                 else if c = cp CHR '']'' then p \<lparr> inside_brackets := False \<rparr> else p)
        in Break (push_code_point c p))"

definition port_state :: "environment \<Rightarrow> code_point \<Rightarrow> parser \<Rightarrow> step_result" where
  "port_state env c p =
     (if is_ascii_digit c then Break (push_code_point c p)
      else if ends_authority (the_url p) c \<or> state_override env \<noteq> None then
        (if buffer p \<noteq> [] then
           (case parse_number (externals_of env) 16 (buffer p) 10 of
              None \<Rightarrow> Return_Failure p
            | Some port \<Rightarrow>
                let p = clear_buffer (on_url (\<lambda>u. u \<lparr> url_port :=
                          (if Some port = default_port_for_scheme (url_scheme u) then None else Some port) \<rparr>) p)
                in if state_override env \<noteq> None then Return_Url p else Continue (goto PathStart p))
         else if state_override env \<noteq> None then Return_Failure p
         else Continue (goto PathStart p))
      else Return_Failure p)"

definition file_state :: "environment \<Rightarrow> code_point \<Rightarrow> parser \<Rightarrow> step_result" where
  "file_state env c p =
     (let p = on_url (\<lambda>u. u \<lparr> url_scheme := ''file'', url_host := Some (Name []) \<rparr>) p
      in if c = cp CHR ''/'' \<or> c = 0x5C then Break (goto FileSlash p)
         else case base_url env of
           Some base \<Rightarrow>
             if url_scheme base = ''file'' then
               let p = on_url (\<lambda>u. u \<lparr> url_host := url_host base, url_paths := url_paths base,
                         url_query := url_query base \<rparr>) p
               in if c = cp CHR ''?'' then
                    Break (goto Query_State (on_url (\<lambda>u. u \<lparr> url_query := Some [] \<rparr>) p))
                  else if c = cp CHR ''#'' then
                    Break (goto Fragment_State (on_url (\<lambda>u. u \<lparr> url_fragment := Some [] \<rparr>) p))
                  else if c \<noteq> end_of_file then
                    let u = (the_url p) \<lparr> url_query := None \<rparr>
                    in if \<not> starts_with_windows_drive_letter (iterator p) then
                         or_crash (shorten_urls_path u) (\<lambda>u. Continue (goto Path_State (p \<lparr> the_url := u \<rparr>)))
                       else Continue (goto Path_State (p \<lparr> the_url := u \<lparr> url_paths := [] \<rparr> \<rparr>))
                  else Break p
             else Continue (goto Path_State p)
         | None \<Rightarrow> Continue (goto Path_State p))"

definition file_slash_state :: "environment \<Rightarrow> code_point \<Rightarrow> parser \<Rightarrow> step_result" where
  "file_slash_state env c p =
     (if c = cp CHR ''/'' \<or> c = 0x5C then Break (goto FileHost p)
      else case base_url env of
        Some base \<Rightarrow>
          if url_scheme base = ''file'' then
            let p = on_url (\<lambda>u. u \<lparr> url_host := url_host base \<rparr>) p
            in if \<not> starts_with_windows_drive_letter (iterator p) then
                 or_crash (first_path base) (\<lambda>first.
                   Continue (goto Path_State
                     (if is_normalized_windows_drive_letter first
                      then on_url (\<lambda>u. u \<lparr> url_paths := url_paths u @ [first] \<rparr>) p else p)))
               else Continue (goto Path_State p)
          else Continue (goto Path_State p)
      | None \<Rightarrow> Continue (goto Path_State p))"

definition file_host_state :: "environment \<Rightarrow> code_point \<Rightarrow> parser \<Rightarrow> step_result" where
  "file_host_state env c p =
     (if c = end_of_file \<or> c = cp CHR ''/'' \<or> c = 0x5C \<or> c = cp CHR ''?'' \<or> c = cp CHR ''#'' then
        (if state_override env = None \<and> is_windows_drive_letter (buffer p) then Continue (goto Path_State p)
         else if buffer p = [] then
           let p = on_url (\<lambda>u. u \<lparr> url_host := Some (Name []) \<rparr>) p
           in if state_override env \<noteq> None then Return_Url p else Continue (goto PathStart p)
         else or_crash (parse_host (externals_of env) (buffer p) (\<not> is_special (the_url p))) (\<lambda>host.
           case host of
             None \<Rightarrow> Return_Failure p
           | Some h \<Rightarrow>
               let p = on_url (\<lambda>u. u \<lparr> url_host := Some (if h = Name ''localhost'' then Name [] else h) \<rparr>) p
               in if state_override env \<noteq> None then Return_Url p
                  else Continue (goto PathStart (clear_buffer p))))
      else Break (push_code_point c p))"

definition path_start_state :: "environment \<Rightarrow> code_point \<Rightarrow> parser \<Rightarrow> step_result" where
  "path_start_state env c p =
     (if is_special (the_url p) then
        (if c \<noteq> cp CHR ''/'' \<and> c \<noteq> 0x5C then Continue (goto Path_State p) else Break (goto Path_State p))
      else if state_override env = None \<and> c = cp CHR ''?'' then
        Break (goto Query_State (on_url (\<lambda>u. u \<lparr> url_query := Some [] \<rparr>) p))
      else if state_override env = None \<and> c = cp CHR ''#'' then
        Break (goto Fragment_State (on_url (\<lambda>u. u \<lparr> url_fragment := Some [] \<rparr>) p))
      else if c \<noteq> end_of_file then
        (if c \<noteq> cp CHR ''/'' then Continue (goto Path_State p) else Break (goto Path_State p))
      else if state_override env \<noteq> None \<and> url_host (the_url p) = None then Break (on_url append_slash p)
      else Break p)"

definition slash_ends_segment :: "url \<Rightarrow> code_point \<Rightarrow> bool" where
  "slash_ends_segment u c \<longleftrightarrow> c = cp CHR ''/'' \<or> (is_special u \<and> c = 0x5C)"

definition finish_segment :: "code_point \<Rightarrow> byte_string \<Rightarrow> url \<Rightarrow> url exec" where
  "finish_segment c b u =
     (if is_double_dot_path_segment b then
        exec_map (\<lambda>u. if \<not> slash_ends_segment u c then append_slash u else u) (shorten_urls_path u)
      else if is_single_dot_path_segment b \<and> \<not> slash_ends_segment u c then Done (append_slash u)
      else if \<not> is_single_dot_path_segment b then
        let b = (if url_scheme u = ''file'' \<and> url_paths u = [] \<and> is_windows_drive_letter b
                 then [b ! 0, CHR '':''] else b)
        in Done (u \<lparr> url_paths := url_paths u @ [b] \<rparr>)
      else Done u)"

definition path_state :: "environment \<Rightarrow> code_point \<Rightarrow> parser \<Rightarrow> step_result" where
  "path_state env c p =
     (if c = end_of_file \<or> slash_ends_segment (the_url p) c
         \<or> state_override env = None \<and> (c = cp CHR ''?'' \<or> c = cp CHR ''#'') then
        or_crash (finish_segment c (buffer p) (the_url p)) (\<lambda>u.
          let p = clear_buffer (p \<lparr> the_url := u \<rparr>)
          in if c = cp CHR ''?'' then
               Break (goto Query_State (on_url (\<lambda>u. u \<lparr> url_query := Some [] \<rparr>) p))
             else if c = cp CHR ''#'' then
               Break (goto Fragment_State (on_url (\<lambda>u. u \<lparr> url_fragment := Some [] \<rparr>) p))
             else Break p)
      else or_crash (append_percent_encoded_if_necessary (buffer p) c Path_Set) (\<lambda>b.
        Break (p \<lparr> buffer := b \<rparr>)))"

definition opaque_path_state :: "environment \<Rightarrow> code_point \<Rightarrow> parser \<Rightarrow> step_result" where
  "opaque_path_state env c p =
     (if url_paths (the_url p) \<noteq> [[]] then Crash
      else if c = cp CHR ''?'' then
        Break (goto Query_State (clear_buffer
          (on_url (\<lambda>u. u \<lparr> url_paths := [buffer p], url_query := Some [] \<rparr>) p)))
      else if c = cp CHR ''#'' then
        Break (goto Fragment_State (clear_buffer
          (on_url (\<lambda>u. u \<lparr> url_paths := [buffer p], url_fragment := Some [] \<rparr>) p)))
      else if c = cp CHR '' '' then
        or_crash (get_remaining (iterator p)) (\<lambda>remaining.
          if starts_with_char remaining CHR ''?'' \<or> starts_with_char remaining CHR ''#''
          then Break (append_to_buffer ''%20'' p) else Break (append_to_buffer '' '' p))
      else if c \<noteq> end_of_file then
        or_crash (append_percent_encoded_if_necessary (buffer p) c C0Control) (\<lambda>b. Break (p \<lparr> buffer := b \<rparr>))
      else Break (clear_buffer (on_url (\<lambda>u. u \<lparr> url_paths := [buffer p] \<rparr>) p)))"

definition query_state :: "environment \<Rightarrow> code_point \<Rightarrow> parser \<Rightarrow> step_result" where
  "query_state env c p =
     (let u = the_url p;
          p = (if \<not> is_special u \<or> url_scheme u = ''ws'' \<or> url_scheme u = ''wss''
               then p \<lparr> encoder_of := utf8_encoder \<rparr> else p)
      in if state_override env = None \<and> c = cp CHR ''#'' \<or> c = end_of_file then
           let query_percent_encode_set = (if is_special u then SpecialQuery else Query_Set);
               p = clear_buffer (on_url (\<lambda>u. u \<lparr> url_query := Some
                     (percent_encode_after_encoding (encoder_of p) (buffer p) query_percent_encode_set False) \<rparr>) p)
           in if c = cp CHR ''#'' then
                Break (goto Fragment_State (on_url (\<lambda>u. u \<lparr> url_fragment := Some [] \<rparr>) p))
              else Break p
         else Break (push_code_point c p))"

definition fragment_state :: "environment \<Rightarrow> code_point \<Rightarrow> parser \<Rightarrow> step_result" where
  "fragment_state env c p =
     (if c \<noteq> end_of_file then Break (push_code_point c p)
      else Break (clear_buffer (on_url (\<lambda>u. u \<lparr> url_fragment := Some
        (percent_encode_after_encoding utf8_encoder (buffer p) Fragment_Set False) \<rparr>) p)))"

fun state_handler :: "parser_state \<Rightarrow> environment \<Rightarrow> code_point \<Rightarrow> parser \<Rightarrow> step_result" where
  "state_handler SchemeStart = scheme_start_state"
| "state_handler Scheme = scheme_state"
| "state_handler NoScheme = no_scheme_state"
| "state_handler SpecialRelativeOrAuthority = special_relative_or_authority_state"
| "state_handler PathOrAuthority = path_or_authority_state"
| "state_handler Relative = relative_state"
| "state_handler RelativeSlash = relative_slash_state"
| "state_handler SpecialAuthoritySlashes = special_authority_slashes_state"
| "state_handler SpecialAuthorityIgnoreSlashes = special_authority_ignore_slashes_state"
| "state_handler Authority = authority_state"
| "state_handler Host_State = host_state"
| "state_handler Hostname = host_state"
| "state_handler Port = port_state"
| "state_handler File = file_state"
| "state_handler FileSlash = file_slash_state"
| "state_handler FileHost = file_host_state"
| "state_handler PathStart = path_start_state"
| "state_handler Path_State = path_state"
| "state_handler OpaquePath = opaque_path_state"
| "state_handler Query_State = query_state"
| "state_handler Fragment_State = fragment_state"

definition parser_step :: "environment \<Rightarrow> parser \<Rightarrow> step_result" where
  "parser_step env p = state_handler (state p) env (current_code_point (iterator p)) p"

subsection \<open>The loop\<close>

text \<open>
  Every step lowers the rank of the state, or keeps the state and the iterator, which the end of the
  loop then advances: so the loop ends.
\<close>

fun rank :: "parser_state \<Rightarrow> nat" where
  "rank SchemeStart = 20"
| "rank Scheme = 19"
| "rank NoScheme = 18"
| "rank SpecialRelativeOrAuthority = 17"
| "rank PathOrAuthority = 17"
| "rank Relative = 16"
| "rank RelativeSlash = 15"
| "rank SpecialAuthoritySlashes = 14"
| "rank SpecialAuthorityIgnoreSlashes = 13"
| "rank Authority = 12"
| "rank Host_State = 11"
| "rank Hostname = 11"
| "rank Port = 10"
| "rank File = 9"
| "rank FileSlash = 8"
| "rank FileHost = 7"
| "rank PathStart = 6"
| "rank Path_State = 5"
| "rank OpaquePath = 4"
| "rank Query_State = 3"
| "rank Fragment_State = 2"

lemma parser_edit_simps [simp]:
  "state (on_url f p) = state p" "iterator (on_url f p) = iterator p"
  "state (clear_buffer p) = state p" "iterator (clear_buffer p) = iterator p"
  "state (goto s p) = s" "iterator (goto s p) = iterator p"
  "state (append_to_buffer b p) = state p" "iterator (append_to_buffer b p) = iterator p"
  "state (push_code_point c p) = state p" "iterator (push_code_point c p) = iterator p"
  "the_url (on_url f p) = f (the_url p)" "the_url (clear_buffer p) = the_url p" "the_url (goto s p) = the_url p"
  "the_url (append_to_buffer b p) = the_url p" "the_url (push_code_point c p) = the_url p"
  "buffer (on_url f p) = buffer p" "buffer (clear_buffer p) = []" "buffer (goto s p) = buffer p"
  "buffer (append_to_buffer b p) = buffer p @ b" "buffer (push_code_point c p) = append_code_point (buffer p) c"
  by (simp_all add: on_url_def clear_buffer_def goto_def append_to_buffer_def push_code_point_def)

fun step_cases ::
  "(parser \<Rightarrow> bool) \<Rightarrow> (parser \<Rightarrow> bool) \<Rightarrow> (parser \<Rightarrow> bool) \<Rightarrow> bool \<Rightarrow> step_result \<Rightarrow> bool" where
  "step_cases C B R X (Continue q) \<longleftrightarrow> C q"
| "step_cases C B R X (Break q) \<longleftrightarrow> B q"
| "step_cases C B R X (Return_Url q) \<longleftrightarrow> R q"
| "step_cases C B R X (Return_Failure q) \<longleftrightarrow> True"
| "step_cases C B R X Crash \<longleftrightarrow> X"

lemma step_cases_or_crash [simp]:
  "step_cases C B R X (or_crash m k) \<longleftrightarrow> (case m of Done x \<Rightarrow> step_cases C B R X (k x) | Verify_failed \<Rightarrow> X)"
  by (cases m) simp_all

lemma step_cases_with_iterator [simp]:
  "step_cases C B R X (with_iterator m p) \<longleftrightarrow> (case m of Done rest \<Rightarrow> B (p \<lparr> iterator := rest \<rparr>) | Verify_failed \<Rightarrow> X)"
  by (cases m) simp_all

definition iterator_within :: "environment \<Rightarrow> parser \<Rightarrow> bool" where
  "iterator_within env p \<longleftrightarrow> length (iterator p) \<le> length (input_of env)"

definition progress :: "environment \<Rightarrow> parser \<Rightarrow> step_result \<Rightarrow> bool" where
  "progress env p = step_cases
     (\<lambda>q. rank (state q) < rank (state p) \<and> (iterator_within env p \<longrightarrow> iterator_within env q))
     (\<lambda>q. rank (state q) < rank (state p) \<and> (iterator_within env p \<longrightarrow> iterator_within env q)
        \<or> state q = state p \<and> iterator q = iterator p) (\<lambda>q. True) True"

lemmas step_splits = option.splits prod.splits exec.splits

lemma underlying_length_positive: "0 < underlying_code_point_length_in_bytes b bs"
  by (auto simp: underlying_code_point_length_in_bytes_def decode_leading_byte_eq split: option.splits if_splits)

lemma advance_iterator_shorter: "advance_iterator s = Done rest \<Longrightarrow> length rest < length s"
  using underlying_length_positive by (cases s) (auto intro: diff_less)

lemma iterator_at_byte_offset_from_shorter:
  "length (iterator_at_byte_offset_from k s n) \<le> length s"
proof (induction k s n rule: iterator_at_byte_offset_from.induct)
  case (2 k b bs n)
  then show ?case by (auto simp: Let_def intro: le_trans le_SucI)
qed simp

lemma iterator_at_byte_offset_shorter [simp]: "length (iterator_at_byte_offset s n) \<le> length s"
  by (simp add: iterator_at_byte_offset_def iterator_at_byte_offset_from_shorter)

lemma advance_iterator_within:
  "\<lbrakk> advance_iterator s = Done rest; length s \<le> n \<rbrakk> \<Longrightarrow> length rest \<le> n"
  using advance_iterator_shorter [of s rest] by linarith

lemma host_parts_progress:
  assumes "state p = Host_State \<or> state p = Hostname"
  shows "progress env p (host_state_colon env p)" "progress env p (host_state_end env p)"
  using assms by (auto simp: progress_def iterator_within_def host_state_colon_def host_state_end_def Let_def split: step_splits)

lemma host_state_progress:
  assumes "state p = Host_State \<or> state p = Hostname"
  shows "progress env p (host_state env c p)"
  using assms host_parts_progress [OF assms, of env]
  by (auto simp: host_state_def Let_def progress_def iterator_within_def)

lemma parser_step_progress: "progress env p (parser_step env p)"
proof (cases "state p")
  case SchemeStart
  then show ?thesis
    by (auto simp: progress_def iterator_within_def parser_step_def scheme_start_state_def Let_def split: step_splits
      dest: advance_iterator_within)
next
  case Scheme
  then show ?thesis
    by (auto simp: progress_def iterator_within_def parser_step_def scheme_state_def scheme_state_colon_def Let_def split: step_splits
      dest: advance_iterator_within)
next
  case NoScheme
  then show ?thesis
    by (auto simp: progress_def iterator_within_def parser_step_def no_scheme_state_def Let_def split: step_splits
      dest: advance_iterator_within)
next
  case SpecialRelativeOrAuthority
  then show ?thesis
    by (auto simp: progress_def iterator_within_def parser_step_def special_relative_or_authority_state_def Let_def split: step_splits
      dest: advance_iterator_within)
next
  case PathOrAuthority
  then show ?thesis
    by (auto simp: progress_def iterator_within_def parser_step_def path_or_authority_state_def Let_def split: step_splits
      dest: advance_iterator_within)
next
  case Relative
  then show ?thesis
    by (auto simp: progress_def iterator_within_def parser_step_def relative_state_def Let_def split: step_splits
      dest: advance_iterator_within)
next
  case RelativeSlash
  then show ?thesis
    by (auto simp: progress_def iterator_within_def parser_step_def relative_slash_state_def Let_def split: step_splits
      dest: advance_iterator_within)
next
  case SpecialAuthoritySlashes
  then show ?thesis
    by (auto simp: progress_def iterator_within_def parser_step_def special_authority_slashes_state_def Let_def split: step_splits
      dest: advance_iterator_within)
next
  case SpecialAuthorityIgnoreSlashes
  then show ?thesis
    by (auto simp: progress_def iterator_within_def parser_step_def special_authority_ignore_slashes_state_def Let_def split: step_splits
      dest: advance_iterator_within)
next
  case Authority
  then show ?thesis
    by (auto simp: progress_def iterator_within_def parser_step_def authority_state_def authority_at_sign_def Let_def split: step_splits
      dest: advance_iterator_within)
next
  case Host_State
  then show ?thesis by (simp add: parser_step_def host_state_progress)
next
  case Hostname
  then show ?thesis by (simp add: parser_step_def host_state_progress)
next
  case Port
  then show ?thesis
    by (auto simp: progress_def iterator_within_def parser_step_def port_state_def Let_def split: step_splits
      dest: advance_iterator_within)
next
  case File
  then show ?thesis
    by (auto simp: progress_def iterator_within_def parser_step_def file_state_def Let_def split: step_splits
      dest: advance_iterator_within)
next
  case FileSlash
  then show ?thesis
    by (auto simp: progress_def iterator_within_def parser_step_def file_slash_state_def Let_def split: step_splits
      dest: advance_iterator_within)
next
  case FileHost
  then show ?thesis
    by (auto simp: progress_def iterator_within_def parser_step_def file_host_state_def Let_def split: step_splits
      dest: advance_iterator_within)
next
  case PathStart
  then show ?thesis
    by (auto simp: progress_def iterator_within_def parser_step_def path_start_state_def Let_def split: step_splits
      dest: advance_iterator_within)
next
  case Path_State
  then show ?thesis
    by (auto simp: progress_def iterator_within_def parser_step_def path_state_def Let_def split: step_splits
      dest: advance_iterator_within)
next
  case OpaquePath
  then show ?thesis
    by (auto simp: progress_def iterator_within_def parser_step_def opaque_path_state_def Let_def split: step_splits
      dest: advance_iterator_within)
next
  case Query_State
  then show ?thesis
    by (auto simp: progress_def iterator_within_def parser_step_def query_state_def Let_def split: step_splits
      dest: advance_iterator_within)
next
  case Fragment_State
  then show ?thesis
    by (auto simp: progress_def iterator_within_def parser_step_def fragment_state_def Let_def split: step_splits
      dest: advance_iterator_within)
qed

lemma parser_step_continue: "parser_step env p = Continue q \<Longrightarrow> rank (state q) < rank (state p)"
  using parser_step_progress [of env p] by (auto simp: progress_def)

lemma parser_step_break:
  "parser_step env p = Break q \<Longrightarrow> rank (state q) < rank (state p) \<or> state q = state p \<and> iterator q = iterator p"
  using parser_step_progress [of env p] by (auto simp: progress_def)

function run_parser :: "environment \<Rightarrow> parser \<Rightarrow> (bool \<times> url) exec" where
  "run_parser env p =
     (case parser_step env p of
        Continue q \<Rightarrow> run_parser env q
      | Break q \<Rightarrow>
          (if iterator q = [] then Done (True, the_url q)
           else case advance_iterator (iterator q) of
             Verify_failed \<Rightarrow> Verify_failed
           | Done rest \<Rightarrow> run_parser env (q \<lparr> iterator := rest \<rparr>))
      | Return_Url q \<Rightarrow> Done (True, the_url q)
      | Return_Failure q \<Rightarrow> Done (False, the_url q)
      | Crash \<Rightarrow> Verify_failed)"
  by pat_completeness auto
termination
proof (relation "measures [\<lambda>(env, p). rank (state p), \<lambda>(env, p). length (iterator p)]")
  fix env p q rest
  assume "parser_step env p = Break q" "advance_iterator (iterator q) = Done rest"
  then show "((env, q \<lparr> iterator := rest \<rparr>), env, p)
      \<in> measures [\<lambda>(env, p). rank (state p), \<lambda>(env, p). length (iterator p)]"
    using parser_step_break [of env p q] advance_iterator_shorter [of "iterator q" rest] by auto
qed (auto dest: parser_step_continue)

declare run_parser.simps [simp del]

subsection \<open>The entry points\<close>

definition trim_c0_control_or_space :: "byte_string \<Rightarrow> byte_string" where
  "trim_c0_control_or_space raw_input =
     (let space = (\<lambda>c. is_ascii_c0_control_or_space (cp c))
      in rev (dropWhile space (rev (dropWhile space raw_input))))"

definition process_input :: "externals \<Rightarrow> byte_string \<Rightarrow> byte_string" where
  "process_input ext raw_input =
     (let processed_input = from_utf8_with_replacement_character ext raw_input
      in if contains_ascii_tab_or_newline processed_input
         then remove_ascii_tab_or_newline processed_input else processed_input)"

definition initial_parser :: "url \<Rightarrow> parser_state \<Rightarrow> byte_string \<Rightarrow> encoder option \<Rightarrow> parser" where
  "initial_parser u s input encoder =
     \<lparr> the_url = u, buffer = [], at_sign_seen = False, inside_brackets = False, password_token_seen = False,
       state = s, iterator = input, encoder_of = (case encoder of Some e \<Rightarrow> e | None \<Rightarrow> utf8_encoder) \<rparr>"

text \<open>\<^verbatim>\<open>basic_parse\<close> with a URL to modify and maybe a state override: whether it succeeded, and the URL
  as it leaves it.  \<open>encoder\<close> is what \<^verbatim>\<open>TextCodec::encoder_for\<close> returns for the encoding, if one is given.\<close>

definition basic_parse_into ::
  "externals \<Rightarrow> byte_string \<Rightarrow> url option \<Rightarrow> url \<Rightarrow> parser_state option \<Rightarrow> encoder option \<Rightarrow> (bool \<times> url) exec" where
  "basic_parse_into ext raw_input base u override encoder =
     (let input = process_input ext raw_input
      in run_parser \<lparr> externals_of = ext, input_of = input, base_url = base, state_override = override \<rparr>
           (initial_parser u (case override of Some s \<Rightarrow> s | None \<Rightarrow> SchemeStart) input encoder))"

definition basic_parse :: "externals \<Rightarrow> byte_string \<Rightarrow> url option \<Rightarrow> encoder option \<Rightarrow> url option exec" where
  "basic_parse ext raw_input base encoder =
     exec_map (\<lambda>(ok, u). if ok then Some u else None)
       (basic_parse_into ext (trim_c0_control_or_space raw_input) base empty_url None encoder)"

definition complete_url :: "externals \<Rightarrow> url \<Rightarrow> byte_string \<Rightarrow> url option exec" where
  "complete_url ext u relative_url = basic_parse ext relative_url (Some u) None"

subsection \<open>The number of iterations\<close>

text \<open>One iteration of the loop that does not leave it.\<close>

inductive loop_step :: "environment \<Rightarrow> parser \<Rightarrow> parser \<Rightarrow> bool" for env where
  continue: "parser_step env p = Continue q \<Longrightarrow> loop_step env p q"
| advance: "\<lbrakk> parser_step env p = Break q; iterator q \<noteq> []; advance_iterator (iterator q) = Done rest \<rbrakk>
    \<Longrightarrow> loop_step env p (q \<lparr> iterator := rest \<rparr>)"

inductive_cases loop_stepE: "loop_step env p q"

lemma run_parser_loop_step: "loop_step env p q \<Longrightarrow> run_parser env p = run_parser env q"
  by (erule loop_stepE) (simp_all add: run_parser.simps [of env p])

definition remaining_work :: "environment \<Rightarrow> parser \<Rightarrow> nat" where
  "remaining_work env p = rank (state p) * Suc (length (input_of env)) + length (iterator p)"

lemma work_decreases:
  fixes r r' n l l' :: nat
  assumes "r' < r" "l' \<le> n"
  shows "r' * Suc n + l' < r * Suc n + l"
proof -
  have "r' * Suc n + l' < Suc r' * Suc n" using assms(2) by simp
  also have "\<dots> \<le> r * Suc n" using assms(1) by (intro mult_le_mono1) simp
  finally show ?thesis by simp
qed

lemma loop_step_work:
  assumes "loop_step env p q" "iterator_within env p"
  shows "iterator_within env q \<and> remaining_work env q < remaining_work env p"
  using assms(1)
proof cases
  case continue
  with parser_step_progress [of env p] assms(2)
  have "rank (state q) < rank (state p)" "iterator_within env q" by (auto simp: progress_def)
  then show ?thesis
    using work_decreases [of "rank (state q)" "rank (state p)" "length (iterator q)" "length (input_of env)"]
    by (simp add: remaining_work_def iterator_within_def)
next
  case (advance r rest)
  then have rest: "length rest < length (iterator r)" by (simp add: advance_iterator_shorter)
  from parser_step_progress [of env p] advance(2) assms(2)
  consider "rank (state r) < rank (state p)" "iterator_within env r"
    | "state r = state p" "iterator r = iterator p"
    by (auto simp: progress_def)
  then show ?thesis
  proof cases
    case 1
    with advance(1) rest show ?thesis
      using work_decreases [of "rank (state r)" "rank (state p)" "length rest" "length (input_of env)"]
      by (simp add: remaining_work_def iterator_within_def)
  next
    case 2
    with advance(1) rest assms(2) show ?thesis by (simp add: remaining_work_def iterator_within_def)
  qed
qed

lemma loop_steps_work:
  "\<lbrakk> (loop_step env ^^ n) p q; iterator_within env p \<rbrakk>
   \<Longrightarrow> iterator_within env q \<and> remaining_work env q + n \<le> remaining_work env p"
proof (induction n arbitrary: q)
  case (Suc n)
  then obtain r where "(loop_step env ^^ n) p r" "loop_step env r q" by auto
  with Suc.IH Suc.prems(2) loop_step_work [of env r q] show ?case by fastforce
qed simp

text \<open>C16: the loop of \<^verbatim>\<open>basic_parse\<close> runs a number of iterations linear in the input: no sequence of
  iterations from the start is longer than 21 times the length of the input plus one.\<close>

theorem parser_iterations_linear:
  assumes "(loop_step env ^^ n) (initial_parser u s (input_of env) encoder) q"
  shows "n \<le> 21 * Suc (length (input_of env))"
proof -
  let ?p = "initial_parser u s (input_of env) encoder"
  have "iterator_within env ?p" by (simp add: iterator_within_def initial_parser_def)
  then have "n \<le> remaining_work env ?p" using loop_steps_work [OF assms] by simp
  also have "\<dots> \<le> 20 * Suc (length (input_of env)) + length (input_of env)"
    unfolding remaining_work_def by (intro add_mono mult_le_mono1) (cases s; simp add: initial_parser_def)+
  finally show ?thesis by simp
qed

theorem parser_iterations_linear_witness:
  "1 \<le> 21 * Suc (length (input_of \<lparr> externals_of = reference_externals, input_of = ''a:'', base_url = None,
     state_override = None \<rparr>))"
proof (rule parser_iterations_linear)
  let ?env = "\<lparr> externals_of = reference_externals, input_of = ''a:'', base_url = None, state_override = None \<rparr>"
  show "(loop_step ?env ^^ 1) (initial_parser empty_url SchemeStart (input_of ?env) None)
    ((initial_parser empty_url SchemeStart (input_of ?env) None) \<lparr> buffer := ''a'', state := Scheme, iterator := '':'' \<rparr>)"
    using loop_step.advance [of ?env "initial_parser empty_url SchemeStart (input_of ?env) None"
      "(initial_parser empty_url SchemeStart (input_of ?env) None) \<lparr> buffer := ''a'', state := Scheme \<rparr>" "'':''"]
    by (simp add: initial_parser_def parser_step_def scheme_start_state_def goto_def append_to_buffer_def
      iterator_deref_def underlying_code_point_length_in_bytes_def decode_leading_byte_eq
      to_ascii_lowercase_def char_class char_of_eq_iff_mod eq_OO)
qed

end
