(* ===== verification/URL_Parser_Invariant.thy ===== *)
theory URL_Parser_Invariant
  imports URL_Parser
begin

text \<open>
  The invariant of the URL parser.  A URL is canonical when its parts are what the parser may leave in
  them (\<open>canonical_url\<close>); \<open>state_inv\<close> says, for every state of the machine, what the URL built so far, the
  buffer and the code points around the iterator look like.  Every step keeps it, so the parser never
  fails a \<^verbatim>\<open>VERIFY\<close> and every URL it returns is canonical.

  The iterator stands at a code point boundary of well-formed UTF-8 (\<open>at_position\<close>: \<open>ds\<close> are the code
  points before it, \<open>cs\<close> those from it on).  That is what makes the authority state's jump back by the
  length of the buffer land where the host begins.
\<close>

subsection \<open>The iterator on well-formed UTF-8\<close>

abbreviation scalar_values :: "code_point list \<Rightarrow> bool" where
  "scalar_values cs \<equiv> list_all is_unicode_scalar_value cs"

fun current :: "code_point list \<Rightarrow> code_point" where
  "current [] = end_of_file"
| "current (c # _) = c"

lemma scalar_unicode: "is_unicode_scalar_value c \<Longrightarrow> is_unicode c"
  by (simp add: char_class)

lemma scalar_not_eof: "is_unicode_scalar_value c \<Longrightarrow> c \<noteq> end_of_file"
  by (auto simp: char_class end_of_file_def)

lemma utf8_iterator:
  assumes "is_unicode c"
  shows "current_code_point (code_point_to_utf8 c @ s) = c"
    "advance_iterator (code_point_to_utf8 c @ s) = Done s" "get_remaining (code_point_to_utf8 c @ s) = Done s"
proof -
  obtain b bs where b: "code_point_to_utf8 c @ s = b # bs"
    using code_point_to_utf8_nonempty [OF assms] by (cases "code_point_to_utf8 c") auto
  have view: "utf8_view (b # bs) = (c, bytes_to_store_code_point_in_utf8 c) # utf8_view s"
    using utf8_view_code_point_append [OF assms, of s] b by simp
  then have deref: "iterator_deref b bs = c"
    and len: "underlying_code_point_length_in_bytes b bs = bytes_to_store_code_point_in_utf8 c"
    by (auto simp: Let_def)
  have "drop (underlying_code_point_length_in_bytes b bs) (b # bs) = s"
    using b len length_code_point_to_utf8 [of c] by (metis append_eq_conv_conj)
  with b deref show "current_code_point (code_point_to_utf8 c @ s) = c"
    "advance_iterator (code_point_to_utf8 c @ s) = Done s" "get_remaining (code_point_to_utf8 c @ s) = Done s"
    by simp_all
qed

definition at_position :: "environment \<Rightarrow> parser \<Rightarrow> code_point list \<Rightarrow> code_point list \<Rightarrow> bool" where
  "at_position env p ds cs \<longleftrightarrow>
     input_of env = utf8_encode (ds @ cs) \<and> iterator p = utf8_encode cs \<and> scalar_values (ds @ cs)"

lemma current_at_position: "at_position env p ds cs \<Longrightarrow> current_code_point (iterator p) = current cs"
  by (cases cs) (auto simp: at_position_def utf8_iterator scalar_unicode)

lemma advance_at_position: "at_position env p ds (c # cs) \<Longrightarrow> advance_iterator (iterator p) = Done (utf8_encode cs)"
  by (auto simp: at_position_def utf8_iterator scalar_unicode)

lemma remaining_at_position: "at_position env p ds (c # cs) \<Longrightarrow> get_remaining (iterator p) = Done (utf8_encode cs)"
  by (auto simp: at_position_def utf8_iterator scalar_unicode)

lemma at_position_advance:
  "at_position env p ds (c # cs) \<Longrightarrow> at_position env (q \<lparr> iterator := utf8_encode cs \<rparr>) (ds @ [c]) cs"
  by (simp add: at_position_def)

lemma at_position_same:
  "\<lbrakk> at_position env p ds cs; iterator q = iterator p \<rbrakk> \<Longrightarrow> at_position env q ds cs"
  by (simp add: at_position_def)

lemma utf8_encode_Cons_ascii:
  assumes "scalar_values cs" "utf8_encode cs = b # bs" "cp b < 0x80"
  obtains cs' where "cs = cp b # cs'" "bs = utf8_encode cs'"
proof (cases cs)
  case (Cons c cs')
  have "is_ascii c"
  proof (rule ccontr)
    assume "\<not> is_ascii c"
    with Cons assms(1,2) code_point_to_utf8_nonempty [of c] have "b \<in> set (code_point_to_utf8 c)"
      by (cases "code_point_to_utf8 c") (auto simp: scalar_unicode)
    with \<open>\<not> is_ascii c\<close> Cons assms code_point_to_utf8_non_ascii [of c b] show False by (auto simp: scalar_unicode)
  qed
  with Cons assms(2) have "b = char_of c" "bs = utf8_encode cs'" by (auto simp: code_point_to_utf8_ascii)
  with \<open>is_ascii c\<close> Cons that show ?thesis by (auto simp: is_ascii_def)
qed (use assms in simp)

lemma starts_with_ascii:
  assumes "scalar_values cs" "cp a < 0x80"
  shows "starts_with (utf8_encode cs) [a] \<longleftrightarrow> (\<exists>cs'. cs = cp a # cs')"
    and "starts_with_char (utf8_encode cs) a \<longleftrightarrow> (\<exists>cs'. cs = cp a # cs')"
proof -
  have ascii: "code_point_to_utf8 (cp a) = [a]" using assms(2) by (simp add: code_point_to_utf8_ascii is_ascii_def)
  have "(\<exists>bs. utf8_encode cs = a # bs) \<longleftrightarrow> (\<exists>cs'. cs = cp a # cs')"
    using utf8_encode_Cons_ascii [OF assms(1) _ assms(2)] ascii by (metis append_Cons append_Nil utf8_encode_simps(2))
  then show "starts_with (utf8_encode cs) [a] \<longleftrightarrow> (\<exists>cs'. cs = cp a # cs')"
    "starts_with_char (utf8_encode cs) a \<longleftrightarrow> (\<exists>cs'. cs = cp a # cs')"
    by (cases "utf8_encode cs"; force simp: starts_with_def starts_with_char_def prefix_def)+
qed

lemma iterator_at_byte_offset_from_encode:
  "scalar_values ds \<Longrightarrow>
     iterator_at_byte_offset_from k (utf8_encode (ds @ cs)) (k + length (utf8_encode ds)) = utf8_encode cs"
proof (induction ds arbitrary: k)
  case Nil
  then show ?case by (cases "utf8_encode cs") auto
next
  case (Cons d ds)
  obtain b bs where b: "code_point_to_utf8 d = b # bs"
    using code_point_to_utf8_nonempty [of d] Cons.prems by (cases "code_point_to_utf8 d") (auto simp: scalar_unicode)
  let ?s = "bs @ utf8_encode (ds @ cs)"
  have "utf8_view (b # ?s) = (d, bytes_to_store_code_point_in_utf8 d) # utf8_view (utf8_encode (ds @ cs))"
    using utf8_view_code_point_append [of d "utf8_encode (ds @ cs)"] b Cons.prems by (simp add: scalar_unicode)
  then have "underlying_code_point_length_in_bytes b ?s = Suc (length bs)"
    using length_code_point_to_utf8 [of d] b by (simp add: Let_def)
  with Cons.IH [of "Suc (k + length bs)"] Cons.prems b show ?case by (simp add: Let_def add.commute add.left_commute)
qed

lemma iterator_at_byte_offset_encode:
  "scalar_values ds \<Longrightarrow>
     iterator_at_byte_offset (utf8_encode (ds @ cs)) (length (utf8_encode ds)) = utf8_encode cs"
  using iterator_at_byte_offset_from_encode [of ds 0 cs] by (simp add: iterator_at_byte_offset_def)

lemma size_t_minus_eq: "\<lbrakk> b \<le> a; a < 2 ^ 64 \<rbrakk> \<Longrightarrow> size_t_minus a b = a - b"
  by (auto simp: size_t_minus_def mod_if)

subsection \<open>Canonical URLs\<close>

definition encoded :: "PercentEncodeSet \<Rightarrow> byte_string \<Rightarrow> bool" where
  "encoded encode_set s \<longleftrightarrow> list_all (\<lambda>b. \<not> code_point_is_in_percent_encode_set (cp b) encode_set) s"

definition scheme_text :: "byte_string \<Rightarrow> bool" where
  "scheme_text s \<longleftrightarrow> s \<noteq> [] \<and> is_ascii_lower_alpha (cp (hd s))
     \<and> list_all (\<lambda>b. is_ascii_lower_alpha (cp b) \<or> is_ascii_digit (cp b) \<or> b \<in> set ''+-.'') s"

definition segment_text :: "byte_string \<Rightarrow> byte_string \<Rightarrow> bool" where
  "segment_text scheme s \<longleftrightarrow>
     encoded Path_Set s \<and> CHR ''/'' \<notin> set s \<and> (is_special_scheme scheme \<longrightarrow> CHR 0x5C \<notin> set s)"

definition segment_ok :: "byte_string \<Rightarrow> byte_string \<Rightarrow> bool" where
  "segment_ok scheme s \<longleftrightarrow>
     segment_text scheme s \<and> \<not> is_single_dot_path_segment s \<and> \<not> is_double_dot_path_segment s"

definition paths_ok :: "byte_string \<Rightarrow> byte_string list \<Rightarrow> bool" where
  "paths_ok scheme paths \<longleftrightarrow> list_all (segment_ok scheme) paths
     \<and> (scheme = ''file'' \<and> paths \<noteq> [] \<and> is_windows_drive_letter (hd paths)
        \<longrightarrow> is_normalized_windows_drive_letter (hd paths))"

definition opaque_path_text :: "byte_string \<Rightarrow> bool" where
  "opaque_path_text s \<longleftrightarrow> encoded C0Control s \<and> CHR ''?'' \<notin> set s \<and> CHR ''#'' \<notin> set s
     \<and> (s \<noteq> [] \<longrightarrow> hd s \<noteq> CHR ''/'')"

definition host_canonical :: "externals \<Rightarrow> byte_string \<Rightarrow> host \<Rightarrow> bool" where
  "host_canonical ext scheme h \<longleftrightarrow> host_ok h
     \<and> (h = Name [] \<or> parse_host ext (serialize_host h) (\<not> is_special_scheme scheme) = Done (Some h))
     \<and> (is_special_scheme scheme \<longrightarrow> domain_host_ok h)
     \<and> (\<forall>d. h = Name d \<longrightarrow> (\<forall>c\<in>set d. \<not> is_forbidden_host_code_point (cp c)))
     \<and> (scheme = ''file'' \<longrightarrow> h \<noteq> Name ''localhost'')"

definition authority_ok :: "externals \<Rightarrow> url \<Rightarrow> bool" where
  "authority_ok ext u \<longleftrightarrow> scheme_text (url_scheme u)
     \<and> encoded Userinfo (url_username u) \<and> encoded Userinfo (url_password u)
     \<and> (case url_host u of
          None \<Rightarrow> \<not> is_special u
        | Some h \<Rightarrow> host_canonical ext (url_scheme u) h
            \<and> (is_special u \<and> url_scheme u \<noteq> ''file'' \<longrightarrow> h \<noteq> Name []))
     \<and> (cannot_have_a_username_or_password_or_port u \<longrightarrow> \<not> includes_credentials u \<and> url_port u = None)
     \<and> (\<forall>port. url_port u = Some port \<longrightarrow> port < 65536 \<and> default_port_for_scheme (url_scheme u) \<noteq> Some port)"

definition path_ok :: "url \<Rightarrow> bool" where
  "path_ok u \<longleftrightarrow>
     (if url_has_an_opaque_path u
      then \<not> is_special u \<and> url_host u = None \<and> (\<exists>path. url_paths u = [path] \<and> opaque_path_text path)
      else paths_ok (url_scheme u) (url_paths u) \<and> (is_special u \<or> url_host u = None \<longrightarrow> url_paths u \<noteq> []))"

definition query_ok :: "url \<Rightarrow> bool" where
  "query_ok u \<longleftrightarrow> (\<forall>query. url_query u = Some query \<longrightarrow> encoded (if is_special u then SpecialQuery else Query_Set) query)"

definition fragment_ok :: "url \<Rightarrow> bool" where
  "fragment_ok u \<longleftrightarrow> (\<forall>fragment. url_fragment u = Some fragment \<longrightarrow> encoded Fragment_Set fragment)"

definition canonical_url :: "externals \<Rightarrow> url \<Rightarrow> bool" where
  "canonical_url ext u \<longleftrightarrow> authority_ok ext u \<and> path_ok u \<and> query_ok u \<and> fragment_ok u"

definition no_trailing_space :: "url \<Rightarrow> bool" where
  "no_trailing_space u \<longleftrightarrow> (url_has_an_opaque_path u \<longrightarrow>
     (\<forall>path. url_paths u = [path] \<longrightarrow> path \<noteq> [] \<longrightarrow> last path \<noteq> CHR '' ''))"

subsection \<open>The invariant of the states\<close>

definition trimmed :: "environment \<Rightarrow> bool" where
  "trimmed env \<longleftrightarrow> (input_of env \<noteq> [] \<longrightarrow> last (input_of env) \<noteq> CHR '' '')
     \<and> (\<forall>base. base_url env = Some base \<longrightarrow> no_trailing_space base)"

definition complete :: "environment \<Rightarrow> url \<Rightarrow> bool" where
  "complete env u \<longleftrightarrow> canonical_url (externals_of env) u \<and> url_blob_url_entry u = None
     \<and> (trimmed env \<longrightarrow> no_trailing_space u)"

definition with_scheme :: "byte_string \<Rightarrow> url" where
  "with_scheme scheme = empty_url \<lparr> url_scheme := scheme \<rparr>"

definition authority_open :: "url \<Rightarrow> bool" where
  "authority_open u \<longleftrightarrow> scheme_text (url_scheme u) \<and> url_scheme u \<noteq> ''file''
     \<and> encoded Userinfo (url_username u) \<and> encoded Userinfo (url_password u)
     \<and> u = with_scheme (url_scheme u) \<lparr> url_username := url_username u, url_password := url_password u \<rparr>"

definition path_open :: "externals \<Rightarrow> url \<Rightarrow> bool" where
  "path_open ext u \<longleftrightarrow> authority_ok ext u \<and> \<not> url_has_an_opaque_path u
     \<and> paths_ok (url_scheme u) (url_paths u) \<and> url_query u = None \<and> url_fragment u = None
     \<and> url_blob_url_entry u = None"

definition after_ascii :: "code_point list \<Rightarrow> bool" where
  "after_ascii ds \<longleftrightarrow> ds \<noteq> [] \<and> is_ascii (last ds)"

definition authority_bytes :: "url \<Rightarrow> code_point list \<Rightarrow> byte_string \<Rightarrow> bool" where
  "authority_bytes u ds b \<longleftrightarrow>
     (\<exists>ds' es. ds = ds' @ es \<and> after_ascii ds' \<and> b = utf8_encode es \<and> list_all (\<lambda>c. \<not> ends_authority u c) es)"

lemma authority_bytes_start [simp]: "after_ascii ds \<Longrightarrow> authority_bytes u ds []"
  unfolding authority_bytes_def by (intro exI [of _ ds] exI [of _ "[]"]) simp

lemma authority_bytes_snoc:
  "\<lbrakk> authority_bytes u ds b; \<not> ends_authority u c \<rbrakk> \<Longrightarrow> authority_bytes u (ds @ [c]) (b @ code_point_to_utf8 c)"
  unfolding authority_bytes_def
proof (elim exE conjE)
  fix ds' es
  assume "ds = ds' @ es" "after_ascii ds'" "b = utf8_encode es" "list_all (\<lambda>c. \<not> ends_authority u c) es"
    "\<not> ends_authority u c"
  then show "\<exists>ds' es. ds @ [c] = ds' @ es \<and> after_ascii ds' \<and> b @ code_point_to_utf8 c = utf8_encode es
      \<and> list_all (\<lambda>c. \<not> ends_authority u c) es"
    by (intro exI [of _ ds'] exI [of _ "es @ [c]"]) simp
qed

definition bare :: "url \<Rightarrow> bool" where
  "bare u \<longleftrightarrow> u = with_scheme (url_scheme u)"

definition bare_opaque :: "url \<Rightarrow> bool" where
  "bare_opaque u \<longleftrightarrow> u = (with_scheme (url_scheme u)) \<lparr> url_has_an_opaque_path := True, url_paths := [[]] \<rparr>"

lemma bare_opaqueE:
  assumes "bare_opaque u"
  obtains s where "u = (with_scheme s) \<lparr> url_has_an_opaque_path := True, url_paths := [[]] \<rparr>"
  using assms by (auto simp: bare_opaque_def)

lemma with_scheme_simps [simp]:
  "url_scheme (with_scheme s) = s" "url_username (with_scheme s) = []" "url_password (with_scheme s) = []"
  "url_host (with_scheme s) = None" "url_port (with_scheme s) = None" "url_paths (with_scheme s) = []"
  "url_query (with_scheme s) = None" "url_fragment (with_scheme s) = None"
  "url_has_an_opaque_path (with_scheme s) = False" "url_blob_url_entry (with_scheme s) = None" "empty_url \<lparr> url_scheme := s \<rparr> = with_scheme s"
  "(with_scheme s) \<lparr> url_scheme := t \<rparr> = with_scheme t" "bare (with_scheme s)"
  by (simp_all add: with_scheme_def empty_url_def bare_def)

lemma bareE:
  assumes "bare u"
  obtains s where "u = with_scheme s"
  using assms by (auto simp: bare_def)

lemma bare_scheme: "\<lbrakk> bare u; url_scheme base = url_scheme u \<rbrakk> \<Longrightarrow> u = with_scheme (url_scheme base)"
  by (simp add: bare_def)

lemma bare_empty [simp]: "bare empty_url"
  by (simp add: bare_def with_scheme_def empty_url_def)

lemma is_special_simps [simp]: "is_special (with_scheme s) = is_special_scheme s"
  by (simp add: is_special_def)

fun state_inv ::
  "environment \<Rightarrow> parser_state \<Rightarrow> url \<Rightarrow> byte_string \<Rightarrow> bool \<Rightarrow> code_point list \<Rightarrow> code_point list \<Rightarrow> bool" where
  "state_inv env SchemeStart u b seen ds cs \<longleftrightarrow> u = empty_url \<and> b = []"
| "state_inv env Scheme u b seen ds cs \<longleftrightarrow> u = empty_url \<and> scheme_text b \<and> after_ascii ds"
| "state_inv env NoScheme u b seen ds cs \<longleftrightarrow> u = empty_url \<and> b = []"
| "state_inv env SpecialRelativeOrAuthority u b seen ds cs \<longleftrightarrow> bare u \<and> b = []
     \<and> (\<exists>base. base_url env = Some base \<and> is_special base \<and> url_scheme base = url_scheme u \<and> url_scheme u \<noteq> ''file'')"
| "state_inv env PathOrAuthority u b seen ds cs \<longleftrightarrow> bare u \<and> scheme_text (url_scheme u)
     \<and> \<not> is_special u \<and> b = []"
| "state_inv env Relative u b seen ds cs \<longleftrightarrow> bare u \<and> b = []
     \<and> (\<exists>base. base_url env = Some base \<and> url_scheme base \<noteq> ''file'' \<and> \<not> url_has_an_opaque_path base)"
| "state_inv env RelativeSlash u b seen ds cs \<longleftrightarrow> bare u \<and> b = []
     \<and> (\<exists>base. base_url env = Some base \<and> url_scheme base = url_scheme u \<and> url_scheme u \<noteq> ''file'')"
| "state_inv env SpecialAuthoritySlashes u b seen ds cs \<longleftrightarrow> bare u
     \<and> scheme_text (url_scheme u) \<and> is_special u \<and> url_scheme u \<noteq> ''file'' \<and> b = [] \<and> after_ascii ds"
| "state_inv env SpecialAuthorityIgnoreSlashes u b seen ds cs \<longleftrightarrow> bare u
     \<and> scheme_text (url_scheme u) \<and> is_special u \<and> url_scheme u \<noteq> ''file'' \<and> b = [] \<and> after_ascii ds"
| "state_inv env Authority u b seen ds cs \<longleftrightarrow> authority_open u \<and> (\<not> seen \<longrightarrow> \<not> includes_credentials u)
     \<and> authority_bytes u ds b"
| "state_inv env Host_State u b seen ds cs \<longleftrightarrow> authority_open u
     \<and> (includes_credentials u \<longrightarrow> b \<noteq> [] \<or> \<not> ends_authority u (current cs))"
| "state_inv env Hostname u b seen ds cs \<longleftrightarrow> False"
| "state_inv env Port u b seen ds cs \<longleftrightarrow> path_open (externals_of env) u \<and> url_host u \<noteq> None \<and> url_paths u = []
     \<and> url_port u = None \<and> url_scheme u \<noteq> ''file'' \<and> list_all (\<lambda>c. is_ascii_digit (cp c)) b
     \<and> (url_host u = Some (Name []) \<longrightarrow> b = [] \<and> ends_authority u (current cs))"
| "state_inv env File u b seen ds cs \<longleftrightarrow> bare u \<and> b = []"
| "state_inv env FileSlash u b seen ds cs \<longleftrightarrow> u = (with_scheme ''file'') \<lparr> url_host := Some (Name []) \<rparr> \<and> b = []"
| "state_inv env FileHost u b seen ds cs \<longleftrightarrow> u = (with_scheme ''file'') \<lparr> url_host := Some (Name []) \<rparr>"
| "state_inv env PathStart u b seen ds cs \<longleftrightarrow>
     path_open (externals_of env) u \<and> url_host u \<noteq> None \<and> url_paths u = [] \<and> b = []"
| "state_inv env Path_State u b seen ds cs \<longleftrightarrow> path_open (externals_of env) u \<and> segment_text (url_scheme u) b"
| "state_inv env OpaquePath u b seen ds cs \<longleftrightarrow>
     bare_opaque u \<and> scheme_text (url_scheme u) \<and> \<not> is_special u \<and> opaque_path_text b
     \<and> (b = [] \<longrightarrow> current cs \<noteq> cp CHR ''/'')
     \<and> (trimmed env \<and> b \<noteq> [] \<and> last b = CHR '' '' \<longrightarrow> current cs \<notin> {end_of_file, cp CHR ''?'', cp CHR ''#''})"
| "state_inv env Query_State u b seen ds cs \<longleftrightarrow> complete env u \<and> url_fragment u = None"
| "state_inv env Fragment_State u b seen ds cs \<longleftrightarrow> complete env u"

definition state_ok :: "environment \<Rightarrow> parser \<Rightarrow> code_point list \<Rightarrow> code_point list \<Rightarrow> bool" where
  "state_ok env p ds cs = state_inv env (state p) (the_url p) (buffer p) (at_sign_seen p) ds cs"

lemma state_ok_iterator [simp]: "state_ok env (p \<lparr> iterator := it \<rparr>) ds cs = state_ok env p ds cs"
  by (simp add: state_ok_def)

lemma at_sign_seen_simps [simp]:
  "at_sign_seen (on_url f p) = at_sign_seen p" "at_sign_seen (clear_buffer p) = at_sign_seen p"
  "at_sign_seen (goto s p) = at_sign_seen p" "at_sign_seen (append_to_buffer b p) = at_sign_seen p"
  "at_sign_seen (push_code_point c p) = at_sign_seen p"
  by (simp_all add: on_url_def clear_buffer_def goto_def append_to_buffer_def push_code_point_def)

definition env_ok :: "environment \<Rightarrow> bool" where
  "env_ok env \<longleftrightarrow> simdutf_ok (externals_of env) \<and> icu_ok (externals_of env) \<and> fast_float_ok (externals_of env)
     \<and> state_override env = None \<and> length (input_of env) < 2 ^ 64
     \<and> (\<forall>base. base_url env = Some base \<longrightarrow> canonical_url (externals_of env) base)"

definition parser_inv :: "environment \<Rightarrow> parser \<Rightarrow> bool" where
  "parser_inv env p \<longleftrightarrow> (\<exists>ds cs. at_position env p ds cs \<and> state_ok env p ds cs)"

definition next_ok :: "environment \<Rightarrow> parser \<Rightarrow> code_point list \<Rightarrow> code_point list \<Rightarrow> bool" where
  "next_ok env q ds cs = (case cs of [] \<Rightarrow> complete env (the_url q) | c # cs' \<Rightarrow> state_ok env q (ds @ [c]) cs')"

definition break_inv :: "environment \<Rightarrow> parser \<Rightarrow> bool" where
  "break_inv env q \<longleftrightarrow> (\<exists>ds cs. at_position env q ds cs \<and> next_ok env q ds cs)"

definition step_ok :: "environment \<Rightarrow> step_result \<Rightarrow> bool" where
  "step_ok env = step_cases (parser_inv env) (break_inv env) (\<lambda>_. False) False"

definition local_ok :: "environment \<Rightarrow> parser \<Rightarrow> code_point list \<Rightarrow> code_point list \<Rightarrow> step_result \<Rightarrow> bool" where
  "local_ok env p ds cs = step_cases (\<lambda>q. iterator q = iterator p \<and> state_ok env q ds cs)
     (\<lambda>q. iterator q = iterator p \<and> next_ok env q ds cs) (\<lambda>_. False) False"

lemma local_step_ok: "\<lbrakk> at_position env p ds cs; local_ok env p ds cs r \<rbrakk> \<Longrightarrow> step_ok env r"
  by (cases r) (auto simp: local_ok_def step_ok_def parser_inv_def break_inv_def intro: at_position_same)

lemma scheme_text_snoc:
  "\<lbrakk> scheme_text b; is_ascii_alphanumeric c \<or> c = cp CHR ''+'' \<or> c = cp CHR ''-'' \<or> c = cp CHR ''.'' \<rbrakk>
   \<Longrightarrow> scheme_text (b @ [char_of (to_ascii_lowercase c)])"
  by (auto simp: scheme_text_def char_class to_ascii_lowercase_def char_of_eq_iff_mod)

lemma scheme_text_start: "is_ascii_alpha c \<Longrightarrow> scheme_text [char_of (to_ascii_lowercase c)]"
  by (auto simp: scheme_text_def char_class to_ascii_lowercase_def)

lemma alpha_not_eof [simp]: "\<not> is_ascii_alpha end_of_file" "\<not> is_ascii_alphanumeric end_of_file" "\<not> is_ascii_digit end_of_file"
  by (simp_all add: char_class end_of_file_def)

declare alpha_not_eof [unfolded end_of_file_def, simp]

lemma alpha_ascii: "is_ascii_alpha c \<Longrightarrow> is_ascii c" "is_ascii_alphanumeric c \<Longrightarrow> is_ascii c"
  by (auto simp: char_class)

lemma eof_not_scalar: "is_unicode_scalar_value c \<Longrightarrow> c \<noteq> 0xFFFFFFFF"
  by (auto simp: char_class)

lemmas position_defs = local_ok_def state_ok_def next_ok_def env_ok_def end_of_file_def

lemma after_ascii_snoc [simp]: "after_ascii (ds @ [c]) \<longleftrightarrow> is_ascii c"
  by (simp add: after_ascii_def)

lemma encoded_simps [simp]: "encoded encode_set []"
  "encoded encode_set (s @ t) \<longleftrightarrow> encoded encode_set s \<and> encoded encode_set t"
  by (simp_all add: encoded_def)

lemma segment_text_Nil [simp]: "segment_text s []"
  by (simp add: segment_text_def)

lemma paths_ok_Nil [simp]: "paths_ok s []"
  by (simp add: paths_ok_def)

lemma scheme_start_ok:
  assumes "env_ok env" "state p = SchemeStart" "state_ok env p ds cs"
  shows "local_ok env p ds cs (scheme_start_state env (current cs) p)"
  using assms scheme_text_start
  by (cases cs) (auto simp: position_defs scheme_start_state_def alpha_ascii)

lemma no_scheme_ok:
  assumes "env_ok env" "state p = NoScheme" "state_ok env p ds cs"
  shows "local_ok env p ds cs (no_scheme_state env (current cs) p)"
proof (cases "base_url env")
  case None
  then show ?thesis by (simp add: no_scheme_state_def local_ok_def)
next
  case (Some base)
  then have base: "canonical_url (externals_of env) base" using assms(1) by (simp add: env_ok_def)
  let ?u = "empty_url \<lparr> url_scheme := url_scheme base, url_paths := url_paths base, url_query := url_query base,
       url_fragment := Some [], url_has_an_opaque_path := True \<rparr>"
  have "complete env ?u" if "url_has_an_opaque_path base"
    using base that Some
    by (auto simp: complete_def canonical_url_def authority_ok_def path_ok_def query_ok_def fragment_ok_def
      empty_url_def encoded_def is_special_def includes_credentials_def no_trailing_space_def trimmed_def
      cannot_have_a_username_or_password_or_port_def split: option.splits)
  with Some assms show ?thesis
    by (cases cs) (auto simp: position_defs no_scheme_state_def)
qed

lemma file_is_special [simp]: "is_special_scheme ''file''"
  by (simp add: is_special_scheme_def special_schemes_def)

lemma authority_open_with_scheme:
  "\<lbrakk> scheme_text s; s \<noteq> ''file'' \<rbrakk> \<Longrightarrow> authority_open (with_scheme s) \<and> \<not> includes_credentials (with_scheme s)"
  by (simp add: authority_open_def includes_credentials_def with_scheme_def empty_url_def)

lemma path_open_with_scheme:
  "\<lbrakk> scheme_text s; \<not> is_special_scheme s \<rbrakk> \<Longrightarrow> path_open ext (with_scheme s)"
  by (simp add: path_open_def authority_ok_def includes_credentials_def)

lemma path_or_authority_ok:
  assumes "env_ok env" "state p = PathOrAuthority" "state_ok env p ds cs"
  shows "local_ok env p ds cs (path_or_authority_state env (current cs) p)"
proof -
  obtain s where "the_url p = with_scheme s" "scheme_text s" "\<not> is_special_scheme s" "buffer p = []"
    using assms(2,3) by (auto simp: state_ok_def elim: bareE)
  moreover from this have "s \<noteq> ''file''" by auto
  ultimately show ?thesis
    using assms(1,2) authority_open_with_scheme [of s] path_open_with_scheme [of s "externals_of env"]
    by (cases cs) (auto simp: position_defs path_or_authority_state_def is_ascii_def is_special_def)
qed

lemma slash_slash_ok:
  assumes pos: "at_position env p ds (cp CHR ''/'' # cs)"
    and cont: "\<And>cs'. state_ok env (goto s p) ds (cp CHR ''/'' # cs)"
    and brk: "\<And>cs'. state_ok env (goto t p) (ds @ [cp CHR ''/'', cp CHR ''/'']) cs'"
  shows "step_ok env (or_crash (get_remaining (iterator p)) (\<lambda>remaining.
     if starts_with remaining ''/'' then with_iterator (advance_iterator (iterator p)) (goto t p)
     else Continue (goto s p)))"
proof (cases "\<exists>cs'. cs = cp CHR ''/'' # cs'")
  case True
  then obtain cs' where cs: "cs = cp CHR ''/'' # cs'" by blast
  have "at_position env (goto t p \<lparr> iterator := utf8_encode cs \<rparr>) (ds @ [cp CHR ''/'']) cs"
    using pos by (rule at_position_advance)
  moreover have "next_ok env (goto t p \<lparr> iterator := utf8_encode cs \<rparr>) (ds @ [cp CHR ''/'']) cs"
    using brk [of cs'] cs by (simp add: next_ok_def)
  moreover have "starts_with (utf8_encode cs) ''/''"
    using pos starts_with_ascii(1) [of cs "CHR ''/''"] cs by (simp add: at_position_def)
  ultimately show ?thesis
    using remaining_at_position [OF pos] advance_at_position [OF pos] by (auto simp: step_ok_def break_inv_def)
next
  case False
  then have "\<not> starts_with (utf8_encode cs) ''/''"
    using pos starts_with_ascii(1) [of cs "CHR ''/''"] by (simp add: at_position_def)
  moreover have "parser_inv env (goto s p)" using at_position_same [OF pos, of "goto s p"] cont by (auto simp: parser_inv_def)
  ultimately show ?thesis using remaining_at_position [OF pos] by (simp add: step_ok_def)
qed

lemma goto_inv: "\<lbrakk> at_position env p ds cs; state_ok env (goto s p) ds cs \<rbrakk> \<Longrightarrow> step_ok env (Continue (goto s p))"
  using at_position_same [of env p ds cs "goto s p"] by (auto simp: parser_inv_def step_ok_def)

lemma special_relative_or_authority_ok:
  assumes "env_ok env" "at_position env p ds cs" "state p = SpecialRelativeOrAuthority" "state_ok env p ds cs"
  shows "step_ok env (special_relative_or_authority_state env (current cs) p)"
proof -
  obtain base where base: "base_url env = Some base" "is_special base" "url_scheme base \<noteq> ''file''"
    and u: "the_url p = with_scheme (url_scheme base)" "buffer p = []"
    using assms(3,4) by (force simp: state_ok_def dest: bare_scheme)
  then have can: "scheme_text (url_scheme base)" "\<not> url_has_an_opaque_path base"
    using assms(1) by (auto simp: env_ok_def canonical_url_def authority_ok_def path_ok_def split: if_splits)
  have cont: "state_ok env (goto Relative p) ds cs" using base u can by (simp add: state_ok_def)
  have brk: "state_ok env (goto SpecialAuthorityIgnoreSlashes p) (ds @ [cp CHR ''/'', cp CHR ''/'']) cs'" for cs'
    using base u can by (simp add: state_ok_def after_ascii_def is_ascii_def is_special_def)
  show ?thesis
  proof (cases "current cs = cp CHR ''/''")
    case True
    then obtain cs' where "cs = cp CHR ''/'' # cs'" by (cases cs) (auto simp: end_of_file_def)
    with slash_slash_ok [of env p ds cs' Relative SpecialAuthorityIgnoreSlashes] assms(2) cont brk True
    show ?thesis by (simp add: special_relative_or_authority_state_def)
  next
    case False
    with goto_inv [OF assms(2) cont] show ?thesis by (simp add: special_relative_or_authority_state_def)
  qed
qed

lemma special_authority_slashes_ok:
  assumes "at_position env p ds cs" "state p = SpecialAuthoritySlashes" "state_ok env p ds cs"
  shows "step_ok env (special_authority_slashes_state env (current cs) p)"
proof -
  have cont: "state_ok env (goto SpecialAuthorityIgnoreSlashes p) ds cs"
    using assms(2,3) by (simp add: state_ok_def)
  have brk: "state_ok env (goto SpecialAuthorityIgnoreSlashes p) (ds @ [cp CHR ''/'', cp CHR ''/'']) cs'" for cs'
    using assms(2,3) by (simp add: state_ok_def after_ascii_def is_ascii_def)
  show ?thesis
  proof (cases "current cs = cp CHR ''/''")
    case True
    then obtain cs' where "cs = cp CHR ''/'' # cs'" by (cases cs) (auto simp: end_of_file_def)
    with slash_slash_ok [of env p ds cs' SpecialAuthorityIgnoreSlashes SpecialAuthorityIgnoreSlashes]
      assms(1) cont brk True
    show ?thesis by (simp add: special_authority_slashes_state_def)
  next
    case False
    with goto_inv [OF assms(1) cont] show ?thesis by (simp add: special_authority_slashes_state_def)
  qed
qed

lemma special_authority_ignore_slashes_ok:
  assumes "state p = SpecialAuthorityIgnoreSlashes" "state_ok env p ds cs"
  shows "local_ok env p ds cs (special_authority_ignore_slashes_state env (current cs) p)"
proof -
  obtain s where u: "the_url p = with_scheme s" "scheme_text s" "is_special_scheme s" "s \<noteq> ''file''" "buffer p = []"
    "after_ascii ds" using assms by (auto simp: state_ok_def elim: bareE)
  have "state_ok env (goto Authority p) ds cs"
    using u authority_open_with_scheme [of s] by (auto simp: state_ok_def)
  with assms show ?thesis
    by (cases cs) (auto simp: local_ok_def next_ok_def end_of_file_def state_ok_def is_ascii_def
      special_authority_ignore_slashes_state_def)
qed

lemma base_copied:
  assumes "canonical_url ext base" "\<not> url_has_an_opaque_path base"
  shows "path_open ext (with_scheme (url_scheme base) \<lparr> url_username := url_username base,
    url_password := url_password base, url_host := url_host base, url_port := url_port base,
    url_paths := url_paths base \<rparr>)"
  using assms by (auto simp: canonical_url_def path_open_def authority_ok_def path_ok_def is_special_def
      includes_credentials_def cannot_have_a_username_or_password_or_port_def split: option.splits)

lemma complete_simps:
  assumes "path_open (externals_of env) u" "is_special u \<or> url_host u = None \<longrightarrow> url_paths u \<noteq> []"
  shows "complete env u" "complete env (u \<lparr> url_query := Some [] \<rparr>)" "complete env (u \<lparr> url_fragment := Some [] \<rparr>)"
    "query_ok (u \<lparr> url_query := query \<rparr>) \<Longrightarrow> complete env (u \<lparr> url_query := query \<rparr>)"
    "query_ok (u \<lparr> url_query := query \<rparr>) \<Longrightarrow> complete env (u \<lparr> url_query := query, url_fragment := Some [] \<rparr>)"
  using assms by (auto simp: complete_def canonical_url_def path_open_def authority_ok_def path_ok_def query_ok_def fragment_ok_def
      is_special_def includes_credentials_def no_trailing_space_def cannot_have_a_username_or_password_or_port_def
      split: option.splits)

lemma paths_ok_butlast: "paths_ok s ps \<Longrightarrow> paths_ok s (butlast ps)"
  by (cases ps) (auto simp: paths_ok_def list_all_iff dest: in_set_butlastD)

lemma path_open_paths:
  "\<lbrakk> path_open ext u; paths_ok (url_scheme u) ps \<rbrakk> \<Longrightarrow> path_open ext (u \<lparr> url_paths := ps \<rparr>)"
  by (auto simp: path_open_def authority_ok_def is_special_def includes_credentials_def
      cannot_have_a_username_or_password_or_port_def split: option.splits)

lemma shorten_urls_path_ok:
  assumes "path_open ext u"
  shows "\<exists>v. shorten_urls_path u = Done v \<and> path_open ext v \<and> url_scheme v = url_scheme u \<and> url_host v = url_host u"
  using assms path_open_paths [OF assms paths_ok_butlast]
  by (auto simp: shorten_urls_path_def path_open_def)

lemma relative_ok:
  assumes "env_ok env" "scalar_values cs" "state p = Relative" "state_ok env p ds cs"
  shows "local_ok env p ds cs (relative_state env (current cs) p)"
proof -
  obtain base where base: "base_url env = Some base" "url_scheme base \<noteq> ''file''" "\<not> url_has_an_opaque_path base"
    using assms(3,4) by (auto simp: state_ok_def)
  obtain t where u: "the_url p = with_scheme t" "buffer p = []"
    using assms(3,4) by (auto simp: state_ok_def elim: bareE)
  have can: "canonical_url (externals_of env) base" using base assms(1) by (simp add: env_ok_def)
  let ?v = "with_scheme (url_scheme base) \<lparr> url_username := url_username base,
    url_password := url_password base, url_host := url_host base, url_port := url_port base,
    url_paths := url_paths base \<rparr>"
  have open_v: "path_open (externals_of env) ?v" by (rule base_copied [OF can base(3)])
  have "is_special ?v \<or> url_host ?v = None \<longrightarrow> url_paths ?v \<noteq> []"
    using can base(3) by (auto simp: canonical_url_def path_ok_def is_special_def)
  note closed = complete_simps(2) [OF open_v this] complete_simps(4,5) [OF open_v this, of "url_query base"]
  have query: "query_ok (?v \<lparr> url_query := url_query base \<rparr>)"
    using can by (simp add: canonical_url_def query_ok_def is_special_def)
  have "?v \<lparr> url_query := None \<rparr> = ?v" by (simp add: with_scheme_def empty_url_def)
  moreover obtain w where w: "shorten_urls_path ?v = Done w" "path_open (externals_of env) w"
    using shorten_urls_path_ok [OF open_v] by blast
  ultimately have "shorten_urls_path (?v \<lparr> url_query := None \<rparr>) = Done w" by (simp only:)
  with w closed query show ?thesis using u base assms(1-3)
    by (cases cs) (auto simp: position_defs relative_state_def Let_def eof_not_scalar)
qed

lemma relative_slash_ok:
  assumes "env_ok env" "scalar_values cs" "state p = RelativeSlash" "state_ok env p ds cs"
  shows "local_ok env p ds cs (relative_slash_state env (current cs) p)"
proof -
  obtain base where base: "base_url env = Some base" "url_scheme base \<noteq> ''file''"
    and u: "the_url p = with_scheme (url_scheme base)" "buffer p = []"
    using assms(3,4) by (force simp: state_ok_def dest: bare_scheme)
  have can: "canonical_url (externals_of env) base" using base assms(1) by (simp add: env_ok_def)
  let ?v = "with_scheme (url_scheme base) \<lparr> url_username := url_username base,
    url_password := url_password base, url_host := url_host base, url_port := url_port base \<rparr>"
  have "path_open (externals_of env) ?v"
    using can by (auto simp: canonical_url_def path_open_def authority_ok_def is_special_def
      includes_credentials_def cannot_have_a_username_or_password_or_port_def split: option.splits)
  moreover have "scheme_text (url_scheme base)" using can by (simp add: canonical_url_def authority_ok_def)
  ultimately show ?thesis using u base assms(1-3) authority_open_with_scheme [of "url_scheme base"]
    by (cases cs) (auto simp: position_defs relative_slash_state_def is_ascii_def)
qed

lemma break_okI: "\<lbrakk> at_position env q ds cs; next_ok env q ds cs \<rbrakk> \<Longrightarrow> step_ok env (Break q)"
  by (auto simp: step_ok_def break_inv_def)

lemma continue_okI: "\<lbrakk> at_position env q ds cs; state_ok env q ds cs \<rbrakk> \<Longrightarrow> step_ok env (Continue q)"
  by (auto simp: step_ok_def parser_inv_def)

lemma scheme_state_colon_eq:
  assumes "state_override env = None" "the_url p = empty_url"
  defines "q \<equiv> clear_buffer (p \<lparr> the_url := with_scheme (buffer p) \<rparr>)"
  shows "scheme_state_colon env p =
     (if buffer p = ''file'' then or_crash (get_remaining (iterator p)) (\<lambda>_. Break (goto File q))
      else if is_special_scheme (buffer p) \<and> (case base_url env of Some base \<Rightarrow> url_scheme base = buffer p | None \<Rightarrow> False) then
        (if is_special (the (base_url env)) then Break (goto SpecialRelativeOrAuthority q) else Crash)
      else if is_special_scheme (buffer p) then Break (goto SpecialAuthoritySlashes q)
      else or_crash (get_remaining (iterator p)) (\<lambda>remaining.
        if starts_with remaining ''/'' then with_iterator (advance_iterator (iterator p)) (goto PathOrAuthority q)
        else Break (goto OpaquePath (on_url (\<lambda>u. append_slash (u \<lparr> url_has_an_opaque_path := True \<rparr>)) q))))"
  using assms(1,2) unfolding q_def by (simp add: scheme_state_colon_def Let_def on_url_def cong: if_cong)

lemma scheme_colon_ok:
  assumes "env_ok env" "at_position env p ds (cp CHR '':'' # cs)" "state p = Scheme" "state_ok env p ds (cp CHR '':'' # cs)"
  shows "step_ok env (scheme_state_colon env p)"
proof -
  let ?c = "cp CHR '':''"
  define b where "b = buffer p"
  define q where "q = clear_buffer (p \<lparr> the_url := with_scheme b \<rparr>)"
  have b: "scheme_text b" and u: "the_url p = empty_url" using assms(3,4) by (simp_all add: state_ok_def b_def)
  have q: "the_url q = with_scheme b" "buffer q = []" "iterator q = iterator p" "at_sign_seen q = at_sign_seen p"
    by (simp_all add: q_def u)
  have pos: "at_position env r ds (?c # cs)" if "iterator r = iterator p" for r
    using at_position_same [OF assms(2) that] .
  have break: "step_ok env (Break (goto s r))"
    if "state_ok env (goto s r) (ds @ [?c]) cs" "iterator r = iterator p" for s r
    using break_okI [OF pos [of "goto s r"]] that by (simp add: next_ok_def)
  have rest: "get_remaining (iterator p) = Done (utf8_encode cs)" "advance_iterator (iterator p) = Done (utf8_encode cs)"
    using remaining_at_position [OF assms(2)] advance_at_position [OF assms(2)] by simp_all
  have slash': "starts_with (utf8_encode cs) ''/'' \<longleftrightarrow> (\<exists>cs'. cs = cp CHR ''/'' # cs')"
    using assms(2) starts_with_ascii(1) [of cs "CHR ''/''"] by (simp add: at_position_def)
  note colon = scheme_state_colon_eq [of env p, folded b_def, folded q_def, folded q(3)]
  have none: "state_override env = None" using assms(1) by (simp add: env_ok_def)
  consider (scheme_file) "b = ''file''"
    | (same_scheme) "b \<noteq> ''file''" "is_special_scheme b" "\<exists>base. base_url env = Some base \<and> url_scheme base = b"
    | (authority) "b \<noteq> ''file''" "is_special_scheme b" "\<not> (\<exists>base. base_url env = Some base \<and> url_scheme base = b)"
    | (slash) "b \<noteq> ''file''" "\<not> is_special_scheme b" "\<exists>cs'. cs = cp CHR ''/'' # cs'"
    | (no_slash) "b \<noteq> ''file''" "\<not> is_special_scheme b" "\<not> (\<exists>cs'. cs = cp CHR ''/'' # cs')" by blast
  then show ?thesis
  proof cases
    case scheme_file
    with q rest break [of File q] show ?thesis by (simp add: colon [OF none u] state_ok_def)
  next
    case same_scheme
    with q break [of SpecialRelativeOrAuthority q] show ?thesis
      by (auto simp: colon [OF none u] state_ok_def is_special_def)
  next
    case authority
    with q b break [of SpecialAuthoritySlashes q] show ?thesis
      by (auto simp: colon [OF none u] state_ok_def is_ascii_def split: option.splits)
  next
    case slash
    let ?r = "goto PathOrAuthority q \<lparr> iterator := utf8_encode cs \<rparr>"
    have "step_ok env (Break ?r)"
    proof (rule break_okI)
      show "at_position env ?r (ds @ [?c]) cs" by (rule at_position_advance [OF assms(2)])
      show "next_ok env ?r (ds @ [?c]) cs" using slash q b by (auto simp: next_ok_def state_ok_def)
    qed
    with slash q rest show ?thesis using slash' by (auto simp: colon [OF none u] step_ok_def)
  next
    case no_slash
    let ?r = "on_url (\<lambda>u. append_slash (u \<lparr> url_has_an_opaque_path := True \<rparr>)) q"
    have "current cs \<noteq> cp CHR ''/''" using no_slash(3) by (cases cs) (auto simp: end_of_file_def)
    then have "state_ok env (goto OpaquePath ?r) (ds @ [?c]) cs"
      using no_slash q b by (simp add: state_ok_def append_slash_def opaque_path_text_def is_special_def bare_opaque_def)
    then have "step_ok env (Break (goto OpaquePath ?r))" by (rule break) (simp add: q)
    with no_slash q rest show ?thesis using slash' by (simp add: colon [OF none u])
  qed
qed

lemma step_ok_failure [simp]: "step_ok env (Return_Failure p)"
  by (simp add: step_ok_def)

lemma scheme_ok_step:
  assumes "env_ok env" "at_position env p ds cs" "state p = Scheme" "state_ok env p ds cs"
  shows "step_ok env (scheme_state env (current cs) p)"
proof -
  let ?c = "current cs"
  have b: "scheme_text (buffer p)" and u: "the_url p = empty_url" using assms(3,4) by (simp_all add: state_ok_def)
  consider (letter) "is_ascii_alphanumeric ?c \<or> ?c = cp CHR ''+'' \<or> ?c = cp CHR ''-'' \<or> ?c = cp CHR ''.''"
    | (colon) "?c = cp CHR '':''"
    | (other) "\<not> (is_ascii_alphanumeric ?c \<or> ?c = cp CHR ''+'' \<or> ?c = cp CHR ''-'' \<or> ?c = cp CHR ''.'')"
      "?c \<noteq> cp CHR '':''" by blast
  then show ?thesis
  proof cases
    case letter
    let ?q = "append_to_buffer [char_of (to_ascii_lowercase ?c)] p"
    obtain c cs' where cs: "cs = c # cs'" using letter by (cases cs) (auto simp: end_of_file_def)
    have "is_ascii ?c" using letter by (auto simp: char_class)
    then have "next_ok env ?q ds cs"
      using assms(3) u scheme_text_snoc [OF b letter] cs by (simp add: next_ok_def state_ok_def)
    with at_position_same [OF assms(2), of ?q] have "step_ok env (Break ?q)" by (simp add: break_okI)
    with letter show ?thesis by (simp add: scheme_state_def)
  next
    case colon
    then obtain cs' where "cs = cp CHR '':'' # cs'" by (cases cs) (auto simp: end_of_file_def)
    with assms scheme_colon_ok [of env p ds cs'] show ?thesis by (simp add: scheme_state_def char_class)
  next
    case other
    let ?q = "goto NoScheme (clear_buffer p) \<lparr> iterator := input_of env \<rparr>"
    have "at_position env ?q [] (ds @ cs)" using assms(2) by (simp add: at_position_def)
    moreover have "state_ok env ?q [] (ds @ cs)" using u by (simp add: state_ok_def)
    ultimately have "step_ok env (Continue ?q)" by (rule continue_okI)
    with other assms(1) show ?thesis by (simp add: scheme_state_def env_ok_def)
  qed
qed

lemma percent_not_encoded:
  "encode_set \<in> {C0Control, Fragment_Set, Query_Set, SpecialQuery, Path_Set, Userinfo}
   \<Longrightarrow> \<not> code_point_is_in_percent_encode_set (cp CHR ''%'') encode_set"
  by (auto simp: contains_char_def char_of_eq_iff_mod)

lemma encoded_percent_encoded:
  assumes "is_unicode c" "encode_set \<in> {C0Control, Fragment_Set, Query_Set, SpecialQuery, Path_Set, Userinfo}"
  shows "encoded encode_set (percent_encoded encode_set c)"
  using percent_encoded_bytes [OF assms(1), of _ encode_set] percent_not_encoded [OF assms(2)] hex_digit_not_encoded
  by (fastforce simp: encoded_def list_all_iff)

lemma split_credentials_ok:
  "\<lbrakk> list_all is_unicode cs; encoded Userinfo (url_username u); encoded Userinfo (url_password u);
     encoded Userinfo ub; encoded Userinfo pb \<rbrakk>
   \<Longrightarrow> \<exists>seen' ub' pb'. split_credentials u seen ub pb cs = Done (seen', ub', pb')
         \<and> encoded Userinfo ub' \<and> encoded Userinfo pb'"
  by (induction cs arbitrary: seen ub pb)
    (simp_all add: append_percent_encoded_if_necessary_eq encoded_percent_encoded)

lemma authority_open_credentials:
  "\<lbrakk> authority_open u; encoded Userinfo a; encoded Userinfo b \<rbrakk>
   \<Longrightarrow> authority_open (u \<lparr> url_username := a \<rparr>) \<and> authority_open (u \<lparr> url_password := b \<rparr>)
     \<and> authority_open (u \<lparr> url_username := a, url_password := b \<rparr>)"
  by (cases u) (simp add: authority_open_def with_scheme_def empty_url_def)

lemma authority_at_sign_ok:
  assumes "state p = Authority" "state_ok env p ds (cp CHR ''@'' # cs)"
  shows "local_ok env p ds (cp CHR ''@'' # cs) (authority_at_sign p)"
proof -
  have u: "authority_open (the_url p)" using assms by (simp add: state_ok_def)
  then have "encoded Userinfo (url_username (the_url p))" "encoded Userinfo (url_password (the_url p))"
    by (simp_all add: authority_open_def)
  then obtain seen ub pb where "split_credentials (the_url p) (password_token_seen p) [] []
      (code_points (if at_sign_seen p then ''%40'' @ buffer p else buffer p)) = Done (seen, ub, pb)"
    "encoded Userinfo ub" "encoded Userinfo pb"
    using split_credentials_ok [OF code_points_unicode] encoded_simps(1) by blast
  with u authority_open_credentials [OF u, of ub pb] assms(1) show ?thesis
    by (simp add: authority_at_sign_def Let_def local_ok_def next_ok_def state_ok_def is_ascii_def)
qed

lemma authority_end_ok:
  assumes "env_ok env" "at_position env p ds cs" "state p = Authority" "state_ok env p ds cs"
    "ends_authority (the_url p) (current cs)" "\<not> (at_sign_seen p \<and> buffer p = [])"
  shows "step_ok env (let offset = length (input_of env) - length (iterator p);
               target = size_t_minus (size_t_minus offset (length (buffer p))) 1
           in Break (goto Host_State (clear_buffer p) \<lparr> iterator := iterator_at_byte_offset (input_of env) target \<rparr>))"
proof -
  let ?u = "the_url p"
  obtain ds' es where es: "ds = ds' @ es" "after_ascii ds'" "buffer p = utf8_encode es"
      "list_all (\<lambda>c. \<not> ends_authority ?u c) es"
    and u: "authority_open ?u" "\<not> at_sign_seen p \<longrightarrow> \<not> includes_credentials ?u"
    using assms(3,4) by (auto simp: state_ok_def authority_bytes_def)
  obtain ds0 c where c: "ds' = ds0 @ [c]" "is_ascii c"
    using es(2) by (cases ds' rule: rev_cases) (auto simp: after_ascii_def)
  have input: "input_of env = utf8_encode (ds0 @ c # es @ cs)" "iterator p = utf8_encode cs" "scalar_values (ds0 @ c # es @ cs)"
    using assms(2) es(1) c(1) by (auto simp: at_position_def)
  have len: "length (input_of env) - length (iterator p) = length (utf8_encode ds0) + 1 + length (buffer p)"
    using input(1,2) c(2) es(3) by (simp add: code_point_to_utf8_ascii)
  have small: "length (input_of env) < 2 ^ 64" using assms(1) by (simp add: env_ok_def)
  have "size_t_minus (size_t_minus (length (input_of env) - length (iterator p)) (length (buffer p))) 1 = length (utf8_encode ds0)"
    using len small size_t_minus_eq [of "length (buffer p)" "length (utf8_encode ds0) + 1 + length (buffer p)"]
      size_t_minus_eq [of 1 "length (utf8_encode ds0) + 1"] by simp
  then have target: "iterator_at_byte_offset (input_of env)
      (size_t_minus (size_t_minus (length (input_of env) - length (iterator p)) (length (buffer p))) 1) = utf8_encode (c # es @ cs)"
    using iterator_at_byte_offset_encode [of ds0 "c # es @ cs"] input by simp
  let ?q = "goto Host_State (clear_buffer p) \<lparr> iterator := utf8_encode (c # es @ cs) \<rparr>"
  have "at_position env ?q ds0 (c # es @ cs)" using input by (simp add: at_position_def)
  moreover have "includes_credentials ?u \<longrightarrow> \<not> ends_authority ?u (current (es @ cs))"
    using u(2) assms(6) es(3,4) by (cases es) auto
  then have "next_ok env ?q ds0 (c # es @ cs)" using u(1) by (simp add: next_ok_def state_ok_def)
  ultimately have "step_ok env (Break ?q)" by (rule break_okI)
  then show ?thesis unfolding Let_def target .
qed

lemma authority_ok_step:
  assumes "env_ok env" "at_position env p ds cs" "state p = Authority" "state_ok env p ds cs"
  shows "step_ok env (authority_state env (current cs) p)"
proof -
  let ?c = "current cs"
  consider (at_sign) "?c = cp CHR ''@''"
    | (fail) "?c \<noteq> cp CHR ''@''" "ends_authority (the_url p) ?c" "at_sign_seen p \<and> buffer p = []"
    | (host) "?c \<noteq> cp CHR ''@''" "ends_authority (the_url p) ?c" "\<not> (at_sign_seen p \<and> buffer p = [])"
    | (push) "?c \<noteq> cp CHR ''@''" "\<not> ends_authority (the_url p) ?c" by blast
  then show ?thesis
  proof cases
    case at_sign
    then obtain cs' where cs: "cs = cp CHR ''@'' # cs'" by (cases cs) (auto simp: end_of_file_def)
    with assms have "step_ok env (authority_at_sign p)"
      using local_step_ok authority_at_sign_ok [of p env ds cs'] by blast
    with at_sign show ?thesis by (simp add: authority_state_def)
  next
    case fail
    then show ?thesis by (simp add: authority_state_def step_ok_def)
  next
    case host
    with authority_end_ok [OF assms] show ?thesis by (simp add: authority_state_def)
  next
    case push
    then obtain c cs' where cs: "cs = c # cs'" by (cases cs) (auto simp: end_of_file_def ends_authority_def)
    with assms(2) have "is_unicode ?c" by (auto simp: at_position_def scalar_unicode)
    then have "next_ok env (push_code_point ?c p) ds cs"
      using assms(3,4) push(2) authority_bytes_snoc [of "the_url p" ds "buffer p" ?c] cs
      by (simp add: next_ok_def state_ok_def)
    with at_position_same [OF assms(2), of "push_code_point ?c p"]
    have "step_ok env (Break (push_code_point ?c p))" by (simp add: break_okI)
    with push show ?thesis by (simp add: authority_state_def)
  qed
qed

lemma opaque_host_nonempty:
  assumes "parse_opaque_host input = Done (Some (Name []))"
  shows "input = []"
proof -
  have "concat (map (percent_encoded C0Control) (code_points input)) = []"
    using assms by (auto simp: parse_opaque_host_def percent_encode_eq split: if_splits)
  moreover have "percent_encoded C0Control c \<noteq> []" if "c \<in> set (code_points input)" for c
    using that code_points_unicode [of input] code_point_to_utf8_nonempty [of c]
    by (cases "code_point_to_utf8 c") (auto simp: percent_encoded_def percent_02X_def list_all_iff)
  ultimately have "code_points input = []" by (metis concat_eq_Nil_conv in_set_conv_nth length_map list.set_intros(1) list.set_map imageI neq_Nil_conv)
  then show ?thesis by (cases input) (auto simp: code_points_def Let_def)
qed

lemma opaque_host_chars:
  assumes "parse_opaque_host input = Done (Some (Name s))" "c \<in> set s"
  shows "\<not> is_forbidden_host_code_point (cp c)"
proof -
  have "code_points s = map cp s"
    using parse_opaque_host_total [of input] assms(1) by (auto simp: host_ok_def is_ascii_string_def ascii_code_points)
  moreover have "\<not> list_ex is_forbidden_host_code_point (code_points s)"
    using parse_opaque_host_fixed [OF assms(1)] by (auto simp: parse_opaque_host_def split: if_splits)
  ultimately show ?thesis using assms(2) by (auto simp: list_ex_iff)
qed

lemma parse_host_canonical:
  assumes ok: "simdutf_ok ext" "icu_ok ext" "fast_float_ok ext"
    and parse: "parse_host ext input (\<not> is_special_scheme scheme) = Done (Some h)"
    and local: "scheme = ''file'' \<longrightarrow> h \<noteq> Name ''localhost''"
  shows "host_canonical ext scheme h" "h = Name [] \<Longrightarrow> input = [] \<and> \<not> is_special_scheme scheme"
proof -
  note result = parse_host_result [OF ok(1,2) parse]
  have opq: "parse_opaque_host input = Done (Some h)" if "\<not> is_special_scheme scheme" "h = Name s" for s
    using parse that by (auto simp: parse_host_def Some_eq_map_option_iff split: if_splits)
  have "\<not> is_forbidden_host_code_point (cp c)" if "h = Name d" "c \<in> set d" for c d
    using opaque_host_chars [of input d c] opq [of d] that result
    by (cases "is_special_scheme scheme") (auto simp: is_forbidden_domain_code_point_def)
  with result local parse_host_fixed [OF ok(3,1,2) parse] show "host_canonical ext scheme h"
    by (auto simp: host_canonical_def domain_host_ok_def)
  show "h = Name [] \<Longrightarrow> input = [] \<and> \<not> is_special_scheme scheme"
    using opaque_host_nonempty opq result by blast
qed

lemma path_open_host:
  assumes "authority_open u" "host_canonical ext (url_scheme u) h" "is_special u \<longrightarrow> h \<noteq> Name []"
    "h = Name [] \<longrightarrow> \<not> includes_credentials u"
  shows "path_open ext (u \<lparr> url_host := Some h \<rparr>)"
proof -
  have "is_empty_host h \<longleftrightarrow> h = Name []" by (cases h) auto
  moreover have "url_port u = None" "url_paths u = []" "url_query u = None" "url_fragment u = None"
    "\<not> url_has_an_opaque_path u" "url_host u = None" "url_blob_url_entry u = None"
    using assms(1) by (cases u; simp add: authority_open_def with_scheme_def empty_url_def)+
  ultimately show ?thesis using assms
    by (auto simp: path_open_def authority_ok_def authority_open_def is_special_def includes_credentials_def
      cannot_have_a_username_or_password_or_port_def)
qed

lemma is_special_update [simp]:
  "is_special (u \<lparr> url_host := h \<rparr>) = is_special u" "is_special (u \<lparr> url_port := port \<rparr>) = is_special u"
  "is_special (u \<lparr> url_paths := ps \<rparr>) = is_special u" "is_special (u \<lparr> url_query := query \<rparr>) = is_special u"
  "is_special (u \<lparr> url_fragment := fragment \<rparr>) = is_special u"
  "is_special (u \<lparr> url_username := s \<rparr>) = is_special u" "is_special (u \<lparr> url_password := s \<rparr>) = is_special u"
  by (simp_all add: is_special_def)

lemma ends_authority_update [simp]:
  "ends_authority (u \<lparr> url_host := h \<rparr>) c = ends_authority u c"
  by (simp add: ends_authority_def)

lemma authority_openD:
  assumes "authority_open u"
  shows "url_port u = None" "url_paths u = []" "url_query u = None" "url_fragment u = None"
    "\<not> url_has_an_opaque_path u" "url_host u = None" "url_scheme u \<noteq> ''file''"
  using assms by (cases u; simp add: authority_open_def with_scheme_def empty_url_def)+

lemma host_parsed_ok:
  assumes "env_ok env" "authority_open (the_url p)"
    "parse_host (externals_of env) (buffer p) (\<not> is_special (the_url p)) = Done (Some h)"
    "buffer p = [] \<longrightarrow> \<not> includes_credentials (the_url p)"
    "buffer p = [] \<longrightarrow> ends_authority (the_url p) (current cs)"
  shows "state_ok env (goto Port (clear_buffer (on_url (\<lambda>u. u \<lparr> url_host := Some h \<rparr>) p))) ds cs"
proof -
  let ?u = "the_url p"
  have "url_scheme ?u \<noteq> ''file''" using assms(2) by (rule authority_openD)
  with assms(1,3) have "host_canonical (externals_of env) (url_scheme ?u) h"
    and empty: "h = Name [] \<Longrightarrow> buffer p = [] \<and> \<not> is_special ?u"
    using parse_host_canonical [of "externals_of env" "buffer p" "url_scheme ?u" h]
    by (auto simp: env_ok_def is_special_def)
  with assms(2,4) have "path_open (externals_of env) (?u \<lparr> url_host := Some h \<rparr>)"
    by (intro path_open_host) auto
  with assms(2,5) empty show ?thesis by (auto simp: state_ok_def authority_openD)
qed

lemma host_colon_ok:
  assumes "env_ok env" "state_ok env p ds (cp CHR '':'' # cs)" "state p = Host_State"
  shows "local_ok env p ds (cp CHR '':'' # cs) (host_state_colon env p)"
proof (cases "buffer p = []")
  case False
  have u: "authority_open (the_url p)" using assms(2,3) by (simp add: state_ok_def)
  obtain r where "parse_host (externals_of env) (buffer p) (\<not> is_special (the_url p)) = Done r"
    using parse_host_total [of "externals_of env" "buffer p"] False assms(1)
    by (metis env_ok_def exec.exhaust)
  with False assms(1) host_parsed_ok [OF assms(1) u] show ?thesis
    by (auto simp: host_state_colon_def local_ok_def next_ok_def env_ok_def split: option.splits)
qed (simp add: host_state_colon_def local_ok_def)

lemma host_end_ok:
  assumes "env_ok env" "state_ok env p ds cs" "state p = Host_State" "ends_authority (the_url p) (current cs)"
  shows "local_ok env p ds cs (host_state_end env p)"
proof (cases "is_special (the_url p) \<and> buffer p = []")
  case False
  have u: "authority_open (the_url p)" "buffer p = [] \<longrightarrow> \<not> includes_credentials (the_url p)"
    using assms(2-4) by (auto simp: state_ok_def)
  obtain r where "parse_host (externals_of env) (buffer p) (\<not> is_special (the_url p)) = Done r"
    using parse_host_total [of "externals_of env" "buffer p"] False assms(1)
    by (metis env_ok_def exec.exhaust)
  with False assms(1,4) u(2) host_parsed_ok [OF assms(1) u(1), of _ cs] show ?thesis
    by (auto simp: host_state_end_def Let_def local_ok_def env_ok_def split: option.splits)
qed (simp add: host_state_end_def local_ok_def)

lemma host_ok_step:
  assumes "env_ok env" "scalar_values cs" "state_ok env p ds cs" "state p = Host_State"
  shows "local_ok env p ds cs (host_state env (current cs) p)"
proof -
  let ?c = "current cs"
  consider (colon) "?c = cp CHR '':''" "\<not> inside_brackets p"
    | (finish) "\<not> (?c = cp CHR '':'' \<and> \<not> inside_brackets p)" "ends_authority (the_url p) ?c"
    | (push) "\<not> (?c = cp CHR '':'' \<and> \<not> inside_brackets p)" "\<not> ends_authority (the_url p) ?c" by blast
  then show ?thesis
  proof cases
    case colon
    then obtain cs' where "cs = cp CHR '':'' # cs'" by (cases cs) (auto simp: end_of_file_def)
    with colon assms host_colon_ok [of env p ds cs'] show ?thesis by (simp add: host_state_def env_ok_def)
  next
    case finish
    with assms host_end_ok [of env p ds cs] show ?thesis by (auto simp: host_state_def env_ok_def)
  next
    case push
    then obtain c cs' where cs: "cs = c # cs'" by (cases cs) (auto simp: ends_authority_def end_of_file_def)
    with assms(2) have c: "is_unicode c" by (simp add: scalar_unicode)
    have "authority_open (the_url p)" using assms(3,4) by (simp add: state_ok_def)
    with push cs c code_point_to_utf8_nonempty [OF c] assms(1,4) show ?thesis
      by (auto simp: host_state_def env_ok_def Let_def local_ok_def next_ok_def state_ok_def)
  qed
qed

lemma digit_values: "list_all (\<lambda>c. is_ascii_digit (cp c)) s \<Longrightarrow> list_all (\<lambda>c. digit_value c < 10) s"
  by (auto simp: list_all_iff digit_value_def char_class)

lemma path_open_port:
  assumes "path_open ext u" "url_host u \<noteq> None" "url_host u \<noteq> Some (Name [])" "url_scheme u \<noteq> ''file''"
    "port < 65536"
  shows "path_open ext (u \<lparr> url_port := (if Some port = default_port_for_scheme (url_scheme u) then None else Some port) \<rparr>)"
proof -
  obtain h where h: "url_host u = Some h" "h \<noteq> Name []" using assms(2,3) by auto
  then have "\<not> is_empty_host h" by (cases h) auto
  with assms h show ?thesis
    by (auto simp: path_open_def authority_ok_def includes_credentials_def cannot_have_a_username_or_password_or_port_def)
qed

lemma port_ok_step:
  assumes "env_ok env" "state_ok env p ds cs" "state p = Port"
  shows "local_ok env p ds cs (port_state env (current cs) p)"
proof -
  let ?u = "the_url p" and ?c = "current cs"
  have u: "path_open (externals_of env) ?u" "url_host ?u \<noteq> None" "url_paths ?u = []" "url_scheme ?u \<noteq> ''file''"
    and digits: "list_all (\<lambda>c. is_ascii_digit (cp c)) (buffer p)" "url_port ?u = None"
    and empty: "url_host ?u = Some (Name []) \<longrightarrow> buffer p = [] \<and> ends_authority ?u ?c"
    using assms(2,3) by (auto simp: state_ok_def)
  consider (digit) "is_ascii_digit ?c" | (fail) "\<not> is_ascii_digit ?c" "\<not> ends_authority ?u ?c"
    | (none) "\<not> is_ascii_digit ?c" "ends_authority ?u ?c" "buffer p = []"
    | (number) "\<not> is_ascii_digit ?c" "ends_authority ?u ?c" "buffer p \<noteq> []" by blast
  then show ?thesis
  proof cases
    case digit
    then obtain cs' where cs: "cs = ?c # cs'" "is_ascii ?c" by (cases cs) (auto simp: char_class end_of_file_def)
    have "\<not> ends_authority ?u ?c" using digit by (auto simp: ends_authority_def char_class end_of_file_def)
    with digit cs u digits empty assms(3) show ?thesis
      by (cases cs) (auto simp: port_state_def local_ok_def next_ok_def state_ok_def code_point_to_utf8_ascii append_code_point_def char_class)
  next
    case fail
    with assms(1) show ?thesis by (simp add: port_state_def local_ok_def env_ok_def)
  next
    case none
    with assms u show ?thesis by (simp add: port_state_def local_ok_def env_ok_def state_ok_def)
  next
    case number
    have "parse_number (externals_of env) 16 (buffer p) 10 =
        (if radix_value 10 (buffer p) < 2 ^ 16 then Some (radix_value 10 (buffer p)) else None)"
      using assms(1) number(3) digit_values [OF digits(1)] by (intro parse_number_digits) (auto simp: env_ok_def)
    with number assms(1) u empty path_open_port [of "externals_of env" ?u "radix_value 10 (buffer p)"] show ?thesis
      by (auto simp: port_state_def local_ok_def env_ok_def state_ok_def Let_def)
  qed
qed

lemma file_path_open: "path_open ext (with_scheme ''file'' \<lparr> url_host := Some (Name []) \<rparr>)"
  by (simp add: path_open_def authority_ok_def scheme_text_def host_canonical_def host_ok_def is_ascii_string_def
    domain_host_ok_def includes_credentials_def char_class ends_in_a_number_checker_def split_view_def)

lemma file_base_open:
  assumes "canonical_url ext base" "url_scheme base = ''file''"
  shows "path_open ext (with_scheme ''file'' \<lparr> url_host := url_host base \<rparr>)"
    "path_open ext (with_scheme ''file'' \<lparr> url_host := url_host base, url_paths := url_paths base \<rparr>)"
    "url_paths base \<noteq> []"
  using assms
  by (auto simp: canonical_url_def path_open_def authority_ok_def path_ok_def includes_credentials_def is_special_def
    cannot_have_a_username_or_password_or_port_def split: option.splits if_splits)

lemma file_base_ok:
  assumes "env_ok env" "base_url env = Some base" "url_scheme base = ''file''"
  defines "v \<equiv> with_scheme ''file'' \<lparr> url_host := url_host base, url_paths := url_paths base \<rparr>"
  shows "complete env (v \<lparr> url_query := Some [] \<rparr>)" "complete env (v \<lparr> url_query := url_query base \<rparr>)"
    "complete env (v \<lparr> url_query := url_query base, url_fragment := Some [] \<rparr>)"
    "\<exists>w. shorten_urls_path (v \<lparr> url_query := None \<rparr>) = Done w \<and> path_open (externals_of env) w"
proof -
  have can: "canonical_url (externals_of env) base" using assms(1,2) by (simp add: env_ok_def)
  have open_v: "path_open (externals_of env) v" unfolding v_def by (rule file_base_open [OF can assms(3)])
  have v: "is_special v \<or> url_host v = None \<longrightarrow> url_paths v \<noteq> []"
    using file_base_open(3) [OF can assms(3)] by (simp add: v_def)
  have "query_ok (v \<lparr> url_query := url_query base \<rparr>)"
    using can assms(3) by (simp add: canonical_url_def query_ok_def is_special_def v_def)
  with complete_simps(2) [OF open_v v] complete_simps(4,5) [OF open_v v, of "url_query base"]
  show "complete env (v \<lparr> url_query := Some [] \<rparr>)" "complete env (v \<lparr> url_query := url_query base \<rparr>)"
    "complete env (v \<lparr> url_query := url_query base, url_fragment := Some [] \<rparr>)"
    by simp_all
  have "v \<lparr> url_query := None \<rparr> = v" by (simp add: v_def with_scheme_def empty_url_def)
  then show "\<exists>w. shorten_urls_path (v \<lparr> url_query := None \<rparr>) = Done w \<and> path_open (externals_of env) w"
    using shorten_urls_path_ok [OF open_v] by auto
qed

lemma file_ok_step:
  assumes "env_ok env" "scalar_values cs" "state_ok env p ds cs" "state p = File"
  shows "local_ok env p ds cs (file_state env (current cs) p)"
proof -
  obtain t where u: "the_url p = with_scheme t" "buffer p = []"
    using assms(3,4) by (auto simp: state_ok_def elim: bareE)
  note host = file_path_open [of "externals_of env"]
  show ?thesis
  proof (cases "\<exists>base. base_url env = Some base \<and> url_scheme base = ''file''")
    case True
    then obtain base where base: "base_url env = Some base" "url_scheme base = ''file''" by blast
    have "path_open (externals_of env) (with_scheme ''file'' \<lparr> url_host := url_host base, url_query := None, url_paths := [] \<rparr>)"
      using file_base_open(1) [of "externals_of env" base] base assms(1)
      by (simp add: env_ok_def path_open_def authority_ok_def includes_credentials_def
        cannot_have_a_username_or_password_or_port_def split: option.splits)
    with file_base_ok [OF assms(1) base] base u assms(1,2,4) show ?thesis
      by (cases cs) (auto simp: position_defs file_state_def Let_def eof_not_scalar)
  next
    case False
    with u assms(1,2,4) host show ?thesis
      by (cases cs) (auto simp: position_defs file_state_def Let_def split: option.splits)
  qed
qed

lemma file_slash_ok_step:
  assumes "env_ok env" "state_ok env p ds cs" "state p = FileSlash"
  shows "local_ok env p ds cs (file_slash_state env (current cs) p)"
proof -
  have u: "the_url p = with_scheme ''file'' \<lparr> url_host := Some (Name []) \<rparr>" "buffer p = []"
    using assms(2,3) by (auto simp: state_ok_def)
  note host = file_path_open [of "externals_of env"]
  show ?thesis
  proof (cases "\<exists>base. base_url env = Some base \<and> url_scheme base = ''file''")
    case True
    then obtain base where base: "base_url env = Some base" "url_scheme base = ''file''" by blast
    then have can: "canonical_url (externals_of env) base" using assms(1) by (simp add: env_ok_def)
    note b = file_base_open [OF can base(2)]
    obtain q qs where paths: "url_paths base = q # qs" using b(3) by (cases "url_paths base") auto
    then have "paths_ok ''file'' [q]" if "is_normalized_windows_drive_letter q"
      using can base(2) that by (auto simp: canonical_url_def path_ok_def paths_ok_def is_special_def split: if_splits)
    then have "is_normalized_windows_drive_letter q \<Longrightarrow>
        path_open (externals_of env) (with_scheme ''file'' \<lparr> url_host := url_host base, url_paths := [q] \<rparr>)"
      using path_open_paths [OF b(1), of "[q]"] by simp
    with b u base assms(1,3) paths show ?thesis
      by (cases cs) (auto simp: position_defs file_slash_state_def Let_def first_path_def)
  next
    case False
    with u assms(1,3) host show ?thesis
      by (cases cs) (auto simp: position_defs file_slash_state_def Let_def split: option.splits)
  qed
qed

lemma alpha_not_encoded: "is_ascii_alpha c \<Longrightarrow> \<not> code_point_is_in_percent_encode_set c Path_Set"
  using mod_less [of c 256] by (auto simp: contains_char_def char_of_eq_iff_mod char_class)

lemma drive_letter_text:
  assumes "is_windows_drive_letter b"
  shows "segment_text s b"
proof -
  obtain x y where b: "b = [x, y]" "is_ascii_alpha (cp x)" "y = CHR '':'' \<or> y = CHR ''|''"
    using assms by (cases b; cases "tl b") (auto simp: is_windows_drive_letter_def)
  then have "encoded Path_Set b"
    using alpha_not_encoded [OF b(2)] by (auto simp: encoded_def contains_char_def char_of_eq_iff_mod)
  with b show ?thesis by (auto simp: segment_text_def char_class)
qed

lemma file_host_ok_step:
  assumes "env_ok env" "scalar_values cs" "state_ok env p ds cs" "state p = FileHost"
  shows "local_ok env p ds cs (file_host_state env (current cs) p)"
proof -
  let ?c = "current cs" and ?b = "buffer p"
  have u: "the_url p = with_scheme ''file'' \<lparr> url_host := Some (Name []) \<rparr>"
    using assms(3,4) by (auto simp: state_ok_def)
  note host = file_path_open [of "externals_of env"]
  obtain r where r: "?b \<noteq> [] \<longrightarrow> parse_host (externals_of env) ?b False = Done r"
    using parse_host_total [of "externals_of env" ?b False] assms(1) by (metis env_ok_def exec.exhaust)
  have parsed: "path_open (externals_of env)
      (with_scheme ''file'' \<lparr> url_host := Some (if h = Name ''localhost'' then Name [] else h) \<rparr>)"
    if "?b \<noteq> []" "r = Some h" for h
  proof (cases "h = Name ''localhost''")
    case False
    with that r assms(1) have "host_canonical (externals_of env) ''file'' h"
      by (intro parse_host_canonical(1) [of _ ?b]) (auto simp: env_ok_def)
    with False show ?thesis
      by (auto simp: path_open_def authority_ok_def scheme_text_def includes_credentials_def char_class)
  qed (simp add: host)
  have not_end: "cs \<noteq> [] \<Longrightarrow> ?c \<noteq> 0xFFFFFFFF" using assms(2) by (cases cs) (auto simp: eof_not_scalar)
  show ?thesis
    using assms(1,4) u host drive_letter_text [of ?b] r parsed not_end
    by (cases cs) (auto simp: position_defs file_host_state_def Let_def split: option.splits)
qed

lemma path_start_ok_step:
  assumes "env_ok env" "scalar_values cs" "state_ok env p ds cs" "state p = PathStart"
  shows "local_ok env p ds cs (path_start_state env (current cs) p)"
proof -
  have u: "path_open (externals_of env) (the_url p)" "url_host (the_url p) \<noteq> None" "url_paths (the_url p) = []" "buffer p = []"
    using assms(3,4) by (auto simp: state_ok_def)
  then have frag: "url_fragment (the_url p) = None" by (simp add: path_open_def)
  show ?thesis
    using assms(1,2,4) u frag complete_simps(1-3) [OF u(1)]
    by (cases cs) (auto simp: position_defs path_start_state_def eof_not_scalar)
qed

lemma slash_ends_segment_update [simp]:
  "slash_ends_segment (u \<lparr> url_paths := ps \<rparr>) c = slash_ends_segment u c"
  by (simp add: slash_ends_segment_def)

lemma dot_segments_text:
  "is_windows_drive_letter b \<Longrightarrow> segment_ok s [b ! 0, CHR '':'']"
proof -
  assume b: "is_windows_drive_letter b"
  have "is_windows_drive_letter [b ! 0, CHR '':'']" using b by (simp add: is_windows_drive_letter_def)
  from drive_letter_text [OF this, of s] show ?thesis
    by (simp add: segment_ok_def is_single_dot_path_segment_def is_double_dot_path_segment_def
      equals_ignoring_ascii_case_def)
qed

lemma paths_ok_snoc:
  "\<lbrakk> paths_ok s ps; segment_ok s b; \<not> (s = ''file'' \<and> ps = [] \<and> is_windows_drive_letter b) \<rbrakk> \<Longrightarrow> paths_ok s (ps @ [b])"
  by (cases ps) (auto simp: paths_ok_def)

lemma empty_segment_ok [simp]: "segment_ok s []"
  by (simp add: segment_ok_def is_single_dot_path_segment_def is_double_dot_path_segment_def
      equals_ignoring_ascii_case_def)

lemma paths_ok_append_slash: "paths_ok s ps \<Longrightarrow> paths_ok s (ps @ [[]])"
  by (intro paths_ok_snoc) (simp_all add: is_windows_drive_letter_def)

lemma path_open_append_slash: "path_open ext v \<Longrightarrow> path_open ext (append_slash v)"
  unfolding append_slash_def by (intro path_open_paths paths_ok_append_slash) (simp_all add: path_open_def)

lemma paths_ok_drive_letter: "is_windows_drive_letter b \<Longrightarrow> paths_ok s [[b ! 0, CHR '':'']]"
  using dot_segments_text [of b s]
  by (simp add: paths_ok_def is_windows_drive_letter_def is_normalized_windows_drive_letter_def)

lemma finish_segment_ok:
  assumes "path_open ext u" "segment_text (url_scheme u) b"
  shows "\<exists>v. finish_segment c b u = Done v \<and> path_open ext v \<and> is_special v = is_special u
    \<and> (\<not> slash_ends_segment u c \<longrightarrow> url_paths v \<noteq> [])"
proof -
  have ps: "paths_ok (url_scheme u) (url_paths u)" using assms(1) by (simp add: path_open_def)
  consider (double) "is_double_dot_path_segment b" | (single) "\<not> is_double_dot_path_segment b" "is_single_dot_path_segment b"
    | (drive) "\<not> is_double_dot_path_segment b" "\<not> is_single_dot_path_segment b"
        "url_scheme u = ''file''" "url_paths u = []" "is_windows_drive_letter b"
    | (plain) "\<not> is_double_dot_path_segment b" "\<not> is_single_dot_path_segment b"
        "\<not> (url_scheme u = ''file'' \<and> url_paths u = [] \<and> is_windows_drive_letter b)" by blast
  then show ?thesis
  proof cases
    case double
    obtain v where v: "shorten_urls_path u = Done v" "path_open ext v" "url_scheme v = url_scheme u"
      using shorten_urls_path_ok [OF assms(1)] by blast
    then have "slash_ends_segment v c = slash_ends_segment u c" "is_special v = is_special u"
      by (simp_all add: slash_ends_segment_def is_special_def)
    with path_open_append_slash [OF v(2)] double v show ?thesis by (auto simp: finish_segment_def append_slash_def)
  next
    case single
    with assms path_open_append_slash [OF assms(1)] show ?thesis
      by (auto simp: finish_segment_def append_slash_def)
  next
    case drive
    with assms(1) paths_ok_drive_letter [of b "url_scheme u"] show ?thesis
      by (auto simp: finish_segment_def intro!: path_open_paths)
  next
    case plain
    with assms ps paths_ok_snoc [OF ps, of b] show ?thesis
      by (auto simp: finish_segment_def segment_ok_def intro!: path_open_paths)
  qed
qed

lemma segment_text_push:
  assumes "segment_text (url_scheme u) b" "is_unicode c" "\<not> slash_ends_segment u c"
  shows "segment_text (url_scheme u) (b @ percent_encoded Path_Set c)"
proof -
  have "CHR ''/'' \<notin> set (percent_encoded Path_Set c)"
    using percent_encoded_bytes [OF assms(2), of "CHR ''/''" Path_Set] assms(3)
    by (auto simp: char_class slash_ends_segment_def)
  moreover have "is_special u \<Longrightarrow> CHR 0x5C \<notin> set (percent_encoded Path_Set c)"
    using percent_encoded_bytes [OF assms(2), of "CHR 0x5C" Path_Set] assms(3)
    by (auto simp: char_class slash_ends_segment_def)
  moreover have "encoded Path_Set (percent_encoded Path_Set c)"
    using assms(2) by (simp add: encoded_percent_encoded)
  ultimately show ?thesis using assms(1) by (auto simp: segment_text_def is_special_def)
qed

lemma path_ok_step:
  assumes "env_ok env" "scalar_values cs" "state_ok env p ds cs" "state p = Path_State"
  shows "local_ok env p ds cs (path_state env (current cs) p)"
proof -
  let ?c = "current cs" and ?u = "the_url p"
  have u: "path_open (externals_of env) ?u" "segment_text (url_scheme ?u) (buffer p)"
    using assms(3,4) by (auto simp: state_ok_def)
  show ?thesis
  proof (cases "?c = end_of_file \<or> slash_ends_segment ?u ?c \<or> ?c = cp CHR ''?'' \<or> ?c = cp CHR ''#''")
    case True
    obtain v where v: "finish_segment ?c (buffer p) ?u = Done v" "path_open (externals_of env) v"
      "is_special v = is_special ?u" "\<not> slash_ends_segment ?u ?c \<longrightarrow> url_paths v \<noteq> []"
      using finish_segment_ok [OF u, of ?c] by blast
    then have "url_fragment v = None" by (simp add: path_open_def)
    moreover have "\<not> slash_ends_segment ?u ?c \<longleftrightarrow> ?c = end_of_file \<or> ?c = cp CHR ''?'' \<or> ?c = cp CHR ''#''"
      using True by (auto simp: slash_ends_segment_def end_of_file_def)
    ultimately show ?thesis
      using assms(1,2,4) v complete_simps(1-3) [OF v(2)] True
      by (cases cs) (auto simp: position_defs path_state_def eof_not_scalar Let_def)
  next
    case False
    then obtain c cs' where cs: "cs = c # cs'" by (cases cs) auto
    with assms(2) have "is_unicode c" by (simp add: scalar_unicode)
    with False cs assms(1,4) u segment_text_push [OF u(2), of c] show ?thesis
      by (auto simp: local_ok_def next_ok_def state_ok_def path_state_def append_percent_encoded_if_necessary_eq)
  qed
qed

lemma complete_opaque:
  assumes "scheme_text s" "\<not> is_special_scheme s" "opaque_path_text b" "trimmed env \<longrightarrow> b \<noteq> [] \<longrightarrow> last b \<noteq> CHR '' ''"
  defines "v \<equiv> with_scheme s \<lparr> url_has_an_opaque_path := True, url_paths := [b] \<rparr>"
  shows "complete env v" "complete env (v \<lparr> url_query := Some [] \<rparr>)" "complete env (v \<lparr> url_fragment := Some [] \<rparr>)"
  using assms by (auto simp: complete_def canonical_url_def authority_ok_def path_ok_def query_ok_def fragment_ok_def
    is_special_def includes_credentials_def no_trailing_space_def)

lemma last_percent_encoded:
  assumes "is_unicode c"
  shows "percent_encoded C0Control c \<noteq> []"
    "c \<noteq> cp CHR '' '' \<Longrightarrow> last (percent_encoded C0Control c) \<noteq> CHR '' ''"
    "c \<noteq> cp CHR ''/'' \<Longrightarrow> hd (percent_encoded C0Control c) \<noteq> CHR ''/''"
    "\<lbrakk> c \<noteq> cp CHR ''?''; c \<noteq> cp CHR ''#'' \<rbrakk> \<Longrightarrow> CHR ''?'' \<notin> set (percent_encoded C0Control c) \<and> CHR ''#'' \<notin> set (percent_encoded C0Control c)"
proof -
  show ne: "percent_encoded C0Control c \<noteq> []"
    using code_point_to_utf8_nonempty [OF assms]
    by (cases "code_point_to_utf8 c") (auto simp: percent_encoded_def percent_02X_def)
  note bytes = percent_encoded_bytes [OF assms, of _ C0Control]
  show "c \<noteq> cp CHR '' '' \<Longrightarrow> last (percent_encoded C0Control c) \<noteq> CHR '' ''"
    using bytes [OF last_in_set [OF ne]] by (auto simp: char_class)
  show "c \<noteq> cp CHR ''/'' \<Longrightarrow> hd (percent_encoded C0Control c) \<noteq> CHR ''/''"
    using bytes [OF hd_in_set [OF ne]] by (auto simp: char_class)
  show "\<lbrakk> c \<noteq> cp CHR ''?''; c \<noteq> cp CHR ''#'' \<rbrakk> \<Longrightarrow> CHR ''?'' \<notin> set (percent_encoded C0Control c) \<and> CHR ''#'' \<notin> set (percent_encoded C0Control c)"
    using bytes [of "CHR ''?''"] bytes [of "CHR ''#''"] by (auto simp: char_class)
qed

lemma opaque_path_text_append:
  "\<lbrakk> opaque_path_text b; encoded C0Control s; CHR ''?'' \<notin> set s; CHR ''#'' \<notin> set s;
     b = [] \<Longrightarrow> s \<noteq> [] \<Longrightarrow> hd s \<noteq> CHR ''/'' \<rbrakk> \<Longrightarrow> opaque_path_text (b @ s)"
  by (auto simp: opaque_path_text_def hd_append)

lemma opaque_space_ok:
  assumes "at_position env p ds (cp CHR '' '' # cs)" "state_ok env p ds (cp CHR '' '' # cs)" "state p = OpaquePath"
  shows "local_ok env p ds (cp CHR '' '' # cs) (or_crash (get_remaining (iterator p)) (\<lambda>remaining.
          if starts_with_char remaining CHR ''?'' \<or> starts_with_char remaining CHR ''#''
          then Break (append_to_buffer ''%20'' p) else Break (append_to_buffer '' '' p)))"
proof -
  have otext: "opaque_path_text (buffer p)" using assms(2,3) by (simp add: state_ok_def)
  have escaped: "opaque_path_text (buffer p @ ''%20'')" and space: "opaque_path_text (buffer p @ '' '')"
    by (rule opaque_path_text_append [OF otext]; simp add: encoded_def)+
  have "scalar_values cs" using assms(1) by (simp add: at_position_def)
  then have following: "starts_with_char (utf8_encode cs) CHR ''?'' \<or> starts_with_char (utf8_encode cs) CHR ''#''
      \<longleftrightarrow> current cs = cp CHR ''?'' \<or> current cs = cp CHR ''#''"
    by (simp add: starts_with_ascii) (cases cs; simp add: end_of_file_def)
  have "trimmed env \<Longrightarrow> cs \<noteq> []"
    using assms(1) by (auto simp: trimmed_def at_position_def code_point_to_utf8_ascii is_ascii_def char_of_eq_iff_mod)
  then have "trimmed env \<Longrightarrow> current cs \<noteq> end_of_file"
    using \<open>scalar_values cs\<close> by (cases cs) (auto simp: scalar_not_eof)
  with escaped space following assms(2,3) remaining_at_position [OF assms(1)] show ?thesis
    by (auto simp: local_ok_def next_ok_def state_ok_def)
qed

lemma opaque_path_ok_step:
  assumes "at_position env p ds cs" "state_ok env p ds cs" "state p = OpaquePath"
  shows "local_ok env p ds cs (opaque_path_state env (current cs) p)"
proof -
  let ?c = "current cs" and ?b = "buffer p"
  have "bare_opaque (the_url p)" using assms(2,3) by (simp add: state_ok_def)
  then obtain s where u: "the_url p = with_scheme s \<lparr> url_has_an_opaque_path := True, url_paths := [[]] \<rparr>"
    by (rule bare_opaqueE)
  then have s: "scheme_text s" "\<not> is_special_scheme s" "opaque_path_text ?b" "?b = [] \<longrightarrow> ?c \<noteq> cp CHR ''/''"
      "trimmed env \<and> ?b \<noteq> [] \<and> last ?b = CHR '' '' \<longrightarrow> ?c \<notin> {end_of_file, cp CHR ''?'', cp CHR ''#''}"
    using assms(2,3) by (simp_all add: state_ok_def is_special_def)
  consider (stop) "?c \<in> {end_of_file, cp CHR ''?'', cp CHR ''#''}" | (space) "?c = cp CHR '' ''"
    | (push) "?c \<notin> {end_of_file, cp CHR ''?'', cp CHR ''#'', cp CHR '' ''}" by blast
  then show ?thesis
  proof cases
    case stop
    have "complete env (with_scheme s \<lparr> url_has_an_opaque_path := True, url_paths := [?b] \<rparr>)"
      "complete env (with_scheme s \<lparr> url_has_an_opaque_path := True, url_paths := [?b], url_query := Some [] \<rparr>)"
      "complete env (with_scheme s \<lparr> url_has_an_opaque_path := True, url_paths := [?b], url_fragment := Some [] \<rparr>)"
      using complete_opaque [of s ?b env] s stop by auto
    moreover have "cs \<noteq> [] \<Longrightarrow> ?c \<noteq> 0xFFFFFFFF"
      using assms(1) by (cases cs) (auto simp: at_position_def eof_not_scalar)
    ultimately show ?thesis using u stop
      by (cases cs) (auto simp: position_defs opaque_path_state_def)
  next
    case space
    then obtain cs' where "cs = cp CHR '' '' # cs'" by (cases cs) (auto simp: end_of_file_def)
    with opaque_space_ok [of env p ds cs'] assms u show ?thesis by (simp add: opaque_path_state_def)
  next
    case push
    then obtain c cs' where cs: "cs = c # cs'" by (cases cs) auto
    with assms(1) have c: "is_unicode c" by (simp add: at_position_def scalar_unicode)
    note l = last_percent_encoded [OF c]
    have "opaque_path_text (?b @ percent_encoded C0Control c)"
      using l push s(4) cs c by (intro opaque_path_text_append [OF s(3)]) (auto simp: encoded_percent_encoded)
    with push cs c u s l assms(2,3) show ?thesis
      by (auto simp: local_ok_def next_ok_def state_ok_def opaque_path_state_def append_percent_encoded_if_necessary_eq)
  qed
qed

lemma encoded_after_encoding:
  assumes "encode_set \<in> {C0Control, Fragment_Set, Query_Set, SpecialQuery, Path_Set, Userinfo}"
  shows "encoded encode_set (percent_encode_after_encoding encoder input encode_set False)"
proof -
  have hex: "encoded encode_set s" if "\<forall>b\<in>set s. b = CHR ''%'' \<or> is_ascii_hex_digit (cp b)" for s
    using that percent_not_encoded [OF assms] hex_digit_not_encoded by (fastforce simp: encoded_def list_all_iff)
  have "encoded encode_set (percent_encode_event encode_set False e)" for e
  proof (cases e)
    case (Encoded_byte b)
    show ?thesis
    proof (cases "code_point_is_in_percent_encode_set (cp b) encode_set")
      case True
      with Encoded_byte hex [of "percent_02X (cp b)"] percent_02X_printable [OF of_char_less_256, of _ b]
      show ?thesis by auto
    next
      case False
      then have "cp b \<le> 0x7E" using set_beyond_ascii [of "cp b" encode_set] by (meson not_le)
      with Encoded_byte False show ?thesis
        by (simp add: append_code_point_def code_point_to_utf8_def encoded_def is_unicode_def)
    qed
  next
    case (Encoding_error c)
    have "is_ascii_hex_digit (cp b)" if "b \<in> set (convert_unsigned_to_string c 10 False)" for b
      using convert_unsigned_digit [of 10 b c False] that by (auto simp: char_class)
    then have "encoded encode_set (convert_unsigned_to_string c 10 False)" by (intro hex) blast
    moreover have "encoded encode_set ''%26%23''" "encoded encode_set ''%3B''" by (intro hex; simp add: char_class)+
    ultimately show ?thesis using Encoding_error by (simp only: percent_encode_event.simps encoded_simps)
  qed
  then show ?thesis unfolding percent_encode_after_encoding_def by (simp add: encoded_def list_all_concat_map list_all_iff)
qed

lemma complete_update:
  "\<lbrakk> complete env u; encoded (if is_special u then SpecialQuery else Query_Set) query \<rbrakk> \<Longrightarrow> complete env (u \<lparr> url_query := Some query \<rparr>)"
  "\<lbrakk> complete env u; encoded Fragment_Set fragment \<rbrakk> \<Longrightarrow> complete env (u \<lparr> url_fragment := Some fragment \<rparr>)"
  by (auto simp: complete_def canonical_url_def authority_ok_def path_ok_def query_ok_def fragment_ok_def
    includes_credentials_def no_trailing_space_def cannot_have_a_username_or_password_or_port_def split: option.splits)

lemma query_ok_step:
  assumes "env_ok env" "scalar_values cs" "state_ok env p ds cs" "state p = Query_State"
  shows "local_ok env p ds cs (query_state env (current cs) p)"
proof -
  let ?u = "the_url p" and ?set = "if is_special (the_url p) then SpecialQuery else Query_Set"
  have u: "complete env ?u" "url_fragment ?u = None" using assms(3,4) by (auto simp: state_ok_def)
  have query: "complete env (?u \<lparr> url_query := Some (percent_encode_after_encoding e (buffer p) ?set False) \<rparr>)" for e
    using u(1) by (intro complete_update encoded_after_encoding) auto
  from complete_update(2) [OF this, of "[]"] query u assms(1,2,4) show ?thesis
    by (cases cs) (auto simp: position_defs query_state_def Let_def eof_not_scalar)
qed

lemma fragment_ok_step:
  assumes "scalar_values cs" "state_ok env p ds cs" "state p = Fragment_State"
  shows "local_ok env p ds cs (fragment_state env (current cs) p)"
proof -
  let ?u = "the_url p"
  have u: "complete env ?u" using assms(2,3) by (auto simp: state_ok_def)
  have "complete env (?u \<lparr> url_fragment := Some (percent_encode_after_encoding utf8_encoder (buffer p) Fragment_Set False) \<rparr>)"
    using u(1) by (intro complete_update encoded_after_encoding) auto
  with u assms(1,3) show ?thesis
    by (cases cs) (auto simp: local_ok_def next_ok_def state_ok_def end_of_file_def fragment_state_def eof_not_scalar)
qed

subsection \<open>The loop keeps the invariant\<close>

lemma parser_step_ok:
  assumes "env_ok env" "parser_inv env p"
  shows "step_ok env (parser_step env p)"
proof -
  obtain ds cs where at: "at_position env p ds cs" and ok: "state_ok env p ds cs" using assms(2) by (auto simp: parser_inv_def)
  have sc: "scalar_values cs" using at by (simp add: at_position_def)
  note local = local_step_ok [OF at]
  have "step_ok env (state_handler (state p) env (current cs) p)"
  proof (cases "state p")
    case SchemeStart
    then show ?thesis using local scheme_start_ok [OF assms(1) _ ok] by simp
  next
    case Scheme
    then show ?thesis using scheme_ok_step [OF assms(1) at _ ok] by simp
  next
    case NoScheme
    then show ?thesis using local no_scheme_ok [OF assms(1) _ ok] by simp
  next
    case SpecialRelativeOrAuthority
    then show ?thesis using special_relative_or_authority_ok [OF assms(1) at _ ok] by simp
  next
    case PathOrAuthority
    then show ?thesis using local path_or_authority_ok [OF assms(1) _ ok] by simp
  next
    case Relative
    then show ?thesis using local relative_ok [OF assms(1) sc _ ok] by simp
  next
    case RelativeSlash
    then show ?thesis using local relative_slash_ok [OF assms(1) sc _ ok] by simp
  next
    case SpecialAuthoritySlashes
    then show ?thesis using special_authority_slashes_ok [OF at _ ok] by simp
  next
    case SpecialAuthorityIgnoreSlashes
    then show ?thesis using local special_authority_ignore_slashes_ok [OF _ ok] by simp
  next
    case Authority
    then show ?thesis using authority_ok_step [OF assms(1) at _ ok] by simp
  next
    case Host_State
    then show ?thesis using local host_ok_step [OF assms(1) sc ok] by simp
  next
    case Hostname
    then show ?thesis using ok by (simp add: state_ok_def)
  next
    case Port
    then show ?thesis using local port_ok_step [OF assms(1) ok] by simp
  next
    case File
    then show ?thesis using local file_ok_step [OF assms(1) sc ok] by simp
  next
    case FileSlash
    then show ?thesis using local file_slash_ok_step [OF assms(1) ok] by simp
  next
    case FileHost
    then show ?thesis using local file_host_ok_step [OF assms(1) sc ok] by simp
  next
    case PathStart
    then show ?thesis using local path_start_ok_step [OF assms(1) sc ok] by simp
  next
    case Path_State
    then show ?thesis using local path_ok_step [OF assms(1) sc ok] by simp
  next
    case OpaquePath
    then show ?thesis using local opaque_path_ok_step [OF at ok] by simp
  next
    case Query_State
    then show ?thesis using local query_ok_step [OF assms(1) sc ok] by simp
  next
    case Fragment_State
    then show ?thesis using local fragment_ok_step [OF sc ok] by simp
  qed
  then show ?thesis by (simp add: parser_step_def current_at_position [OF at])
qed

lemma break_inv_next:
  assumes "break_inv env q"
  shows "iterator q = [] \<Longrightarrow> complete env (the_url q)"
    "iterator q \<noteq> [] \<Longrightarrow> \<exists>rest. advance_iterator (iterator q) = Done rest \<and> parser_inv env (q \<lparr> iterator := rest \<rparr>)"
proof -
  obtain ds cs where at: "at_position env q ds cs" and ok: "next_ok env q ds cs"
    using assms by (auto simp: break_inv_def)
  have empty: "iterator q = [] \<longleftrightarrow> cs = []"
    using at code_point_to_utf8_nonempty by (cases cs) (auto simp: at_position_def scalar_unicode)
  show "iterator q = [] \<Longrightarrow> complete env (the_url q)" using ok empty by (simp add: next_ok_def)
  assume "iterator q \<noteq> []"
  then obtain c cs' where cs: "cs = c # cs'" using empty by (cases cs) auto
  have "at_position env (q \<lparr> iterator := utf8_encode cs' \<rparr>) (ds @ [c]) cs'"
    using at at_position_advance cs by blast
  then show "\<exists>rest. advance_iterator (iterator q) = Done rest \<and> parser_inv env (q \<lparr> iterator := rest \<rparr>)"
    using ok cs at advance_at_position [of env q ds c cs'] by (auto simp: next_ok_def parser_inv_def)
qed

lemma run_parser_ok:
  "\<lbrakk> env_ok env; parser_inv env p \<rbrakk> \<Longrightarrow> \<exists>ok u. run_parser env p = Done (ok, u) \<and> (ok \<longrightarrow> complete env u)"
proof (induction env p rule: run_parser.induct)
  case (1 env p)
  note step = parser_step_ok [OF 1(3,4)]
  show ?case
  proof (cases "parser_step env p")
    case (Continue q)
    with step 1(1) [OF Continue 1(3)] show ?thesis by (simp add: run_parser.simps [of env p] step_ok_def)
  next
    case (Break q)
    with step have "break_inv env q" by (simp add: step_ok_def)
    from break_inv_next [OF this] Break 1(2) [OF Break _ _ 1(3)] show ?thesis
      by (cases "iterator q = []") (auto simp: run_parser.simps [of env p])
  next
    case (Return_Url q)
    with step show ?thesis by (simp add: step_ok_def)
  next
    case (Return_Failure q)
    then show ?thesis by (auto simp: run_parser.simps [of env p])
  next
    case Crash
    with step show ?thesis by (simp add: step_ok_def)
  qed
qed

subsection \<open>The input\<close>

lemma replacement_scalar:
  "list_all is_unicode cs \<Longrightarrow> \<exists>ds. scalar_values ds \<and>
     foldl (\<lambda>builder c. if is_unicode_surrogate c then append_code_point builder REPLACEMENT_CODE_POINT
                          else append_code_point builder c) (utf8_encode es) cs = utf8_encode (es @ ds)"
proof (induction cs arbitrary: es)
  case Nil
  show ?case by (rule exI [of _ "[]"]) simp
next
  case (Cons c cs)
  let ?d = "if is_unicode_surrogate c then REPLACEMENT_CODE_POINT else c"
  have d: "is_unicode_scalar_value ?d"
    using Cons.prems by (auto simp: char_class REPLACEMENT_CODE_POINT_def)
  obtain ds where "scalar_values ds" and fold: "foldl (\<lambda>builder c. if is_unicode_surrogate c then append_code_point builder REPLACEMENT_CODE_POINT
       else append_code_point builder c) (utf8_encode (es @ [?d])) cs = utf8_encode ((es @ [?d]) @ ds)"
    using Cons.IH [of "es @ [?d]"] Cons.prems by auto
  then show ?case
    using d Cons.prems scalar_unicode [OF d] by (intro exI [of _ "?d # ds"]) (auto split: if_splits)
qed

lemma filter_utf8_encode:
  assumes "\<And>b. 0x80 \<le> cp b \<Longrightarrow> P b"
  shows "scalar_values cs \<Longrightarrow> filter P (utf8_encode cs) = utf8_encode (filter (\<lambda>c. \<not> is_ascii c \<or> P (char_of c)) cs)"
proof (induction cs)
  case (Cons c cs)
  then show ?case
    using assms code_point_to_utf8_non_ascii [of c] filter_True [of "code_point_to_utf8 c" P]
    by (cases "is_ascii c") (auto simp: code_point_to_utf8_ascii scalar_unicode)
qed simp

lemma remove_tabs_scalar:
  assumes "scalar_values cs"
  shows "\<exists>ds. scalar_values ds \<and> remove_ascii_tab_or_newline (utf8_encode cs) = utf8_encode ds"
proof -
  let ?P = "\<lambda>c. c \<noteq> CHR 0x09 \<and> c \<noteq> CHR 0x0A \<and> c \<noteq> CHR 0x0D"
  have "\<And>b. 0x80 \<le> cp b \<Longrightarrow> ?P b" by auto
  from filter_utf8_encode [of ?P, OF this assms] assms show ?thesis
    unfolding remove_ascii_tab_or_newline_def
    by (intro exI [of _ "filter (\<lambda>c. \<not> is_ascii c \<or> ?P (char_of c)) cs"] conjI) (auto simp: list_all_iff)
qed

lemma process_input_scalar:
  assumes "simdutf_ok ext"
  shows "\<exists>cs. scalar_values cs \<and> process_input ext input = utf8_encode cs"
proof -
  have "\<exists>cs. scalar_values cs \<and> from_utf8_with_replacement_character ext input = utf8_encode cs"
    using assms replacement_scalar [of "code_points input" "[]"] code_points_unicode [of input]
    by (auto simp: from_utf8_with_replacement_character_def simdutf_ok_def)
  then obtain cs where "scalar_values cs" "from_utf8_with_replacement_character ext input = utf8_encode cs" by blast
  with remove_tabs_scalar [of cs] show ?thesis by (auto simp: process_input_def Let_def)
qed

lemma trim_last:
  assumes "trim_c0_control_or_space s \<noteq> []"
  shows "cp (last (trim_c0_control_or_space s)) > 0x20"
proof -
  let ?t = "dropWhile (\<lambda>c. is_ascii_c0_control_or_space (cp c)) (rev (dropWhile (\<lambda>c. is_ascii_c0_control_or_space (cp c)) s))"
  have "?t \<noteq> []" using assms by (simp add: trim_c0_control_or_space_def Let_def)
  then have "\<not> is_ascii_c0_control_or_space (cp (hd ?t))" by (rule hd_dropWhile)
  then show ?thesis by (simp add: trim_c0_control_or_space_def Let_def last_rev is_ascii_c0_control_or_space_def)
qed

lemma last_filter: "\<lbrakk> xs \<noteq> []; P (last xs) \<rbrakk> \<Longrightarrow> filter P xs \<noteq> [] \<and> last (filter P xs) = last xs"
  by (induction xs rule: rev_induct) auto

lemma process_input_last:
  assumes "validate_utf8 ext s" "s \<noteq> []" "cp (last s) > 0x20"
  shows "last (process_input ext s) = last s"
proof -
  have "last s \<noteq> CHR 0x09 \<and> last s \<noteq> CHR 0x0A \<and> last s \<noteq> CHR 0x0D" using assms(3) by auto
  then show ?thesis
  using assms last_filter [of s "\<lambda>c. c \<noteq> CHR 0x09 \<and> c \<noteq> CHR 0x0A \<and> c \<noteq> CHR 0x0D"]
  by (auto simp: process_input_def from_utf8_with_replacement_character_def remove_ascii_tab_or_newline_def)
qed

lemma dropWhile_utf8:
  assumes "\<And>b. 0x80 \<le> cp b \<Longrightarrow> \<not> P b"
  shows "scalar_values cs \<Longrightarrow> dropWhile P (utf8_encode cs) = utf8_encode (dropWhile (\<lambda>c. is_ascii c \<and> P (char_of c)) cs)"
proof (induction cs)
  case (Cons c cs)
  show ?case
  proof (cases "is_ascii c")
    case True
    with Cons show ?thesis by (auto simp: code_point_to_utf8_ascii)
  next
    case False
    then obtain b bs where "code_point_to_utf8 c = b # bs" "\<not> P b"
      using Cons.prems assms code_point_to_utf8_nonempty [of c] code_point_to_utf8_non_ascii [of c]
      by (cases "code_point_to_utf8 c") (auto simp: scalar_unicode)
    with False show ?thesis by simp
  qed
qed simp

lemma dropWhile_rev_utf8:
  assumes "\<And>b. 0x80 \<le> cp b \<Longrightarrow> \<not> P b"
  shows "scalar_values cs \<Longrightarrow> rev (dropWhile P (rev (utf8_encode cs))) =
     utf8_encode (rev (dropWhile (\<lambda>c. is_ascii c \<and> P (char_of c)) (rev cs)))"
proof (induction cs rule: rev_induct)
  case (snoc c cs)
  show ?case
  proof (cases "is_ascii c")
    case True
    with snoc show ?thesis by (auto simp: code_point_to_utf8_ascii)
  next
    case False
    then obtain b bs where "code_point_to_utf8 c = bs @ [b]" "\<not> P b"
      using snoc.prems assms code_point_to_utf8_nonempty [of c] code_point_to_utf8_non_ascii [of c]
      by (cases "code_point_to_utf8 c" rule: rev_cases) (auto simp: scalar_unicode)
    with False show ?thesis by simp
  qed
qed simp

lemma trim_valid:
  assumes "simdutf_ok ext" "validate_utf8 ext s"
  shows "validate_utf8 ext (trim_c0_control_or_space s)"
proof -
  let ?P = "\<lambda>c. is_ascii_c0_control_or_space (cp c)"
  let ?Q = "\<lambda>c. is_ascii c \<and> ?P (char_of c)"
  obtain cs where cs: "scalar_values cs" "s = utf8_encode cs" using assms by (auto simp: simdutf_ok_def)
  have P: "\<And>b. 0x80 \<le> cp b \<Longrightarrow> \<not> ?P b" by (simp add: is_ascii_c0_control_or_space_def)
  have ds: "scalar_values (dropWhile ?Q cs)" using cs(1) by (auto simp: list_all_iff dest: set_dropWhileD)
  then have "scalar_values (rev (dropWhile ?Q (rev (dropWhile ?Q cs))))"
    by (auto simp: list_all_iff dest: set_dropWhileD)
  moreover have "trim_c0_control_or_space s = utf8_encode (rev (dropWhile ?Q (rev (dropWhile ?Q cs))))"
    using dropWhile_utf8 [OF P cs(1)] dropWhile_rev_utf8 [OF P ds]
    by (simp add: trim_c0_control_or_space_def Let_def cs(2))
  ultimately show ?thesis using assms(1) unfolding simdutf_ok_def by blast
qed

subsection \<open>The result of the parser\<close>

definition base_ok :: "externals \<Rightarrow> url option \<Rightarrow> bool" where
  "base_ok ext base = (case base of None \<Rightarrow> True | Some b \<Rightarrow> canonical_url ext b)"

lemma basic_parse_complete:
  assumes "simdutf_ok ext" "icu_ok ext" "fast_float_ok ext" "base_ok ext base"
    "length (process_input ext (trim_c0_control_or_space raw_input)) < 2 ^ 64"
  defines "env \<equiv> \<lparr> externals_of = ext, input_of = process_input ext (trim_c0_control_or_space raw_input),
     base_url = base, state_override = None \<rparr>"
  shows "\<exists>r. basic_parse ext raw_input base encoder = Done r \<and> (\<forall>u. r = Some u \<longrightarrow> complete env u)"
proof -
  let ?input = "process_input ext (trim_c0_control_or_space raw_input)"
  obtain cs where cs: "scalar_values cs" "?input = utf8_encode cs" using process_input_scalar [OF assms(1)] by blast
  have "env_ok env" using assms(1-5) by (auto simp: env_ok_def env_def base_ok_def)
  moreover have "at_position env (initial_parser empty_url SchemeStart ?input encoder) [] cs"
    using cs by (simp add: at_position_def env_def initial_parser_def)
  then have "parser_inv env (initial_parser empty_url SchemeStart ?input encoder)"
    by (auto simp: parser_inv_def state_ok_def initial_parser_def)
  ultimately obtain ok u where "run_parser env (initial_parser empty_url SchemeStart ?input encoder) = Done (ok, u)"
    "ok \<longrightarrow> complete env u" using run_parser_ok by blast
  then show ?thesis by (simp add: basic_parse_def basic_parse_into_def Let_def env_def)
qed

lemma process_input_printable:
  assumes "simdutf_ok ext" "list_all (\<lambda>c. is_ascii_printable (cp c)) s"
  shows "process_input ext s = s"
proof -
  have "is_ascii_string s" using assms(2) by (auto simp: is_ascii_string_def list_all_iff char_class)
  moreover have "\<not> contains_ascii_tab_or_newline s"
    using assms(2) by (auto simp: contains_ascii_tab_or_newline_def list_all_iff list_ex_iff is_ascii_printable_def)
  ultimately show ?thesis
    using ascii_is_utf8 [OF assms(1)] by (simp add: process_input_def from_utf8_with_replacement_character_def)
qed

lemma trim_printable:
  assumes "list_all (\<lambda>c. is_ascii_printable (cp c)) s" "s \<noteq> [] \<Longrightarrow> hd s \<noteq> CHR '' ''" "s \<noteq> [] \<Longrightarrow> last s \<noteq> CHR '' ''"
  shows "trim_c0_control_or_space s = s"
proof (cases "s = []")
  case False
  have code: "cp c \<noteq> 0x20" if "c \<noteq> CHR '' ''" for c :: char
    using that of_char_eq_iff [where 'a = nat, of c "CHR '' ''"] by simp
  have "0x20 \<le> cp (hd s)" "0x20 \<le> cp (last s)"
    using assms(1) False by (auto simp: list_all_iff is_ascii_printable_def)
  then have "cp (hd s) > 0x20" "cp (last s) > 0x20"
    using assms(2,3) False code [of "hd s"] code [of "last s"] by auto
  with False show ?thesis
    by (simp add: trim_c0_control_or_space_def is_ascii_c0_control_or_space_def Let_def dropWhile_eq_self_iff
      [THEN iffD2] hd_rev)
qed (simp add: trim_c0_control_or_space_def)

text \<open>C2: parsing never fails a \<^verbatim>\<open>VERIFY\<close>, whatever the bytes of the input and whatever encoder is given,
  and the URL it returns is canonical: a lower-case scheme, credentials, path, query and fragment
  percent-encoded by their sets, no dot segments, a host exactly when the scheme asks for one, no credentials
  or port without a host, a port that is in range and not the default, an opaque path only on a URL with
  no host and with one segment that does not start with a slash.\<close>

theorem basic_parse_total_canonical:
  assumes "simdutf_ok ext" "icu_ok ext" "fast_float_ok ext" "base_ok ext base"
    "length (process_input ext (trim_c0_control_or_space raw_input)) < 2 ^ 64"
  shows "\<exists>r. basic_parse ext raw_input base encoder = Done r \<and> (\<forall>u. r = Some u \<longrightarrow> canonical_url ext u)"
  using basic_parse_complete [OF assms, of encoder] by (auto simp: complete_def)

theorem basic_parse_total_canonical_witness:
  "\<exists>r. basic_parse reference_externals ''http://EXAMPLE/a/../b'' None None = Done r
     \<and> (\<forall>u. r = Some u \<longrightarrow> canonical_url reference_externals u)"
proof (rule basic_parse_total_canonical)
  let ?s = "''http://EXAMPLE/a/../b''"
  have "list_all (\<lambda>c. is_ascii_printable (cp c)) ?s" by (simp add: is_ascii_printable_def)
  then have "trim_c0_control_or_space ?s = ?s" "process_input reference_externals ?s = ?s"
    using trim_printable [of ?s] process_input_printable [OF simdutf_ok_reference, of ?s] by simp_all
  then show "length (process_input reference_externals (trim_c0_control_or_space ?s)) < 2 ^ 64" by simp
qed (simp_all add: simdutf_ok_reference icu_ok_reference fast_float_ok_reference base_ok_def)

end
