(* ===== verification/URL_Round_Trip.thy ===== *)
theory URL_Round_Trip
  imports URL_Parser_Invariant
begin

text \<open>
  Serializing and parsing.  The text of a canonical URL is run through the parser state by state: one
  lemma per part of the URL says in which state and with which URL the parser comes out of that part.
  Together with the invariant this gives that parsing is idempotent and that comparing serializations
  (\<^verbatim>\<open>URL::equals\<close>) compares URLs.
\<close>

subsection \<open>The loop on ASCII input\<close>

lemma ascii_iterator [simp]:
  assumes "cp b < 0x80"
  shows "current_code_point (b # bs) = cp b" "advance_iterator (b # bs) = Done bs" "get_remaining (b # bs) = Done bs"
proof -
  have "code_point_to_utf8 (cp b) @ bs = b # bs" "is_unicode (cp b)"
    using assms by (simp_all add: code_point_to_utf8_ascii char_class)
  then show "current_code_point (b # bs) = cp b" "advance_iterator (b # bs) = Done bs" "get_remaining (b # bs) = Done bs"
    using utf8_iterator [of "cp b" bs] by simp_all
qed

declare current_code_point.simps(2) [simp del] advance_iterator.simps(2) [simp del] get_remaining.simps(2) [simp del]

lemma run_continue: "parser_step env p = Continue q \<Longrightarrow> run_parser env p = run_parser env q"
  by (simp add: run_parser.simps [of env p])

lemma run_break:
  "\<lbrakk> parser_step env p = Break q; iterator q = b # bs; cp b < 0x80 \<rbrakk>
   \<Longrightarrow> run_parser env p = run_parser env (q \<lparr> iterator := bs \<rparr>)"
  by (simp add: run_parser.simps [of env p])

lemma run_end: "\<lbrakk> parser_step env p = Break q; iterator q = [] \<rbrakk> \<Longrightarrow> run_parser env p = Done (True, the_url q)"
  by (simp add: run_parser.simps [of env p])

definition in_state :: "parser_state \<Rightarrow> url \<Rightarrow> bool \<Rightarrow> parser \<Rightarrow> bool" where
  "in_state s u brackets p \<longleftrightarrow>
     state p = s \<and> the_url p = u \<and> inside_brackets p = brackets \<and> encoder_of p = utf8_encoder"

lemma in_state_update [simp]:
  "in_state s u ib (p \<lparr> buffer := b \<rparr>) = in_state s u ib p" "in_state s u ib (p \<lparr> iterator := it \<rparr>) = in_state s u ib p"
  by (simp_all add: in_state_def)

lemma run_push_loop:
  assumes step: "\<And>p c it. \<lbrakk> in_state s u ib p; iterator p = c # it; P c \<rbrakk>
      \<Longrightarrow> parser_step env p = Break (p \<lparr> buffer := buffer p @ [c] \<rparr>)"
    and ascii: "\<And>c. P c \<Longrightarrow> cp c < 0x80"
  shows "\<lbrakk> in_state s u ib p; iterator p = w @ rest; list_all P w \<rbrakk>
    \<Longrightarrow> run_parser env p = run_parser env (p \<lparr> buffer := buffer p @ w, iterator := rest \<rparr>)"
proof (induction w arbitrary: p)
  case Nil
  then show ?case by (cases p) simp
next
  case (Cons c w)
  let ?q = "p \<lparr> buffer := buffer p @ [c], iterator := w @ rest \<rparr>"
  have "parser_step env p = Break (p \<lparr> buffer := buffer p @ [c] \<rparr>)"
    using Cons.prems by (intro step [of p c "w @ rest"]) simp_all
  then have "run_parser env p = run_parser env ?q"
    using Cons.prems ascii by (subst run_break [of env p _ c "w @ rest"]) simp_all
  also have "\<dots> = run_parser env (p \<lparr> buffer := buffer p @ c # w, iterator := rest \<rparr>)"
    using Cons.IH [of ?q] Cons.prems by simp
  finally show ?case .
qed

lemma push_ascii [simp]: "cp c < 0x80 \<Longrightarrow> append_code_point b (cp c) = b @ [c]"
  by (simp add: append_code_point_def code_point_to_utf8_ascii char_class)

lemma push_code_point_ascii: "cp c < 0x80 \<Longrightarrow> push_code_point (cp c) p = p \<lparr> buffer := buffer p @ [c] \<rparr>"
  by (simp add: push_code_point_def)

lemma ascii_not_eof [simp]: "cp c \<noteq> end_of_file"
proof
  assume eof: "cp c = end_of_file"
  have "cp c < 256" by simp
  then have "end_of_file < 256" by (simp only: eof)
  then show False by (simp add: end_of_file_def)
qed

lemma cp_punctuation:
  "cp c = 35 \<longleftrightarrow> c = CHR ''#''"
  "cp c = 63 \<longleftrightarrow> c = CHR ''?''"
  "cp c = 47 \<longleftrightarrow> c = CHR ''/''"
  "cp c = 58 \<longleftrightarrow> c = CHR '':''"
  "cp c = 64 \<longleftrightarrow> c = CHR ''@''"
  "cp c = 91 \<longleftrightarrow> c = CHR ''[''"
  "cp c = 93 \<longleftrightarrow> c = CHR '']''"
  "cp c = 92 \<longleftrightarrow> c = CHR 0x5C"
  "cp c = 32 \<longleftrightarrow> c = CHR '' ''"
  "cp c = 43 \<longleftrightarrow> c = CHR ''+''"
  "cp c = 45 \<longleftrightarrow> c = CHR ''-''"
  "cp c = 46 \<longleftrightarrow> c = CHR ''.''"
  using of_char_eq_iff [where 'a = nat, of c "CHR ''#''"]
    of_char_eq_iff [where 'a = nat, of c "CHR ''?''"]
    of_char_eq_iff [where 'a = nat, of c "CHR ''/''"]
    of_char_eq_iff [where 'a = nat, of c "CHR '':''"]
    of_char_eq_iff [where 'a = nat, of c "CHR ''@''"]
    of_char_eq_iff [where 'a = nat, of c "CHR ''[''"]
    of_char_eq_iff [where 'a = nat, of c "CHR '']''"]
    of_char_eq_iff [where 'a = nat, of c "CHR 0x5C"]
    of_char_eq_iff [where 'a = nat, of c "CHR '' ''"]
    of_char_eq_iff [where 'a = nat, of c "CHR ''+''"]
    of_char_eq_iff [where 'a = nat, of c "CHR ''-''"]
    of_char_eq_iff [where 'a = nat, of c "CHR ''.''"]
  by simp_all

subsection \<open>Fragment and query\<close>

lemma encoded_ascii: "encoded encode_set (c # s) \<Longrightarrow> cp c < 0x80"
  using set_beyond_ascii [of "cp c" encode_set] by (auto simp: encoded_def intro: ccontr)

lemma percent_encode_after_utf8:
  "encoded encode_set s \<Longrightarrow> percent_encode_after_encoding utf8_encoder s encode_set False = s"
proof (induction s)
  case (Cons c s)
  then have "cp c < 0x80" by (simp add: encoded_ascii)
  with Cons show ?case by (simp add: percent_encode_after_encoding_def utf8_encoder_def encoded_def)
qed (simp add: percent_encode_after_encoding_def utf8_encoder_def)

lemma fragment_run:
  assumes "in_state Fragment_State u ib p" "buffer p = []" "iterator p = f" "encoded Fragment_Set f"
  shows "run_parser env p = Done (True, u \<lparr> url_fragment := Some f \<rparr>)"
proof -
  let ?q = "p \<lparr> buffer := f, iterator := [] \<rparr>"
  have "run_parser env p = run_parser env ?q"
    using assms
    by (subst run_push_loop [where s = Fragment_State and u = u and ib = ib and w = f and rest = "[]"
        and P = "\<lambda>c. \<not> code_point_is_in_percent_encode_set (cp c) Fragment_Set"])
      (auto simp: in_state_def parser_step_def fragment_state_def push_code_point_ascii encoded_def
        intro: encoded_ascii [of Fragment_Set _ "[]"])
  also have "\<dots> = Done (True, u \<lparr> url_fragment := Some f \<rparr>)"
    using assms
    by (subst run_end [of env ?q "clear_buffer (on_url (\<lambda>u. u \<lparr> url_fragment := Some f \<rparr>) ?q)"])
      (auto simp: in_state_def parser_step_def fragment_state_def percent_encode_after_utf8)
  finally show ?thesis .
qed

definition tail_text :: "byte_string option \<Rightarrow> byte_string option \<Rightarrow> byte_string" where
  "tail_text query fragment =
     (case query of Some q \<Rightarrow> ''?'' @ q | None \<Rightarrow> []) @ (case fragment of Some f \<Rightarrow> ''#'' @ f | None \<Rightarrow> [])"

abbreviation query_set :: "url \<Rightarrow> PercentEncodeSet" where
  "query_set u \<equiv> (if is_special u then SpecialQuery else Query_Set)"

lemma query_char: "\<not> code_point_is_in_percent_encode_set (cp c) (query_set u) \<Longrightarrow> cp c < 0x80 \<and> cp c \<noteq> cp CHR ''#''"
  using encoded_ascii [of "query_set u" c "[]"] by (auto simp: encoded_def contains_char_def cp_punctuation split: if_splits)

lemma query_step:
  assumes "in_state Query_State u ib p" "state_override env = None"
  shows "parser_step env p = (let c = current_code_point (iterator p) in
     if c = cp CHR ''#'' \<or> c = end_of_file then
       let p = clear_buffer (on_url (\<lambda>v. v \<lparr> url_query := Some
                 (percent_encode_after_encoding utf8_encoder (buffer p) (query_set u) False) \<rparr>) p)
       in if c = cp CHR ''#'' then Break (goto Fragment_State (on_url (\<lambda>u. u \<lparr> url_fragment := Some [] \<rparr>) p)) else Break p
     else Break (push_code_point c p))"
  using assms by (cases p) (simp add: in_state_def parser_step_def query_state_def Let_def)

lemma query_run:
  assumes "in_state Query_State u ib p" "state_override env = None" "buffer p = []"
    "iterator p = q @ tail_text None fragment" "encoded (query_set u) q" "url_fragment u = None"
    "\<And>f. fragment = Some f \<Longrightarrow> encoded Fragment_Set f"
  shows "run_parser env p = Done (True, u \<lparr> url_query := Some q, url_fragment := fragment \<rparr>)"
proof -
  let ?q = "p \<lparr> buffer := q, iterator := tail_text None fragment \<rparr>"
  have u: "the_url p = u" using assms(1) by (simp add: in_state_def)
  have "run_parser env p = run_parser env ?q"
    using assms
    by (subst run_push_loop [where s = Query_State and u = u and ib = ib and w = q and rest = "tail_text None fragment"
        and P = "\<lambda>c. \<not> code_point_is_in_percent_encode_set (cp c) (query_set u)"])
      (use query_char [of _ u] in \<open>auto simp: query_step Let_def push_code_point_ascii encoded_def\<close>)
  also have "\<dots> = Done (True, u \<lparr> url_query := Some q, url_fragment := fragment \<rparr>)"
  proof (cases fragment)
    case None
    then have "parser_step env ?q = Break (clear_buffer (on_url (\<lambda>u. u \<lparr> url_query := Some q \<rparr>) ?q))"
      using assms query_step [of u ib ?q env] by (simp add: tail_text_def percent_encode_after_utf8 end_of_file_def)
    with None assms(6) u show ?thesis by (subst run_end) (auto simp: tail_text_def)
  next
    case (Some f)
    let ?v = "u \<lparr> url_query := Some q, url_fragment := Some [] \<rparr>"
    let ?r = "goto Fragment_State (on_url (\<lambda>u. u \<lparr> url_fragment := Some [] \<rparr>) (clear_buffer (on_url (\<lambda>u. u \<lparr> url_query := Some q \<rparr>) ?q)))"
    have "parser_step env ?q = Break ?r"
      using assms Some query_step [of u ib ?q env] by (simp add: tail_text_def percent_encode_after_utf8)
    then have "run_parser env ?q = run_parser env (?r \<lparr> iterator := f \<rparr>)"
      using Some by (subst run_break) (auto simp: tail_text_def)
    also have "\<dots> = Done (True, ?v \<lparr> url_fragment := Some f \<rparr>)"
      using assms(1) Some assms(7) by (intro fragment_run [where ib = ib])
        (auto simp: in_state_def goto_def on_url_def clear_buffer_def)
    finally show ?thesis using Some by simp
  qed
  finally show ?thesis .
qed

subsection \<open>Paths\<close>

fun path_join :: "byte_string list \<Rightarrow> byte_string" where
  "path_join [] = []"
| "path_join (s # ss) = s @ path_segments_text ss"

lemma path_segments_Nil [simp]: "path_segments_text [] = []"
  by (simp add: path_segments_text_def)

lemma path_segments_Cons: "path_segments_text (s # ts) = CHR ''/'' # path_join (s # ts)"
  by (simp add: path_segments_text_def)

lemma finish_segment_plain:
  assumes "paths_ok (url_scheme u) (url_paths u @ [b])"
  shows "finish_segment c b u = Done (u \<lparr> url_paths := url_paths u @ [b] \<rparr>)"
proof -
  have "\<not> is_single_dot_path_segment b" "\<not> is_double_dot_path_segment b"
    using assms by (auto simp: paths_ok_def segment_ok_def)
  moreover have "[b ! 0, CHR '':''] = b" if "url_scheme u = ''file''" "url_paths u = []" "is_windows_drive_letter b"
  proof -
    have "is_normalized_windows_drive_letter b" using assms that by (auto simp: paths_ok_def)
    then show ?thesis
      by (cases b; cases "tl b") (auto simp: is_normalized_windows_drive_letter_def)
  qed
  ultimately show ?thesis by (auto simp: finish_segment_def Let_def)
qed

lemma segment_char:
  assumes "segment_text (url_scheme u) s" "c \<in> set s"
  shows "cp c < 0x80" "\<not> slash_ends_segment u (cp c)" "c \<noteq> CHR ''?''" "c \<noteq> CHR ''#''"
    "append_percent_encoded_if_necessary b (cp c) Path_Set = Done (b @ [c])"
proof -
  have c: "\<not> code_point_is_in_percent_encode_set (cp c) Path_Set"
    using assms by (auto simp: segment_text_def encoded_def list_all_iff)
  then show ascii: "cp c < 0x80" using encoded_ascii [of Path_Set c "[]"] by (simp add: encoded_def)
  then show "append_percent_encoded_if_necessary b (cp c) Path_Set = Done (b @ [c])"
    using c by (simp add: append_percent_encoded_if_necessary_eq percent_encoded_id char_class)
  show "c \<noteq> CHR ''?''" "c \<noteq> CHR ''#''" using c by (auto simp: contains_char_def char_of_eq_iff_mod)
  show "\<not> slash_ends_segment u (cp c)"
    using assms by (auto simp: segment_text_def slash_ends_segment_def is_special_def cp_punctuation)
qed

lemma segment_push:
  assumes "in_state Path_State u ib p" "iterator p = s @ rest" "segment_text (url_scheme u) s"
  shows "run_parser env p = run_parser env (p \<lparr> buffer := buffer p @ s, iterator := rest \<rparr>)"
proof (rule run_push_loop [where P = "\<lambda>c. segment_text (url_scheme u) [c]", OF _ _ assms(1,2)])
  show "list_all (\<lambda>c. segment_text (url_scheme u) [c]) s"
    using assms(3) by (auto simp: segment_text_def encoded_def list_all_iff)
next
  fix p :: parser and c it
  assume p: "in_state Path_State u ib p" "iterator p = c # it" "segment_text (url_scheme u) [c]"
  then show "parser_step env p = Break (p \<lparr> buffer := buffer p @ [c] \<rparr>)"
    using segment_char(1-4) [OF p(3), of c] segment_char(5) [OF p(3), of c "buffer p"]
    by (simp add: in_state_def parser_step_def path_state_def cp_punctuation)
qed (use segment_char in auto)

lemma path_end_run:
  assumes p: "in_state Path_State u ib p" "state_override env = None" "iterator p = tail_text query fragment"
    "paths_ok (url_scheme u) (url_paths u @ [buffer p])" "url_query u = None" "url_fragment u = None"
    and tail: "\<And>q. query = Some q \<Longrightarrow> encoded (query_set u) q" "\<And>f. fragment = Some f \<Longrightarrow> encoded Fragment_Set f"
  shows "run_parser env p =
     Done (True, u \<lparr> url_paths := url_paths u @ [buffer p], url_query := query, url_fragment := fragment \<rparr>)"
proof -
  let ?v = "u \<lparr> url_paths := url_paths u @ [buffer p] \<rparr>"
  let ?r = "clear_buffer (p \<lparr> the_url := ?v \<rparr>)"
  have u: "the_url p = u" "state p = Path_State" using p(1) by (simp_all add: in_state_def)
  note fin = finish_segment_plain [OF p(4)]
  consider (q) q where "query = Some q" | (f) f where "query = None" "fragment = Some f"
    | (none) "query = None" "fragment = None" by (cases query; cases fragment) auto
  then show ?thesis
  proof cases
    case q
    let ?s = "goto Query_State (on_url (\<lambda>u. u \<lparr> url_query := Some [] \<rparr>) ?r)"
    have "parser_step env p = Break ?s"
      using p(2,3) u q fin by (simp add: parser_step_def path_state_def tail_text_def)
    then have "run_parser env p = run_parser env (?s \<lparr> iterator := q @ tail_text None fragment \<rparr>)"
      using q p(3) by (subst run_break) (auto simp: tail_text_def)
    also have "\<dots> = Done (True, (?v \<lparr> url_query := Some [] \<rparr>) \<lparr> url_query := Some q, url_fragment := fragment \<rparr>)"
      using p q tail u by (intro query_run [where ib = ib]) (auto simp: in_state_def goto_def on_url_def clear_buffer_def)
    finally show ?thesis using q by simp
  next
    case f
    let ?s = "goto Fragment_State (on_url (\<lambda>u. u \<lparr> url_fragment := Some [] \<rparr>) ?r)"
    have "parser_step env p = Break ?s"
      using p(2,3) u f fin by (simp add: parser_step_def path_state_def tail_text_def)
    then have "run_parser env p = run_parser env (?s \<lparr> iterator := f \<rparr>)"
      using f p(3) by (subst run_break) (auto simp: tail_text_def)
    also have "\<dots> = Done (True, (?v \<lparr> url_fragment := Some [] \<rparr>) \<lparr> url_fragment := Some f \<rparr>)"
      using p f tail u by (intro fragment_run [where ib = ib]) (auto simp: in_state_def goto_def on_url_def clear_buffer_def)
    finally show ?thesis using f p(5) by simp
  next
    case none
    have "parser_step env p = Break ?r"
      using p(2,3) u none fin by (simp add: parser_step_def path_state_def tail_text_def end_of_file_def)
    then have "run_parser env p = Done (True, ?v)" using run_end [of env p ?r] none p(3) by (simp add: tail_text_def)
    with none p(5,6) show ?thesis by (cases u) simp
  qed
qed

lemma path_run:
  assumes "state_override env = None"
    and tail: "\<And>q. query = Some q \<Longrightarrow> encoded (query_set u) q" "\<And>f. fragment = Some f \<Longrightarrow> encoded Fragment_Set f"
  shows "\<lbrakk> in_state Path_State u ib p; buffer p = []; iterator p = path_join (s # ss) @ tail_text query fragment;
    paths_ok (url_scheme u) (url_paths u @ s # ss); url_query u = None; url_fragment u = None \<rbrakk>
    \<Longrightarrow> run_parser env p =
     Done (True, u \<lparr> url_paths := url_paths u @ s # ss, url_query := query, url_fragment := fragment \<rparr>)"
  using tail
proof (induction ss arbitrary: s u p)
  case Nil
  let ?q = "p \<lparr> buffer := s, iterator := tail_text query fragment \<rparr>"
  have "segment_text (url_scheme u) s" using Nil.prems(4) by (simp add: paths_ok_def segment_ok_def)
  then have "run_parser env p = run_parser env ?q"
    using segment_push [OF Nil.prems(1), of s "tail_text query fragment"] Nil.prems(2,3) by simp
  also have "\<dots> = Done (True, u \<lparr> url_paths := url_paths u @ [s], url_query := query, url_fragment := fragment \<rparr>)"
    using Nil.prems path_end_run [of u ib ?q env query fragment, OF _ assms(1)] by simp
  finally show ?case .
next
  case (Cons t ts)
  let ?rest = "path_join (t # ts) @ tail_text query fragment"
  let ?q = "p \<lparr> buffer := s, iterator := CHR ''/'' # ?rest \<rparr>" and ?v = "u \<lparr> url_paths := url_paths u @ [s] \<rparr>"
  let ?r = "?q \<lparr> the_url := ?v, buffer := [], iterator := ?rest \<rparr>"
  have "segment_text (url_scheme u) s" and ps: "paths_ok (url_scheme u) (url_paths u @ [s])"
    using Cons.prems(4) by (auto simp: paths_ok_def segment_ok_def hd_append)
  then have "run_parser env p = run_parser env ?q"
    using segment_push [OF Cons.prems(1), of s "CHR ''/'' # ?rest"] Cons.prems(2,3)
    by (simp add: path_segments_Cons)
  also have "\<dots> = run_parser env ?r"
  proof -
    have "parser_step env ?q = Break (?q \<lparr> the_url := ?v, buffer := [] \<rparr>)"
      using Cons.prems(1) finish_segment_plain [OF ps]
      by (simp add: in_state_def parser_step_def path_state_def slash_ends_segment_def clear_buffer_def Let_def)
    then show ?thesis using run_break [of env ?q _ "CHR ''/''" ?rest] by simp
  qed
  also have "\<dots> = Done (True, ?v \<lparr> url_paths := url_paths ?v @ t # ts, url_query := query, url_fragment := fragment \<rparr>)"
    using Cons.prems by (intro Cons.IH) (auto simp: in_state_def)
  finally show ?case by simp
qed

lemma tail_cases:
  obtains (q) q where "query = Some q" "tail_text query fragment = CHR ''?'' # q @ tail_text None fragment"
    | (f) f where "query = None" "fragment = Some f" "tail_text query fragment = CHR ''#'' # f"
    | (none) "query = None" "fragment = None" "tail_text query fragment = []"
  by (cases query; cases fragment) (auto simp: tail_text_def)

lemma path_start_run:
  assumes p: "in_state PathStart u ib p" "state_override env = None" "buffer p = []"
    "iterator p = path_segments_text ps @ tail_text query fragment"
    and u: "url_paths u = []" "url_query u = None" "url_fragment u = None" "paths_ok (url_scheme u) ps" "is_special u \<longrightarrow> ps \<noteq> []"
    and tail: "\<And>q. query = Some q \<Longrightarrow> encoded (query_set u) q" "\<And>f. fragment = Some f \<Longrightarrow> encoded Fragment_Set f"
  shows "run_parser env p = Done (True, u \<lparr> url_paths := ps, url_query := query, url_fragment := fragment \<rparr>)"
proof (cases ps)
  case (Cons s ss)
  let ?it = "path_join (s # ss) @ tail_text query fragment"
  have it: "iterator p = CHR ''/'' # ?it" using p(4) Cons by (simp add: path_segments_Cons)
  then have "parser_step env p = Break (goto Path_State p)"
    using p(1,2) by (simp add: in_state_def parser_step_def path_start_state_def end_of_file_def)
  then have "run_parser env p = run_parser env (goto Path_State p \<lparr> iterator := ?it \<rparr>)"
    using run_break [of env p "goto Path_State p" "CHR ''/''" ?it] it by simp
  also have "\<dots> = Done (True, u \<lparr> url_paths := url_paths u @ s # ss, url_query := query, url_fragment := fragment \<rparr>)"
    using p u tail Cons by (intro path_run [where ib = ib]) (auto simp: in_state_def goto_def)
  finally show ?thesis using u(1) Cons by simp
next
  case Nil
  have pu: "the_url p = u" "state p = PathStart" "\<not> is_special u" "iterator p = tail_text query fragment"
    using p u Nil by (auto simp: in_state_def)
  show ?thesis
  proof (cases rule: tail_cases [of query fragment])
    case (q q)
    let ?s = "goto Query_State (on_url (\<lambda>u. u \<lparr> url_query := Some [] \<rparr>) p)"
    have "parser_step env p = Break ?s" using p(2) pu q by (simp add: parser_step_def path_start_state_def)
    then have "run_parser env p = run_parser env (?s \<lparr> iterator := q @ tail_text None fragment \<rparr>)"
      using run_break [of env p ?s "CHR ''?''" "q @ tail_text None fragment"] q pu by simp
    also have "\<dots> = Done (True, (u \<lparr> url_query := Some [] \<rparr>) \<lparr> url_query := Some q, url_fragment := fragment \<rparr>)"
      using p q tail u pu by (intro query_run [where ib = ib]) (auto simp: in_state_def goto_def on_url_def)
    finally show ?thesis using q Nil u(1) by (cases u) simp
  next
    case (f f)
    let ?s = "goto Fragment_State (on_url (\<lambda>u. u \<lparr> url_fragment := Some [] \<rparr>) p)"
    have "parser_step env p = Break ?s" using p(2) pu f by (simp add: parser_step_def path_start_state_def)
    then have "run_parser env p = run_parser env (?s \<lparr> iterator := f \<rparr>)"
      using run_break [of env p ?s "CHR ''#''" f] f pu by simp
    also have "\<dots> = Done (True, (u \<lparr> url_fragment := Some [] \<rparr>) \<lparr> url_fragment := Some f \<rparr>)"
      using p f tail u pu by (intro fragment_run [where ib = ib]) (auto simp: in_state_def goto_def on_url_def)
    finally show ?thesis using f Nil u(1,2) by (cases u) simp
  next
    case none
    then have "parser_step env p = Break p" using p(2) pu by (simp add: parser_step_def path_start_state_def end_of_file_def)
    then have "run_parser env p = Done (True, u)" using run_end [of env p p] none pu by simp
    with none Nil u show ?thesis by (cases u) simp
  qed
qed

subsection \<open>Opaque paths\<close>

lemma opaque_push:
  assumes "url_paths u = [[]]" "\<And>c. c \<in> set w \<Longrightarrow> \<not> code_point_is_in_percent_encode_set (cp c) C0Control"
    "CHR ''?'' \<notin> set w" "CHR ''#'' \<notin> set w" "w \<noteq> [] \<Longrightarrow> last w \<noteq> CHR '' ''"
  shows "\<lbrakk> in_state OpaquePath u ib p; iterator p = w @ rest \<rbrakk>
    \<Longrightarrow> run_parser env p = run_parser env (p \<lparr> buffer := buffer p @ w, iterator := rest \<rparr>)"
  using assms(2-)
proof (induction w arbitrary: p)
  case Nil
  then show ?case by (cases p) simp
next
  case (Cons c w)
  let ?q = "p \<lparr> buffer := buffer p @ [c] \<rparr>"
  have enc: "\<not> code_point_is_in_percent_encode_set (cp c) C0Control" using Cons.prems by simp
  then have c: "cp c < 0x80" "append_percent_encoded_if_necessary (buffer p) (cp c) C0Control = Done (buffer p @ [c])"
    using encoded_ascii [of C0Control c "[]"] percent_encoded_id [OF enc]
    by (simp_all add: encoded_def append_percent_encoded_if_necessary_eq char_class)
  have space: "\<not> starts_with_char (w @ rest) CHR ''?'' \<and> \<not> starts_with_char (w @ rest) CHR ''#''" if "c = CHR '' ''"
    using that Cons.prems by (cases w) (auto simp: starts_with_char_def)
  have "parser_step env p = Break ?q"
    using Cons.prems(1,2,4,5) c space assms(1)
    by (auto simp: in_state_def parser_step_def opaque_path_state_def cp_punctuation append_to_buffer_def)
  then have "run_parser env p = run_parser env (?q \<lparr> iterator := w @ rest \<rparr>)"
    using run_break [of env p ?q c "w @ rest"] Cons.prems(2) c by simp
  also have "\<dots> = run_parser env (p \<lparr> buffer := buffer p @ c # w, iterator := rest \<rparr>)"
    using Cons.IH [of "?q \<lparr> iterator := w @ rest \<rparr>"] Cons.prems by (auto split: if_splits)
  finally show ?case .
qed

lemma opaque_path_run:
  assumes p: "in_state OpaquePath u ib p" "state_override env = None" "buffer p = []"
    "iterator p = path @ tail_text query fragment"
    and u: "url_paths u = [[]]" "url_query u = None" "url_fragment u = None" "opaque_path_text path"
      "path \<noteq> [] \<Longrightarrow> last path \<noteq> CHR '' ''"
    and tail: "\<And>q. query = Some q \<Longrightarrow> encoded (query_set u) q" "\<And>f. fragment = Some f \<Longrightarrow> encoded Fragment_Set f"
  shows "run_parser env p = Done (True, u \<lparr> url_paths := [path], url_query := query, url_fragment := fragment \<rparr>)"
proof -
  let ?p = "p \<lparr> buffer := path, iterator := tail_text query fragment \<rparr>" and ?v = "u \<lparr> url_paths := [path] \<rparr>"
  have pu: "the_url p = u" "state p = OpaquePath" using p by (auto simp: in_state_def)
  have "run_parser env p = run_parser env ?p"
    using u p opaque_push [OF u(1), of path ib p "tail_text query fragment" env]
    by (auto simp: opaque_path_text_def encoded_def list_all_iff)
  also have "\<dots> = Done (True, u \<lparr> url_paths := [path], url_query := query, url_fragment := fragment \<rparr>)"
  proof (cases rule: tail_cases [of query fragment])
    case (q q)
    let ?s = "goto Query_State (clear_buffer (on_url (\<lambda>u. u \<lparr> url_paths := [path], url_query := Some [] \<rparr>) ?p))"
    have "parser_step env ?p = Break ?s" using p(2) pu q u(1) by (simp add: parser_step_def opaque_path_state_def)
    then have "run_parser env ?p = run_parser env (?s \<lparr> iterator := q @ tail_text None fragment \<rparr>)"
      using run_break [of env ?p ?s "CHR ''?''" "q @ tail_text None fragment"] q by simp
    also have "\<dots> = Done (True, (?v \<lparr> url_query := Some [] \<rparr>) \<lparr> url_query := Some q, url_fragment := fragment \<rparr>)"
      using p q tail u pu by (intro query_run [where ib = ib]) (auto simp: in_state_def goto_def on_url_def clear_buffer_def)
    finally show ?thesis using q by simp
  next
    case (f f)
    let ?s = "goto Fragment_State (clear_buffer (on_url (\<lambda>u. u \<lparr> url_paths := [path], url_fragment := Some [] \<rparr>) ?p))"
    have "parser_step env ?p = Break ?s" using p(2) pu f u(1) by (simp add: parser_step_def opaque_path_state_def)
    then have "run_parser env ?p = run_parser env (?s \<lparr> iterator := f \<rparr>)"
      using run_break [of env ?p ?s "CHR ''#''" f] f by simp
    also have "\<dots> = Done (True, (?v \<lparr> url_fragment := Some [] \<rparr>) \<lparr> url_fragment := Some f \<rparr>)"
      using p f tail u pu by (intro fragment_run [where ib = ib]) (auto simp: in_state_def goto_def on_url_def clear_buffer_def)
    finally show ?thesis using f u(2) by (cases u) simp
  next
    case none
    let ?s = "clear_buffer (on_url (\<lambda>u. u \<lparr> url_paths := [path] \<rparr>) ?p)"
    have "parser_step env ?p = Break ?s" using pu none u(1) by (simp add: parser_step_def opaque_path_state_def end_of_file_def)
    then have "run_parser env ?p = Done (True, ?v)" using run_end [of env ?p ?s] none pu by simp
    with none u(2,3) show ?thesis by (cases u) simp
  qed
  finally show ?thesis .
qed

subsection \<open>Ports and hosts\<close>

definition stops :: "byte_string \<Rightarrow> bool" where
  "stops rest \<longleftrightarrow> rest = [] \<or> hd rest \<in> set ''/?#''"

lemma stops_ends: "stops rest \<Longrightarrow> ends_authority u (current_code_point rest)"
  by (cases rest) (auto simp: stops_def ends_authority_def)

lemma stops_not_char:
  "stops rest \<Longrightarrow> current_code_point rest \<noteq> cp CHR '':'' \<and> current_code_point rest \<noteq> cp CHR ''@''
     \<and> \<not> is_ascii_digit (current_code_point rest)"
  by (cases rest) (auto simp: stops_def end_of_file_def char_class)

lemma stops_text: "stops (path_segments_text ps @ tail_text query fragment)"
  by (cases ps; cases query; cases fragment) (auto simp: stops_def path_segments_text_def tail_text_def)

lemma port_none_run:
  assumes "in_state Port u ib p" "state_override env = None" "buffer p = []" "stops (iterator p)"
  shows "run_parser env p = run_parser env (goto PathStart p)"
  using assms stops_ends [OF assms(4), of u] stops_not_char [OF assms(4)]
  by (intro run_continue) (simp add: in_state_def parser_step_def port_state_def)

lemma port_some_run:
  assumes p: "in_state Port u ib p" "state_override env = None" "buffer p = []"
    "iterator p = convert_unsigned_to_string n 10 False @ rest" "stops rest"
    and n: "fast_float_ok (externals_of env)" "n < 65536" "default_port_for_scheme (url_scheme u) \<noteq> Some n"
  shows "run_parser env p =
    run_parser env (p \<lparr> state := PathStart, the_url := u \<lparr> url_port := Some n \<rparr>, iterator := rest \<rparr>)"
proof -
  let ?ds = "convert_unsigned_to_string n 10 False"
  let ?q = "p \<lparr> buffer := ?ds, iterator := rest \<rparr>"
  have digits: "list_all (\<lambda>c. is_ascii_digit (cp c)) ?ds" "list_all (\<lambda>c. digit_value c < 10) ?ds"
    using convert_unsigned_digit [of 10 _ n False] by (auto simp: list_all_iff)
  have "run_parser env p = run_parser env ?q"
    using p digits(1)
    by (subst run_push_loop [where s = Port and u = u and ib = ib and w = ?ds and rest = rest and P = "\<lambda>c. is_ascii_digit (cp c)"])
      (auto simp: in_state_def parser_step_def port_state_def push_code_point_ascii char_class)
  also have "\<dots> = run_parser env (p \<lparr> state := PathStart, the_url := u \<lparr> url_port := Some n \<rparr>, iterator := rest \<rparr>)"
  proof (rule run_continue)
    have "parse_number (externals_of env) 16 ?ds 10 = Some n"
      using parse_number_digits [OF n(1), of 10 ?ds 16] digits(2) n(2) by (simp add: convert_unsigned_value)
    then show "parser_step env ?q = Continue (p \<lparr> state := PathStart, the_url := u \<lparr> url_port := Some n \<rparr>, iterator := rest \<rparr>)"
      using p n(3) stops_ends [OF p(5), of u] stops_not_char [OF p(5)]
      by (cases p) (auto simp: in_state_def parser_step_def port_state_def clear_buffer_def on_url_def goto_def Let_def)
  qed
  finally show ?thesis .
qed

definition host_char :: "char \<Rightarrow> bool" where
  "host_char c \<longleftrightarrow> cp c < 0x80 \<and> c \<notin> set ('':/?#@[]'' @ [CHR 0x5C])"

lemma host_push:
  assumes "in_state Host_State u ib p" "state_override env = None" "iterator p = w @ rest"
    "list_all (\<lambda>c. host_char c \<or> (ib \<and> c = CHR '':'')) w"
  shows "run_parser env p = run_parser env (p \<lparr> buffer := buffer p @ w, iterator := rest \<rparr>)"
proof (rule run_push_loop [OF _ _ assms(1,3,4)])
  fix p :: parser and c it
  assume p: "in_state Host_State u ib p" "iterator p = c # it" "host_char c \<or> (ib \<and> c = CHR '':'')"
  then have "cp c < 0x80" by (auto simp: host_char_def)
  moreover have "\<not> ends_authority u (cp c)"
    using p(3) by (auto simp: ends_authority_def host_char_def cp_punctuation)
  moreover have "\<not> (c = CHR '':'' \<and> \<not> ib)" "c \<noteq> CHR ''[''" "c \<noteq> CHR '']''" using p(3) by (auto simp: host_char_def)
  ultimately show "parser_step env p = Break (p \<lparr> buffer := buffer p @ [c] \<rparr>)"
    using p(1,2) assms(2)
    by (auto simp: in_state_def parser_step_def host_state_def cp_punctuation push_code_point_ascii)
qed (auto simp: host_char_def)

lemma host_chars:
  assumes "host_canonical ext scheme h" "\<And>a. h \<noteq> IPv6 a"
  shows "list_all host_char (serialize_host h)"
proof (cases h)
  case (IPv4 a)
  then show ?thesis using serialize_ipv4_chars [of _ a] by (fastforce simp: list_all_iff host_char_def char_class)
next
  case (Name s)
  have "host_char c" if "c \<in> set s" for c
  proof -
    have "is_ascii (cp c)" "\<not> is_forbidden_host_code_point (cp c)"
      using assms(1) that Name by (auto simp: host_canonical_def host_ok_def is_ascii_string_def list_all_iff)
    then show ?thesis
      using is_forbidden_host_code_point_ascii [of c] by (auto simp: host_char_def forbidden_host_characters_def char_class)
  qed
  with Name show ?thesis by (simp add: list_all_iff)
qed (use assms in auto)

lemma push_brackets: "append_code_point b 91 = b @ ''[''" "append_code_point b 93 = b @ '']''"
  using push_ascii [of "CHR ''[''" b] push_ascii [of "CHR '']''" b] by simp_all

lemma host_text_run:
  assumes p: "in_state Host_State u False p" "state_override env = None" "buffer p = []"
    "iterator p = serialize_host h @ rest" "host_canonical ext scheme h"
  shows "run_parser env p = run_parser env (p \<lparr> buffer := serialize_host h, iterator := rest \<rparr>)"
proof (cases "\<exists>a. h = IPv6 a")
  case False
  then have "list_all host_char (serialize_host h)" using host_chars [OF p(5)] by blast
  with host_push [OF p(1,2,4)] p(3) show ?thesis by (simp add: list_all_iff)
next
  case True
  then obtain a where h: "h = IPv6 a" by blast
  let ?s = "serialize_ipv6_address a"
  let ?q = "p \<lparr> inside_brackets := True, buffer := ''['', iterator := ?s @ '']'' @ rest \<rparr>"
  let ?r = "?q \<lparr> buffer := ''['' @ ?s, iterator := '']'' @ rest \<rparr>"
  have it: "iterator p = CHR ''['' # ?s @ '']'' @ rest" using p(4) h by simp
  have "run_parser env p = run_parser env ?q"
  proof -
    have "parser_step env p = Break (p \<lparr> inside_brackets := True, buffer := ''['' \<rparr>)"
      using p(1-3) it
      by (simp add: in_state_def parser_step_def host_state_def push_code_point_def ends_authority_def end_of_file_def
        push_brackets)
    from run_break [OF this, of "CHR ''[''" "?s @ '']'' @ rest"] it show ?thesis by simp
  qed
  also have "\<dots> = run_parser env ?r"
  proof -
    have "list_all (\<lambda>c. host_char c \<or> c = CHR '':'') ?s"
      using ipv6_text_serialized
      by (fastforce simp: serialize_ipv6_address_def ipv6_text_def list_all_iff host_char_def char_class)
    with host_push [of u True ?q env ?s "'']'' @ rest"] p(1,2) show ?thesis by (simp add: in_state_def)
  qed
  also have "\<dots> = run_parser env (p \<lparr> buffer := serialize_host h, iterator := rest \<rparr>)"
  proof -
    have "parser_step env ?r = Break (?r \<lparr> inside_brackets := False, buffer := ''['' @ ?s @ '']'' \<rparr>)"
      using p(1,2)
      by (simp add: in_state_def parser_step_def host_state_def push_code_point_def ends_authority_def end_of_file_def
        push_brackets)
    from run_break [OF this, of "CHR '']''" rest] h p(1) show ?thesis by (cases p) (simp add: in_state_def)
  qed
  finally show ?thesis .
qed

lemma host_canonical_parse:
  assumes "host_canonical ext (url_scheme u) h" "is_special u \<longrightarrow> h \<noteq> Name []"
  shows "parse_host ext (serialize_host h) (\<not> is_special u) = Done (Some h)"
proof (cases "h = Name []")
  case True
  with assms(2) show ?thesis
    by (simp add: parse_host_def starts_with_char_def parse_opaque_host_def percent_encode_def code_points_def)
next
  case False
  with assms(1) show ?thesis by (auto simp: host_canonical_def is_special_def)
qed

lemma serialize_host_empty:
  assumes "host_ok h" "serialize_host h = []"
  shows "h = Name []"
  using assms by (cases h) (auto simp: serialize_ipv4_parts)

lemma host_run:
  assumes p: "in_state Host_State u False p" "state_override env = None" "buffer p = []"
    "iterator p = serialize_host h @ port_text port @ rest" "stops rest"
    and h: "host_canonical (externals_of env) (url_scheme u) h" "is_special u \<longrightarrow> h \<noteq> Name []" "port \<noteq> None \<longrightarrow> h \<noteq> Name []"
    and n: "fast_float_ok (externals_of env)" "url_port u = None"
      "\<And>n. port = Some n \<Longrightarrow> n < 65536 \<and> default_port_for_scheme (url_scheme u) \<noteq> Some n"
  shows "run_parser env p = run_parser env
    (p \<lparr> state := PathStart, the_url := u \<lparr> url_host := Some h, url_port := port \<rparr>, iterator := rest \<rparr>)"
proof -
  let ?q = "p \<lparr> buffer := serialize_host h, iterator := port_text port @ rest \<rparr>"
  let ?v = "u \<lparr> url_host := Some h \<rparr>"
  have parse: "parse_host (externals_of env) (serialize_host h) (\<not> is_special u) = Done (Some h)"
    by (rule host_canonical_parse [OF h(1,2)])
  have empty: "serialize_host h = [] \<Longrightarrow> h = Name []"
    using serialize_host_empty h(1) by (simp add: host_canonical_def)
  have pu: "the_url p = u" "state p = Host_State" "\<not> inside_brackets p" using p(1) by (auto simp: in_state_def)
  have "run_parser env p = run_parser env ?q" by (rule host_text_run [OF p(1-4) h(1)])
  also have "\<dots> = run_parser env (p \<lparr> state := PathStart, the_url := ?v \<lparr> url_port := port \<rparr>, iterator := rest \<rparr>)"
  proof (cases port)
    case (Some m)
    let ?r = "?q \<lparr> state := Port, the_url := ?v, buffer := [] \<rparr>" and ?ds = "convert_unsigned_to_string m 10 False"
    have it: "port_text port @ rest = CHR '':'' # ?ds @ rest" using Some by (simp add: port_text_def)
    have "parser_step env ?q = Break ?r"
      unfolding it using p(2) pu parse empty h(3) Some
      by (cases p) (auto simp: parser_step_def host_state_def host_state_colon_def clear_buffer_def on_url_def goto_def)
    then have "run_parser env ?q = run_parser env (?r \<lparr> iterator := ?ds @ rest \<rparr>)"
      using run_break [of env ?q ?r "CHR '':''" "?ds @ rest"] it by simp
    also have "\<dots> = run_parser env ((?r \<lparr> iterator := ?ds @ rest \<rparr>) \<lparr> state := PathStart, the_url := ?v \<lparr> url_port := Some m \<rparr>, iterator := rest \<rparr>)"
      using p n Some by (intro port_some_run [where ib = False]) (auto simp: in_state_def)
    also have "\<dots> = run_parser env (p \<lparr> state := PathStart, the_url := ?v \<lparr> url_port := port \<rparr>, iterator := rest \<rparr>)"
      using p(3) Some by (cases p) simp
    finally show ?thesis .
  next
    case None
    let ?r = "?q \<lparr> state := Port, the_url := ?v, buffer := [] \<rparr>"
    have it: "port_text port @ rest = rest" using None by (simp add: port_text_def)
    have "parser_step env ?q = Continue ?r"
      unfolding it using p(2) pu parse empty h(2) stops_ends [OF p(5), of u] stops_not_char [OF p(5)]
      by (cases p) (auto simp: parser_step_def host_state_def host_state_end_def clear_buffer_def on_url_def goto_def Let_def)
    then have "run_parser env ?q = run_parser env ?r" by (rule run_continue)
    also have "\<dots> = run_parser env (goto PathStart ?r)"
      using p it by (intro port_none_run [where ib = False]) (auto simp: in_state_def)
    also have "\<dots> = run_parser env (p \<lparr> state := PathStart, the_url := ?v \<lparr> url_port := port \<rparr>, iterator := rest \<rparr>)"
      using p(3) None n(2) it by (cases p; cases u) (simp add: goto_def)
    finally show ?thesis .
  qed
  finally show ?thesis by simp
qed

subsection \<open>The authority\<close>

lemma utf8_encode_ascii: "list_all (\<lambda>c. cp c < 0x80) s \<Longrightarrow> utf8_encode (map cp s) = s"
  by (induction s) (simp_all add: code_point_to_utf8_ascii char_class)

lemma ascii_rewind:
  assumes "list_all (\<lambda>c. cp c < 0x80) (pre @ s)"
  shows "iterator_at_byte_offset (pre @ s) (length pre) = s"
proof -
  have pre: "utf8_encode (map cp pre) = pre" and s: "utf8_encode (map cp s) = s"
    using assms by (simp_all add: utf8_encode_ascii)
  have "scalar_values (map cp pre)"
    using assms by (induction pre) (simp_all add: is_unicode_scalar_value_def is_unicode_def is_unicode_surrogate_def)
  from iterator_at_byte_offset_encode [OF this, of "map cp s"] show ?thesis by (simp add: pre s)
qed

definition authority_char :: "char \<Rightarrow> bool" where
  "authority_char c \<longleftrightarrow> cp c < 0x80 \<and> c \<notin> set (''/?#@'' @ [CHR 0x5C])"

lemma authority_push:
  assumes "in_state Authority u ib p" "iterator p = w @ rest" "list_all authority_char w"
  shows "run_parser env p = run_parser env (p \<lparr> buffer := buffer p @ w, iterator := rest \<rparr>)"
proof (rule run_push_loop [OF _ _ assms])
  fix p :: parser and c it
  assume p: "in_state Authority u ib p" "iterator p = c # it" "authority_char c"
  then have "cp c < 0x80" "c \<noteq> CHR ''@''" "\<not> ends_authority u (cp c)"
    by (auto simp: authority_char_def ends_authority_def cp_punctuation)
  with p(1,2) show "parser_step env p = Break (p \<lparr> buffer := buffer p @ [c] \<rparr>)"
    by (simp add: in_state_def parser_step_def authority_state_def cp_punctuation push_code_point_ascii)
qed (auto simp: authority_char_def)

lemma authority_host_run:
  assumes p: "in_state Authority u ib p" "buffer p = []" "iterator p = hp @ rest" "stops rest" "list_all authority_char hp"
      "at_sign_seen p \<longrightarrow> hp \<noteq> []"
    and env: "input_of env = pre @ c # hp @ rest" "list_all (\<lambda>c. cp c < 0x80) (input_of env)" "length (input_of env) < 2 ^ 64"
  shows "run_parser env p = run_parser env (p \<lparr> state := Host_State, iterator := hp @ rest \<rparr>)"
proof -
  let ?q = "p \<lparr> buffer := hp, iterator := rest \<rparr>"
  let ?r = "p \<lparr> state := Host_State, buffer := [], iterator := c # hp @ rest \<rparr>"
  have "run_parser env p = run_parser env ?q" using authority_push [OF p(1,3,5)] p(2) by simp
  also have "\<dots> = run_parser env (?r \<lparr> iterator := hp @ rest \<rparr>)"
  proof -
    have "size_t_minus (size_t_minus (length (input_of env) - length rest) (length hp)) 1 = length pre"
      using env(1,3) size_t_minus_eq [of "length hp" "length pre + 1 + length hp"] size_t_minus_eq [of 1 "length pre + 1"]
      by simp
    moreover have "iterator_at_byte_offset (input_of env) (length pre) = c # hp @ rest"
      using ascii_rewind [of pre "c # hp @ rest"] env(1,2) by simp
    ultimately have "parser_step env ?q = Break ?r"
      using p(1,6) stops_ends [OF p(4), of u] stops_not_char [OF p(4)]
      by (cases p) (auto simp: in_state_def parser_step_def authority_state_def goto_def clear_buffer_def Let_def)
    then show ?thesis using env(1,2) run_break [of env ?q ?r c "hp @ rest"] by simp
  qed
  also have "\<dots> = run_parser env (p \<lparr> state := Host_State, iterator := hp @ rest \<rparr>)"
    using p(2) by (cases p) simp
  finally show ?thesis .
qed

lemma userinfo_char:
  assumes "\<not> code_point_is_in_percent_encode_set (cp c) Userinfo"
  shows "authority_char c" "c \<noteq> CHR '':''" "append_percent_encoded_if_necessary b (cp c) Userinfo = Done (b @ [c])"
proof -
  have ascii: "cp c < 0x80" using encoded_ascii [of Userinfo c "[]"] assms by (simp add: encoded_def)
  then show "append_percent_encoded_if_necessary b (cp c) Userinfo = Done (b @ [c])"
    using percent_encoded_id [OF assms] by (simp add: append_percent_encoded_if_necessary_eq char_class)
  show "authority_char c" "c \<noteq> CHR '':''" using assms ascii by (auto simp: authority_char_def contains_char_def)
qed

lemma split_username:
  assumes "url_username u = []"
  shows "encoded Userinfo w \<Longrightarrow> split_credentials u False ub pb (map cp w @ cs) = split_credentials u False (ub @ w) pb cs"
proof (induction w arbitrary: ub)
  case (Cons c w)
  then have c: "\<not> code_point_is_in_percent_encode_set (cp c) Userinfo" and w: "encoded Userinfo w"
    by (auto simp: encoded_def)
  from userinfo_char(2) [OF c] userinfo_char(3) [OF c, of ub] Cons.IH [OF w, of "ub @ [c]"] assms show ?case
    by (auto simp: cp_punctuation)
qed simp

lemma split_password:
  assumes "url_password u = []"
  shows "encoded Userinfo w \<Longrightarrow> split_credentials u True ub pb (map cp w @ cs) = split_credentials u True ub (pb @ w) cs"
proof (induction w arbitrary: pb)
  case (Cons c w)
  then have c: "\<not> code_point_is_in_percent_encode_set (cp c) Userinfo" and w: "encoded Userinfo w"
    by (auto simp: encoded_def)
  from userinfo_char(3) [OF c, of pb] Cons.IH [OF w, of "pb @ [c]"] assms show ?case by auto
qed simp

lemma userinfo_authority: "encoded Userinfo w \<Longrightarrow> list_all authority_char w"
  using userinfo_char(1) by (auto simp: encoded_def list_all_iff)

lemma credentials_run:
  fixes username password :: byte_string
  defines "w \<equiv> username @ (if password \<noteq> [] then '':'' @ password else [])"
  assumes p: "in_state Authority u ib p" "buffer p = []" "\<not> at_sign_seen p" "\<not> password_token_seen p"
      "iterator p = w @ ''@'' @ rest"
    and u: "url_username u = []" "url_password u = []" "encoded Userinfo username" "encoded Userinfo password"
  shows "run_parser env p = run_parser env (p \<lparr> the_url := u \<lparr> url_username := username, url_password := password \<rparr>,
    at_sign_seen := True, password_token_seen := (password \<noteq> []), iterator := rest \<rparr>)"
proof -
  let ?q = "p \<lparr> buffer := w, iterator := ''@'' @ rest \<rparr>"
  let ?r = "p \<lparr> the_url := u \<lparr> url_username := username, url_password := password \<rparr>, buffer := [], at_sign_seen := True,
    password_token_seen := (password \<noteq> []), iterator := ''@'' @ rest \<rparr>"
  have chars: "list_all authority_char w"
    using userinfo_authority u(3,4) by (simp add: w_def authority_char_def)
  then have "list_all (\<lambda>c. is_ascii (cp c)) w" by (auto simp: list_all_iff authority_char_def char_class)
  then have cps: "code_points w = map cp w" by (rule ascii_code_points)
  have split: "split_credentials u False [] [] (map cp w) = Done (password \<noteq> [], username, password)"
    using split_username [OF u(1,3), of "[]" "[]"] split_password [OF u(2,4), of username "[]" "[]"]
    by (auto simp: w_def)
  have "run_parser env p = run_parser env ?q" using authority_push [OF p(1,5) chars] p(2) by simp
  also have "\<dots> = run_parser env (?r \<lparr> iterator := rest \<rparr>)"
  proof -
    have "parser_step env ?q = Break ?r"
      using p(1,3,4) split u(1,2) by (cases p; cases u)
        (auto simp: in_state_def parser_step_def authority_state_def authority_at_sign_def Let_def cps)
    then show ?thesis using run_break [of env ?q ?r "CHR ''@''" rest] by simp
  qed
  also have "\<dots> = run_parser env (p \<lparr> the_url := u \<lparr> url_username := username, url_password := password \<rparr>,
    at_sign_seen := True, password_token_seen := (password \<noteq> []), iterator := rest \<rparr>)"
    using p(2) by (cases p) simp
  finally show ?thesis .
qed

lemma host_port_chars:
  assumes "host_canonical ext scheme h"
  shows "list_all authority_char (serialize_host h @ port_text port)"
proof -
  have "list_all authority_char (serialize_host h)"
  proof (cases h)
    case (IPv6 a)
    then show ?thesis
      using ipv6_text_serialized
      by (fastforce simp: serialize_ipv6_address_def ipv6_text_def list_all_iff authority_char_def char_class)
  qed (use host_chars [OF assms] in \<open>auto simp: list_all_iff host_char_def authority_char_def\<close>)
  moreover have "list_all authority_char (port_text port)"
    using convert_unsigned_digit(3) [of 10 _ _ False]
    by (fastforce simp: port_text_def list_all_iff authority_char_def char_class split: option.splits)
  ultimately show ?thesis by simp
qed

definition with_authority :: "url \<Rightarrow> url" where
  "with_authority U = with_scheme (url_scheme U) \<lparr> url_username := url_username U, url_password := url_password U,
     url_host := url_host U, url_port := url_port U \<rparr>"

lemma authority_run:
  assumes p: "in_state Authority (with_scheme (url_scheme U)) False p" "state_override env = None" "buffer p = []"
      "\<not> at_sign_seen p" "\<not> password_token_seen p"
      "iterator p = credentials_text U @ serialize_host h @ port_text (url_port U) @ rest" "stops rest"
    and env: "input_of env = pre @ c # iterator p" "list_all (\<lambda>c. cp c < 0x80) (input_of env)"
      "length (input_of env) < 2 ^ 64" "fast_float_ok (externals_of env)"
    and U: "authority_ok (externals_of env) U" "url_host U = Some h" "url_scheme U \<noteq> ''file''"
  shows "\<exists>q. run_parser env p = run_parser env q \<and> in_state PathStart (with_authority U) False q
    \<and> buffer q = [] \<and> iterator q = rest"
proof -
  let ?hp = "serialize_host h @ port_text (url_port U)"
  let ?u = "with_scheme (url_scheme U)" and ?v = "with_scheme (url_scheme U) \<lparr> url_username := url_username U, url_password := url_password U \<rparr>"
  have h: "host_canonical (externals_of env) (url_scheme U) h" "is_special U \<longrightarrow> h \<noteq> Name []"
    "includes_credentials U \<or> url_port U \<noteq> None \<longrightarrow> h \<noteq> Name []"
    and enc: "encoded Userinfo (url_username U)" "encoded Userinfo (url_password U)"
    and port: "\<And>n. url_port U = Some n \<Longrightarrow> n < 65536 \<and> default_port_for_scheme (url_scheme U) \<noteq> Some n"
    using U by (auto simp: authority_ok_def cannot_have_a_username_or_password_or_port_def)
  have hp: "list_all authority_char ?hp" by (rule host_port_chars [OF h(1)])
  have "\<exists>q pre c. run_parser env p = run_parser env q \<and> in_state Authority ?v False q \<and> buffer q = []
    \<and> iterator q = ?hp @ rest \<and> (at_sign_seen q \<longrightarrow> ?hp \<noteq> []) \<and> input_of env = pre @ c # ?hp @ rest"
  proof (cases "includes_credentials U")
    case False
    then have "?v = ?u" by (simp add: includes_credentials_def with_scheme_def empty_url_def)
    with False p env(1) show ?thesis
      by (intro exI [of _ p] exI [of _ pre] exI [of _ c]) (simp add: credentials_text_def)
  next
    case True
    let ?w = "url_username U @ (if url_password U \<noteq> [] then '':'' @ url_password U else [])"
    let ?q = "p \<lparr> the_url := ?v, at_sign_seen := True, password_token_seen := (url_password U \<noteq> []), iterator := ?hp @ rest \<rparr>"
    have it: "iterator p = ?w @ ''@'' @ ?hp @ rest" using p(6) True by (simp add: credentials_text_def)
    have "run_parser env p = run_parser env ?q"
      using p(1,3-5) it enc by (intro credentials_run) auto
    moreover have "input_of env = (pre @ c # ?w) @ CHR ''@'' # ?hp @ rest" using env(1) it by simp
    moreover have "?hp \<noteq> []" using True h serialize_host_empty [of h] by (auto simp: host_canonical_def)
    ultimately show ?thesis using p(1,3) True
      by (intro exI [of _ ?q] exI [of _ "pre @ c # ?w"] exI [of _ "CHR ''@''"]) (simp add: in_state_def)
  qed
  then obtain q pre' c' where q: "run_parser env p = run_parser env q" "in_state Authority ?v False q" "buffer q = []"
    "iterator q = ?hp @ rest" "at_sign_seen q \<longrightarrow> ?hp \<noteq> []" "input_of env = pre' @ c' # ?hp @ rest" by blast
  let ?r = "q \<lparr> state := Host_State, iterator := ?hp @ rest \<rparr>"
  let ?s = "?r \<lparr> state := PathStart, the_url := ?v \<lparr> url_host := Some h, url_port := url_port U \<rparr>, iterator := rest \<rparr>"
  have "run_parser env q = run_parser env ?r"
    by (rule authority_host_run [OF q(2-4) p(7) hp q(5,6) env(2,3)])
  also have "\<dots> = run_parser env ?s"
    using q(2,3) p(2,7) h port env(4) by (intro host_run) (auto simp: in_state_def is_special_def)
  finally show ?thesis
    using q(1-3) U(2) by (intro exI [of _ ?s]) (simp add: in_state_def with_authority_def)
qed

lemma scheme_run:
  assumes p: "in_state SchemeStart empty_url ib p" "buffer p = []" "iterator p = s @ CHR '':'' # rest" "scheme_text s"
  shows "run_parser env p = run_parser env (p \<lparr> state := Scheme, buffer := s, iterator := CHR '':'' # rest \<rparr>)"
proof -
  obtain c t where s: "s = c # t" using p(4) by (cases s) (auto simp: scheme_text_def)
  have c: "is_ascii_lower_alpha (cp c)" and t: "list_all (\<lambda>b. is_ascii_lower_alpha (cp b) \<or> is_ascii_digit (cp b) \<or> b \<in> set ''+-.'') t"
    using p(4) s by (auto simp: scheme_text_def)
  let ?q = "p \<lparr> state := Scheme, buffer := [c] \<rparr>" and ?r = "p \<lparr> state := Scheme, buffer := [c], iterator := t @ CHR '':'' # rest \<rparr>"
  have ascii: "cp c < 0x80" using c by (auto simp: char_class)
  have "parser_step env p = Break ?q"
    using p(1-3) s c ascii
    by (cases p) (auto simp: in_state_def parser_step_def scheme_start_state_def append_to_buffer_def goto_def char_class to_ascii_lowercase_def)
  then have "run_parser env p = run_parser env ?r"
    using run_break [of env p ?q c "t @ CHR '':'' # rest"] p(3) s ascii by simp
  also have "\<dots> = run_parser env (?r \<lparr> buffer := buffer ?r @ t, iterator := CHR '':'' # rest \<rparr>)"
  proof (rule run_push_loop [where s = Scheme and u = empty_url and ib = ib, OF _ _ _ _ t])
    fix p :: parser and c it
    assume p: "in_state Scheme empty_url ib p" "iterator p = c # it"
      "is_ascii_lower_alpha (cp c) \<or> is_ascii_digit (cp c) \<or> c \<in> set ''+-.''"
    moreover from this(3) have "cp c < 0x80" "to_ascii_lowercase (cp c) = cp c"
      by (auto simp: char_class to_ascii_lowercase_def)
    moreover from p(3) have "is_ascii_alphanumeric (cp c) \<or> cp c = cp CHR ''+'' \<or> cp c = cp CHR ''-'' \<or> cp c = cp CHR ''.''"
      by (auto simp: char_class)
    ultimately show "parser_step env p = Break (p \<lparr> buffer := buffer p @ [c] \<rparr>)"
      by (simp add: in_state_def parser_step_def scheme_state_def append_to_buffer_def)
  qed (use p(1) in \<open>auto simp: in_state_def char_class\<close>)
  finally show ?thesis using s by simp
qed

lemma slashes_run:
  assumes "state p = SpecialRelativeOrAuthority \<or> state p = SpecialAuthoritySlashes" "iterator p = CHR ''/'' # CHR ''/'' # it"
  shows "run_parser env p = run_parser env (p \<lparr> state := SpecialAuthorityIgnoreSlashes, iterator := it \<rparr>)"
proof -
  let ?q = "p \<lparr> state := SpecialAuthorityIgnoreSlashes, iterator := CHR ''/'' # it \<rparr>"
  have "parser_step env p = Break ?q"
    using assms by (auto simp: parser_step_def special_relative_or_authority_state_def special_authority_slashes_state_def
      starts_with_def goto_def)
  then show ?thesis using run_break [of env p ?q "CHR ''/''" it] by simp
qed

lemma colon_step:
  "\<lbrakk> state p = Scheme; iterator p = CHR '':'' # rest \<rbrakk> \<Longrightarrow> parser_step env p = scheme_state_colon env p"
  by (simp add: parser_step_def scheme_state_def char_class)

definition after_scheme :: "byte_string \<Rightarrow> byte_string \<Rightarrow> parser \<Rightarrow> bool" where
  "after_scheme s rest p \<longleftrightarrow> in_state Scheme empty_url False p \<and> \<not> at_sign_seen p \<and> \<not> password_token_seen p
     \<and> buffer p = s \<and> iterator p = CHR '':'' # rest"

lemma after_schemeD:
  assumes "after_scheme s rest p"
  shows "state p = Scheme" "the_url p = empty_url" "\<not> inside_brackets p" "encoder_of p = utf8_encoder" "\<not> at_sign_seen p"
    "\<not> password_token_seen p" "buffer p = s" "iterator p = CHR '':'' # rest"
  using assms by (auto simp: after_scheme_def in_state_def)

text \<open>What is left of the text after the path: a canonical URL's query and fragment.\<close>

lemma canonical_tail:
  assumes "canonical_url ext U"
  shows "\<And>q. url_query U = Some q \<Longrightarrow> encoded (query_set U) q" "\<And>f. url_fragment U = Some f \<Longrightarrow> encoded Fragment_Set f"
  using assms by (auto simp: canonical_url_def query_ok_def fragment_ok_def)

lemma url_rebuilt:
  assumes "url_blob_url_entry U = None" "\<not> url_has_an_opaque_path U"
  shows "with_authority U \<lparr> url_paths := url_paths U, url_query := url_query U, url_fragment := url_fragment U \<rparr> = U"
  using assms by (cases U) (simp add: with_authority_def with_scheme_def empty_url_def)

lemma opaque_case:
  assumes p: "after_scheme (url_scheme U) (path @ tail_text (url_query U) (url_fragment U)) p" "state_override env = None"
    and U: "canonical_url ext U" "no_trailing_space U" "url_blob_url_entry U = None" "url_has_an_opaque_path U" "url_paths U = [path]"
  shows "run_parser env p = Done (True, U)"
proof -
  let ?s = "url_scheme U" and ?rest = "path @ tail_text (url_query U) (url_fragment U)"
  let ?u = "with_scheme ?s \<lparr> url_has_an_opaque_path := True, url_paths := [[]] \<rparr>"
  note d = after_schemeD [OF p(1)]
  have o: "authority_ok ext U" "\<not> is_special U" "url_host U = None" "opaque_path_text path"
    using U by (auto simp: canonical_url_def path_ok_def)
  then have auth: "url_username U = []" "url_password U = []" "url_port U = None"
    by (auto simp: authority_ok_def cannot_have_a_username_or_password_or_port_def includes_credentials_def)
  have "?s \<noteq> ''file''" using o(2) by (auto simp: is_special_def)
  have slash: "\<not> starts_with ?rest ''/''"
    using o(4) by (cases path) (auto simp: opaque_path_text_def starts_with_def tail_text_def split: option.splits)
  let ?q = "p \<lparr> state := OpaquePath, the_url := ?u, buffer := [] \<rparr>"
  have "parser_step env p = Break ?q"
    using colon_step [OF d(1,8)] scheme_state_colon_eq [OF p(2) d(2)] d o(2) \<open>?s \<noteq> ''file''\<close> slash
    by (simp add: is_special_def goto_def on_url_def clear_buffer_def append_slash_def)
  then have "run_parser env p = run_parser env (?q \<lparr> iterator := ?rest \<rparr>)"
    using run_break [of env p ?q "CHR '':''" ?rest] d(8) by simp
  also have "\<dots> = Done (True, ?u \<lparr> url_paths := [path], url_query := url_query U, url_fragment := url_fragment U \<rparr>)"
    using d p(2) o U(2,4,5) canonical_tail [OF U(1)]
    by (intro opaque_path_run [where ib = False]) (auto simp: in_state_def no_trailing_space_def is_special_def)
  also have "\<dots> = Done (True, U)"
    using U(3-5) auth o(3) by (cases U) (simp add: with_scheme_def empty_url_def)
  finally show ?thesis .
qed

abbreviation url_tail :: "url \<Rightarrow> byte_string" where
  "url_tail U \<equiv> tail_text (url_query U) (url_fragment U)"

lemma path_start_rebuilds:
  assumes q: "in_state PathStart (with_authority U) ib q" "state_override env = None" "buffer q = []"
      "iterator q = path_segments_text (url_paths U) @ url_tail U"
    and U: "canonical_url ext U" "url_blob_url_entry U = None" "\<not> url_has_an_opaque_path U"
  shows "run_parser env q = Done (True, U)"
proof -
  have v: "url_paths (with_authority U) = []" "url_query (with_authority U) = None" "url_fragment (with_authority U) = None"
    "url_scheme (with_authority U) = url_scheme U"
    by (simp_all add: with_authority_def)
  have "paths_ok (url_scheme U) (url_paths U)" "is_special U \<longrightarrow> url_paths U \<noteq> []"
    using U by (auto simp: canonical_url_def path_ok_def)
  then have "run_parser env q = Done (True, with_authority U \<lparr> url_paths := url_paths U, url_query := url_query U,
      url_fragment := url_fragment U \<rparr>)"
    using q v canonical_tail [OF U(1)] by (intro path_start_run [where ib = ib]) (auto simp: is_special_def)
  with url_rebuilt [OF U(2,3)] show ?thesis by simp
qed

lemma authority_case:
  assumes p: "in_state Authority (with_scheme (url_scheme U)) False p" "state_override env = None" "buffer p = []"
      "\<not> at_sign_seen p" "\<not> password_token_seen p"
      "iterator p = credentials_text U @ serialize_host h @ port_text (url_port U) @ path_segments_text (url_paths U) @ url_tail U"
    and env: "input_of env = pre @ c # iterator p" "list_all (\<lambda>c. cp c < 0x80) (input_of env)"
      "length (input_of env) < 2 ^ 64" "fast_float_ok (externals_of env)"
    and U: "canonical_url (externals_of env) U" "url_blob_url_entry U = None" "url_host U = Some h" "url_scheme U \<noteq> ''file''"
  shows "run_parser env p = Done (True, U)"
proof -
  have "authority_ok (externals_of env) U" "\<not> url_has_an_opaque_path U"
    using U by (auto simp: canonical_url_def path_ok_def)
  moreover from authority_run [OF p stops_text env this(1) U(3,4)] obtain q where
    "run_parser env p = run_parser env q" "in_state PathStart (with_authority U) False q" "buffer q = []"
    "iterator q = path_segments_text (url_paths U) @ url_tail U" by blast
  ultimately show ?thesis using path_start_rebuilds [OF _ p(2) _ _ U(1,2)] by simp
qed

lemma credentials_chars:
  assumes "encoded Userinfo (url_username U)" "encoded Userinfo (url_password U)"
  shows "list_all (\<lambda>c. authority_char c \<or> c = CHR ''@'') (credentials_text U)"
proof -
  have "authority_char CHR '':''" by (simp add: authority_char_def)
  moreover have "list_all (\<lambda>c. authority_char c \<or> c = CHR ''@'') w" if "encoded Userinfo w" for w
    using userinfo_authority [OF that] by (simp add: list_all_iff)
  ultimately show ?thesis using assms by (simp add: credentials_text_def)
qed

lemma special_case:
  fixes U h
  defines "auth \<equiv> credentials_text U @ serialize_host h @ port_text (url_port U) @ path_segments_text (url_paths U) @ url_tail U"
  assumes p: "after_scheme (url_scheme U) (''//'' @ auth) p" "state_override env = None"
    and env: "input_of env = url_scheme U @ ''://'' @ auth" "list_all (\<lambda>c. cp c < 0x80) (input_of env)"
      "length (input_of env) < 2 ^ 64" "fast_float_ok (externals_of env)"
    and U: "canonical_url (externals_of env) U" "url_blob_url_entry U = None" "url_host U = Some h" "url_scheme U \<noteq> ''file''" "is_special U"
  shows "run_parser env p = Done (True, U)"
proof -
  let ?s = "url_scheme U"
  note d = after_schemeD [OF p(1)]
  define st where "st = (if \<exists>base. base_url env = Some base \<and> url_scheme base = ?s
    then SpecialRelativeOrAuthority else SpecialAuthoritySlashes)"
  let ?q = "p \<lparr> state := st, the_url := with_scheme ?s, buffer := [] \<rparr>"
  let ?r = "?q \<lparr> state := SpecialAuthorityIgnoreSlashes, iterator := auth \<rparr>"
  let ?t = "?r \<lparr> state := Authority \<rparr>"
  have "parser_step env p = Break ?q"
  proof (cases "\<exists>base. base_url env = Some base \<and> url_scheme base = ?s")
    case True
    then obtain base where "base_url env = Some base" "url_scheme base = ?s" by blast
    with colon_step [OF d(1,8)] scheme_state_colon_eq [OF p(2) d(2)] d(7) U(4,5) True show ?thesis
      by (simp add: st_def is_special_def goto_def clear_buffer_def)
  next
    case False
    then have "st = SpecialAuthoritySlashes" "\<not> (case base_url env of Some base \<Rightarrow> url_scheme base = ?s | None \<Rightarrow> False)"
      by (simp_all add: st_def split: option.splits)
    with colon_step [OF d(1,8)] scheme_state_colon_eq [OF p(2) d(2), unfolded d(7)] U(4,5) show ?thesis
      by (simp add: is_special_def goto_def clear_buffer_def)
  qed
  then have "run_parser env p = run_parser env (?q \<lparr> iterator := ''//'' @ auth \<rparr>)"
    using run_break [of env p ?q "CHR '':''" "''//'' @ auth"] d(8) by simp
  also have "\<dots> = run_parser env ?r"
    using slashes_run [of "?q \<lparr> iterator := ''//'' @ auth \<rparr>" auth env] by (simp add: st_def)
  also have "\<dots> = run_parser env ?t"
  proof (rule run_continue)
    have h: "host_canonical (externals_of env) ?s h" "h \<noteq> Name []"
      and enc: "encoded Userinfo (url_username U)" "encoded Userinfo (url_password U)"
      using U by (auto simp: canonical_url_def authority_ok_def)
    have "serialize_host h \<noteq> []" using h serialize_host_empty [of h] by (auto simp: host_canonical_def)
    moreover have "list_all authority_char (serialize_host h)" using host_port_chars [OF h(1)] by simp
    moreover note credentials_chars [OF enc]
    ultimately obtain c it where auth: "auth = c # it" "authority_char c \<or> c = CHR ''@''"
      by (cases "credentials_text U"; cases "serialize_host h") (auto simp: auth_def)
    then have "cp c < 0x80" "c \<noteq> CHR ''/''" "c \<noteq> CHR 0x5C" by (auto simp: authority_char_def)
    with auth(1) show "parser_step env ?r = Continue ?t"
      by (simp add: parser_step_def special_authority_ignore_slashes_state_def goto_def cp_punctuation)
  qed
  also have "\<dots> = Done (True, U)"
  proof (rule authority_case [OF _ p(2) _ _ _ _ _ env(2-4) U(1-4)])
    show "input_of env = (?s @ '':/'') @ CHR ''/'' # iterator ?t" using env(1) by simp
  qed (use d in \<open>simp_all add: in_state_def auth_def\<close>)
  finally show ?thesis .
qed

lemma path_or_authority_entry:
  assumes p: "after_scheme s (CHR ''/'' # rest) p" "state_override env = None" "\<not> is_special_scheme s"
    "cp (hd (CHR ''/'' # rest)) < 0x80"
  shows "run_parser env p = run_parser env (p \<lparr> state := PathOrAuthority, the_url := with_scheme s, buffer := [], iterator := rest \<rparr>)"
proof -
  note d = after_schemeD [OF p(1)]
  let ?q = "p \<lparr> state := PathOrAuthority, the_url := with_scheme s, buffer := [], iterator := CHR ''/'' # rest \<rparr>"
  have "s \<noteq> ''file''" using p(3) by auto
  then have "parser_step env p = Break ?q"
    using colon_step [OF d(1,8)] scheme_state_colon_eq [OF p(2) d(2), unfolded d(7,8)] p(3)
    by (simp add: starts_with_def goto_def clear_buffer_def)
  then show ?thesis using run_break [of env p ?q "CHR ''/''" rest] by simp
qed

lemma nonspecial_case:
  fixes U h
  defines "auth \<equiv> credentials_text U @ serialize_host h @ port_text (url_port U) @ path_segments_text (url_paths U) @ url_tail U"
  assumes p: "after_scheme (url_scheme U) (''//'' @ auth) p" "state_override env = None"
    and env: "input_of env = url_scheme U @ ''://'' @ auth" "list_all (\<lambda>c. cp c < 0x80) (input_of env)"
      "length (input_of env) < 2 ^ 64" "fast_float_ok (externals_of env)"
    and U: "canonical_url (externals_of env) U" "url_blob_url_entry U = None" "url_host U = Some h" "\<not> is_special U"
  shows "run_parser env p = Done (True, U)"
proof -
  let ?s = "url_scheme U"
  note d = after_schemeD [OF p(1)]
  have s: "\<not> is_special_scheme ?s" "?s \<noteq> ''file''" using U(4) by (auto simp: is_special_def)
  let ?q = "p \<lparr> state := PathOrAuthority, the_url := with_scheme ?s, buffer := [], iterator := CHR ''/'' # auth \<rparr>"
  let ?t = "?q \<lparr> state := Authority, iterator := auth \<rparr>"
  have "run_parser env p = run_parser env ?q"
    using p s by (intro path_or_authority_entry) simp_all
  also have "\<dots> = run_parser env ?t"
  proof -
    have "parser_step env ?q = Break (?q \<lparr> state := Authority \<rparr>)"
      by (simp add: parser_step_def path_or_authority_state_def goto_def)
    then show ?thesis using run_break [of env ?q "?q \<lparr> state := Authority \<rparr>" "CHR ''/''" auth] by simp
  qed
  also have "\<dots> = Done (True, U)"
  proof (rule authority_case [OF _ p(2) _ _ _ _ _ env(2-4) U(1-3) s(2)])
    show "input_of env = (?s @ '':/'') @ CHR ''/'' # iterator ?t" using env(1) by simp
  qed (use d in \<open>simp_all add: in_state_def auth_def\<close>)
  finally show ?thesis .
qed

lemma path_text_first:
  assumes "segment_text s q" "q = [] \<longrightarrow> qs = []"
  shows "current_code_point (path_join (q # qs) @ tail_text query fragment) \<noteq> cp CHR ''/''"
proof (cases q)
  case Nil
  with assms(2) show ?thesis
    by (cases query; cases fragment) (simp_all add: tail_text_def end_of_file_def)
next
  case (Cons c cs)
  then have "cp c < 0x80" "c \<noteq> CHR ''/''"
    using assms(1) encoded_ascii [of Path_Set c cs] by (auto simp: segment_text_def)
  with Cons show ?thesis by (simp add: cp_punctuation)
qed

lemma path_run_rebuilds:
  assumes q: "in_state Path_State (with_scheme (url_scheme U)) ib q" "state_override env = None" "buffer q = []"
      "iterator q = path_join (url_paths U) @ url_tail U"
    and U: "canonical_url ext U" "url_blob_url_entry U = None" "\<not> url_has_an_opaque_path U" "url_host U = None"
  shows "run_parser env q = Done (True, U)"
proof -
  have ps: "paths_ok (url_scheme U) (url_paths U)" "url_paths U \<noteq> []"
    and auth: "url_username U = []" "url_password U = []" "url_port U = None"
    using U by (auto simp: canonical_url_def path_ok_def authority_ok_def
      cannot_have_a_username_or_password_or_port_def includes_credentials_def)
  obtain s ss where paths: "url_paths U = s # ss" using ps(2) by (cases "url_paths U") auto
  have "run_parser env q = Done (True, with_scheme (url_scheme U) \<lparr> url_paths := url_paths (with_scheme (url_scheme U)) @ s # ss,
      url_query := url_query U, url_fragment := url_fragment U \<rparr>)"
    using q ps paths canonical_tail [OF U(1)] by (intro path_run [where ib = ib]) (auto simp: is_special_def)
  also have "\<dots> = Done (True, U)"
    using U(2-4) auth paths by (cases U) (simp add: with_scheme_def empty_url_def)
  finally show ?thesis .
qed

lemma no_host_case:
  fixes U
  defines "dot \<equiv> (if length (url_paths U) > 1 \<and> hd (url_paths U) = [] then ''/.'' else [])"
  assumes p: "after_scheme (url_scheme U) (dot @ path_segments_text (url_paths U) @ url_tail U) p" "state_override env = None"
    and U: "canonical_url ext U" "url_blob_url_entry U = None" "url_host U = None" "\<not> url_has_an_opaque_path U"
  shows "run_parser env p = Done (True, U)"
proof -
  let ?s = "url_scheme U" and ?text = "path_join (url_paths U) @ url_tail U"
  note d = after_schemeD [OF p(1)]
  have ps: "paths_ok ?s (url_paths U)" "url_paths U \<noteq> []" and s: "\<not> is_special_scheme ?s"
    using U by (auto simp: canonical_url_def path_ok_def authority_ok_def is_special_def)
  obtain q qs where paths: "url_paths U = q # qs" using ps(2) by (cases "url_paths U") auto
  have q: "segment_text ?s q" using ps(1) paths by (simp add: paths_ok_def segment_ok_def)
  show ?thesis
  proof (cases "dot = []")
    case True
    then have first: "q = [] \<longrightarrow> qs = []" using paths by (auto simp: dot_def split: if_splits)
    let ?q = "p \<lparr> state := PathOrAuthority, the_url := with_scheme ?s, buffer := [], iterator := ?text \<rparr>"
    have "run_parser env p = run_parser env ?q"
      using p s True paths by (intro path_or_authority_entry) (simp_all add: path_segments_Cons)
    also have "\<dots> = run_parser env (?q \<lparr> state := Path_State \<rparr>)"
      using path_text_first [OF q first, of "url_query U" "url_fragment U"] paths
      by (intro run_continue) (simp add: parser_step_def path_or_authority_state_def goto_def)
    also have "\<dots> = Done (True, U)"
      using d p(2) U by (intro path_run_rebuilds [where ib = False]) (auto simp: in_state_def)
    finally show ?thesis .
  next
    case False
    then have dot: "dot = ''/.''" by (simp add: dot_def split: if_splits)
    let ?q = "p \<lparr> state := PathOrAuthority, the_url := with_scheme ?s, buffer := [], iterator := CHR ''.'' # CHR ''/'' # ?text \<rparr>"
    let ?r = "?q \<lparr> state := Path_State, buffer := ''.'', iterator := CHR ''/'' # ?text \<rparr>"
    have "run_parser env p = run_parser env ?q"
      using p s dot paths by (intro path_or_authority_entry) (simp_all add: path_segments_Cons)
    also have "\<dots> = run_parser env (?q \<lparr> state := Path_State \<rparr>)"
      by (intro run_continue) (simp add: parser_step_def path_or_authority_state_def goto_def)
    also have "\<dots> = run_parser env ?r"
    proof -
      have "segment_text ?s ''.''" using s by (simp add: segment_text_def encoded_def contains_char_def char_of_eq_iff_mod)
      then show ?thesis
        using segment_push [of "with_scheme ?s" False "?q \<lparr> state := Path_State \<rparr>" "''.''" "CHR ''/'' # ?text" env] d
        by (simp add: in_state_def)
    qed
    also have "\<dots> = run_parser env (?r \<lparr> buffer := [], iterator := ?text \<rparr>)"
    proof -
      have "finish_segment (cp CHR ''/'') ''.'' (with_scheme ?s) = Done (with_scheme ?s)"
        by (simp add: finish_segment_def is_double_dot_path_segment_def is_single_dot_path_segment_def
          slash_ends_segment_def equals_ignoring_ascii_case_def)
      then have "parser_step env ?r = Break (?r \<lparr> buffer := [] \<rparr>)"
        by (simp add: parser_step_def path_state_def slash_ends_segment_def clear_buffer_def Let_def)
      then show ?thesis using run_break [of env ?r "?r \<lparr> buffer := [] \<rparr>" "CHR ''/''" ?text] by simp
    qed
    also have "\<dots> = Done (True, U)"
      using d p(2) U by (intro path_run_rebuilds [where ib = False]) (auto simp: in_state_def)
    finally show ?thesis .
  qed
qed

lemma host_not_drive_letter:
  assumes "host_canonical ext scheme h"
  shows "\<not> is_windows_drive_letter (serialize_host h)"
proof
  assume "is_windows_drive_letter (serialize_host h)"
  then obtain x y where h: "serialize_host h = [x, y]" "is_ascii_alpha (cp x)" "y = CHR '':'' \<or> y = CHR ''|''"
    by (cases "serialize_host h"; cases "tl (serialize_host h)") (auto simp: is_windows_drive_letter_def)
  show False
  proof (cases h)
    case (IPv4 a)
    with h serialize_ipv4_chars [of x a] show False by (auto simp: char_class)
  next
    case (IPv6 a)
    with h show False by (auto simp: char_class)
  next
    case (Name s)
    with h assms have "\<not> is_forbidden_host_code_point (cp y)" by (auto simp: host_canonical_def)
    with h(3) is_forbidden_host_code_point_ascii [of y] show False
      by (auto simp: forbidden_host_characters_def char_class)
  qed
qed

lemma file_host_push:
  assumes "in_state FileHost u ib p" "iterator p = w @ rest" "list_all authority_char w"
  shows "run_parser env p = run_parser env (p \<lparr> buffer := buffer p @ w, iterator := rest \<rparr>)"
proof (rule run_push_loop [OF _ _ assms])
  fix p :: parser and c it
  assume p: "in_state FileHost u ib p" "iterator p = c # it" "authority_char c"
  then have "cp c < 0x80" "c \<noteq> CHR ''/''" "c \<noteq> CHR 0x5C" "c \<noteq> CHR ''?''" "c \<noteq> CHR ''#''"
    by (auto simp: authority_char_def)
  with p(1,2) show "parser_step env p = Break (p \<lparr> buffer := buffer p @ [c] \<rparr>)"
    by (simp add: in_state_def parser_step_def file_host_state_def cp_punctuation push_code_point_ascii)
qed (auto simp: authority_char_def)

lemma file_host_run:
  assumes p: "in_state FileHost (with_scheme ''file'' \<lparr> url_host := Some (Name []) \<rparr>) ib p" "state_override env = None" "buffer p = []"
      "iterator p = serialize_host h @ CHR ''/'' # rest"
    and h: "host_canonical (externals_of env) ''file'' h"
  shows "run_parser env p = run_parser env
    (p \<lparr> state := PathStart, the_url := with_scheme ''file'' \<lparr> url_host := Some h \<rparr>, iterator := CHR ''/'' # rest \<rparr>)"
proof -
  let ?q = "p \<lparr> buffer := serialize_host h, iterator := CHR ''/'' # rest \<rparr>"
  let ?r = "p \<lparr> state := PathStart, the_url := with_scheme ''file'' \<lparr> url_host := Some h \<rparr>, iterator := CHR ''/'' # rest \<rparr>"
  have "list_all authority_char (serialize_host h)" using host_port_chars [OF h] by simp
  then have "run_parser env p = run_parser env ?q" using file_host_push [OF p(1,4)] p(3) by simp
  also have "\<dots> = run_parser env ?r"
  proof (rule run_continue)
    have local: "h \<noteq> Name ''localhost''" "\<not> is_windows_drive_letter (serialize_host h)" "host_ok h"
      using h host_not_drive_letter [OF h] by (auto simp: host_canonical_def)
    have parse: "h \<noteq> Name [] \<Longrightarrow> parse_host (externals_of env) (serialize_host h) False = Done (Some h)"
      using h by (auto simp: host_canonical_def)
    show "parser_step env ?q = Continue ?r"
    proof (cases "serialize_host h = []")
      case True
      then have "h = Name []" using serialize_host_empty local(3) by blast
      with True p(1-3) local(2) show ?thesis
        by (cases p) (simp add: in_state_def parser_step_def file_host_state_def on_url_def goto_def)
    next
      case False
      then have "h \<noteq> Name []" by auto
      with False p(1-3) local parse show ?thesis
        by (cases p) (simp add: in_state_def parser_step_def file_host_state_def on_url_def goto_def clear_buffer_def Let_def)
    qed
  qed
  finally show ?thesis .
qed

lemma file_case:
  assumes p: "after_scheme ''file'' (''//'' @ serialize_host h @ path_segments_text (url_paths U) @ url_tail U) p"
      "state_override env = None"
    and U: "canonical_url (externals_of env) U" "url_blob_url_entry U = None" "url_host U = Some h" "url_scheme U = ''file''"
  shows "run_parser env p = Done (True, U)"
proof -
  note d = after_schemeD [OF p(1)]
  let ?v = "with_scheme ''file'' \<lparr> url_host := Some (Name []) \<rparr>"
  have U': "url_username U = []" "url_password U = []" "url_port U = None" "host_canonical (externals_of env) ''file'' h"
    "url_paths U \<noteq> []" "\<not> url_has_an_opaque_path U"
    using U by (auto simp: canonical_url_def authority_ok_def path_ok_def is_special_def includes_credentials_def
      cannot_have_a_username_or_password_or_port_def split: if_splits)
  obtain q qs where paths: "url_paths U = q # qs" using U'(5) by (cases "url_paths U") auto
  let ?rest = "path_join (url_paths U) @ url_tail U"
  let ?text = "serialize_host h @ CHR ''/'' # ?rest"
  have txt_eq: "serialize_host h @ path_segments_text (url_paths U) @ url_tail U = ?text"
    using paths by (simp add: path_segments_Cons)
  let ?a = "p \<lparr> state := File, the_url := with_scheme ''file'', buffer := [], iterator := CHR ''/'' # CHR ''/'' # ?text \<rparr>"
  let ?b = "?a \<lparr> state := FileSlash, the_url := ?v, iterator := CHR ''/'' # ?text \<rparr>"
  let ?c = "?b \<lparr> state := FileHost, iterator := ?text \<rparr>"
  let ?e = "?c \<lparr> state := PathStart, the_url := with_scheme ''file'' \<lparr> url_host := Some h \<rparr>, iterator := CHR ''/'' # ?rest \<rparr>"
  have "parser_step env p = Break (p \<lparr> state := File, the_url := with_scheme ''file'', buffer := [] \<rparr>)"
    using colon_step [OF d(1,8)] scheme_state_colon_eq [OF p(2) d(2), unfolded d(7,8)]
    by (simp add: goto_def clear_buffer_def)
  then have "run_parser env p = run_parser env ?a"
    using run_break [of env p _ "CHR '':''" "CHR ''/'' # CHR ''/'' # ?text"] d(8) txt_eq by simp
  also have "\<dots> = run_parser env ?b"
  proof -
    have "parser_step env ?a = Break (?a \<lparr> state := FileSlash, the_url := ?v \<rparr>)"
      by (simp add: parser_step_def file_state_def on_url_def goto_def Let_def)
    then show ?thesis using run_break [of env ?a _ "CHR ''/''" "CHR ''/'' # ?text"] by simp
  qed
  also have "\<dots> = run_parser env ?c"
  proof -
    have "parser_step env ?b = Break (?b \<lparr> state := FileHost \<rparr>)"
      by (simp add: parser_step_def file_slash_state_def goto_def)
    then show ?thesis using run_break [of env ?b _ "CHR ''/''" ?text] by simp
  qed
  also have "\<dots> = run_parser env ?e"
    using d p(2) U'(4) by (subst file_host_run [where ib = False and h = h and rest = ?rest]) (auto simp: in_state_def)
  also have "\<dots> = Done (True, U)"
  proof (rule path_start_rebuilds [OF _ p(2) _ _ U(1,2) U'(6)])
    have "with_authority U = with_scheme ''file'' \<lparr> url_host := Some h \<rparr>"
      using U(3,4) U' by (simp add: with_authority_def with_scheme_def empty_url_def)
    then show "in_state PathStart (with_authority U) False ?e" using d by (simp add: in_state_def)
    show "iterator ?e = path_segments_text (url_paths U) @ url_tail U" using paths by (simp add: path_segments_Cons)
  qed simp
  finally show ?thesis .
qed

subsection \<open>The text of a canonical URL\<close>

definition authority_text :: "url \<Rightarrow> byte_string" where
  "authority_text U = (case url_host U of
     Some h \<Rightarrow> ''//'' @ credentials_text U @ serialize_host h @ port_text (url_port U)
   | None \<Rightarrow> (if length (url_paths U) > 1 \<and> hd (url_paths U) = [] then ''/.'' else []))"

definition body_text :: "url \<Rightarrow> byte_string" where
  "body_text U =
     (if url_has_an_opaque_path U then hd (url_paths U) else authority_text U @ path_segments_text (url_paths U)) @ url_tail U"

lemma url_tail_eq: "url_tail U = query_text U @ fragment_text U"
  by (simp add: tail_text_def query_text_def fragment_text_def)

lemma serialize_url_text:
  assumes "canonical_url ext U"
  shows "serialize_url False U = Done (url_scheme U @ CHR '':'' # body_text U)"
  using assms
  by (auto simp: serialize_url_def body_text_def authority_text_def path_text_def first_path_def url_tail_eq
    canonical_url_def path_ok_def split: option.splits)

definition visible :: "byte_string \<Rightarrow> bool" where
  "visible s \<longleftrightarrow> list_all (\<lambda>c. is_ascii_printable (cp c) \<and> c \<noteq> CHR '' '') s"

lemma visible_simps [simp]:
  "visible []" "visible (c # s) \<longleftrightarrow> is_ascii_printable (cp c) \<and> c \<noteq> CHR '' '' \<and> visible s"
  "visible (s @ t) \<longleftrightarrow> visible s \<and> visible t"
  by (auto simp: visible_def)

lemma encoded_printable: "encoded encode_set s \<Longrightarrow> list_all (\<lambda>c. is_ascii_printable (cp c)) s"
  using set_beyond_ascii [of _ encode_set] set_controls [of _ encode_set]
  by (fastforce simp: encoded_def list_all_iff is_ascii_printable_def not_less [symmetric])

lemma encoded_visible:
  assumes "encoded encode_set s" "encode_set \<in> {Fragment_Set, Query_Set, SpecialQuery, Path_Set, Userinfo}"
  shows "visible s"
proof -
  have "code_point_is_in_percent_encode_set (cp CHR '' '') encode_set"
    using assms(2) by (auto simp: contains_char_def char_of_eq_iff_mod)
  then have "c \<noteq> CHR '' ''" if "c \<in> set s" for c
    using assms(1) that unfolding encoded_def list_all_iff by metis
  with encoded_printable [OF assms(1)] show ?thesis by (simp add: visible_def list_all_iff)
qed

lemma digits_visible: "visible (convert_unsigned_to_string n 10 False)"
  using convert_unsigned_digit(3) [of 10 _ n False] by (fastforce simp: visible_def list_all_iff char_class)

lemma host_visible:
  assumes "host_canonical ext scheme h"
  shows "visible (serialize_host h)"
proof (cases h)
  case (IPv4 a)
  then show ?thesis using serialize_ipv4_chars [of _ a] by (fastforce simp: visible_def list_all_iff char_class)
next
  case (IPv6 a)
  then show ?thesis
    using ipv6_text_serialized
    by (fastforce simp: serialize_ipv6_address_def ipv6_text_def list_all_iff visible_def char_class)
next
  case (Name s)
  have "c \<noteq> CHR '' ''" if "c \<in> set s" for c
    using assms Name that is_forbidden_host_code_point_ascii [of "CHR '' ''"]
    by (auto simp: host_canonical_def forbidden_host_characters_def char_class)
  moreover have "list_all (\<lambda>c. is_ascii_printable (cp c)) s"
  proof (cases "is_special_scheme scheme \<or> s = []")
    case True
    with assms Name have "\<And>c. c \<in> set s \<Longrightarrow> is_ascii (cp c) \<and> \<not> is_forbidden_domain_code_point (cp c)"
      by (auto simp: host_canonical_def domain_host_ok_def host_ok_def is_ascii_string_def list_all_iff)
    then show ?thesis by (force simp: list_all_iff is_forbidden_domain_code_point_def char_class not_less)
  next
    case False
    with assms Name have "parse_opaque_host s = Done (Some (Name s))"
      by (auto simp: host_canonical_def parse_host_def Some_eq_map_option_iff split: if_splits)
    then have "percent_encode s C0Control False = Done s"
      by (auto simp: parse_opaque_host_def split: if_splits)
    with percent_encode_printable [of s C0Control False] show ?thesis by auto
  qed
  ultimately show ?thesis using Name by (simp add: visible_def list_all_iff)
qed

lemma authority_visible:
  assumes "authority_ok ext U"
  shows "visible (authority_text U)"
proof -
  have "visible (credentials_text U)"
    using assms encoded_visible [of Userinfo] by (simp add: authority_ok_def credentials_text_def is_ascii_printable_def)
  moreover have "visible (port_text (url_port U))"
    by (simp add: port_text_def digits_visible is_ascii_printable_def split: option.splits)
  ultimately show ?thesis
    using assms host_visible [of ext "url_scheme U"]
    by (auto simp: authority_text_def authority_ok_def is_ascii_printable_def split: option.splits)
qed

lemma paths_visible:
  assumes "paths_ok s ps"
  shows "visible (path_segments_text ps)"
proof -
  have "encoded Path_Set q" if "q \<in> set ps" for q
    using assms that by (auto simp: paths_ok_def segment_ok_def segment_text_def list_all_iff)
  then have "visible (''/'' @ q)" if "q \<in> set ps" for q
    using that encoded_visible [of Path_Set q] by (simp add: is_ascii_printable_def)
  then show ?thesis
    unfolding visible_def path_segments_text_def list_all_concat_map by (simp only: list_all_iff) blast
qed

lemma tail_visible:
  assumes "canonical_url ext U"
  shows "visible (url_tail U)"
  using canonical_tail [OF assms] encoded_visible [of "query_set U"] encoded_visible [of Fragment_Set]
  by (cases "url_query U"; cases "url_fragment U") (auto simp: tail_text_def is_ascii_printable_def)

lemma printable_ascii: "list_all (\<lambda>c. is_ascii_printable (cp c)) s \<Longrightarrow> list_all (\<lambda>c. cp c < 0x80) s"
  by (induction s) (auto simp: is_ascii_printable_def)

lemma visible_printable: "visible s \<Longrightarrow> list_all (\<lambda>c. is_ascii_printable (cp c)) s"
  by (simp add: visible_def list_all_iff)

lemma body_printable:
  assumes "canonical_url ext U"
  shows "list_all (\<lambda>c. is_ascii_printable (cp c)) (url_scheme U @ CHR '':'' # body_text U)"
proof -
  have "list_all (\<lambda>c. is_ascii_printable (cp c)) (url_scheme U)"
    using assms by (fastforce simp: canonical_url_def authority_ok_def scheme_text_def list_all_iff char_class)
  moreover have "list_all (\<lambda>c. is_ascii_printable (cp c)) (body_text U)"
  proof (cases "url_has_an_opaque_path U")
    case True
    then have "encoded C0Control (hd (url_paths U))"
      using assms by (auto simp: canonical_url_def path_ok_def opaque_path_text_def)
    with True encoded_printable [OF this] visible_printable [OF tail_visible [OF assms]] show ?thesis
      by (simp add: body_text_def)
  next
    case False
    then have "visible (body_text U)"
      using assms authority_visible paths_visible tail_visible [OF assms]
      by (auto simp: body_text_def canonical_url_def path_ok_def)
    then show ?thesis by (rule visible_printable)
  qed
  ultimately show ?thesis by (simp add: is_ascii_printable_def)
qed

lemma visible_last: "\<lbrakk> visible s; s \<noteq> [] \<rbrakk> \<Longrightarrow> last s \<noteq> CHR '' ''"
  by (auto simp: visible_def list_all_iff)

lemma body_last:
  assumes "canonical_url ext U" "no_trailing_space U"
  shows "last (url_scheme U @ CHR '':'' # body_text U) \<noteq> CHR '' ''"
proof (cases "url_has_an_opaque_path U")
  case True
  then obtain path where path: "url_paths U = [path]" using assms(1) by (auto simp: canonical_url_def path_ok_def)
  with True assms(2) have "path \<noteq> [] \<Longrightarrow> last path \<noteq> CHR '' ''" by (simp add: no_trailing_space_def)
  with True path visible_last [OF tail_visible [OF assms(1)]] show ?thesis
    by (cases "url_tail U = []") (auto simp: body_text_def)
next
  case False
  then have "visible (body_text U)"
    using assms(1) authority_visible paths_visible tail_visible [OF assms(1)]
    by (auto simp: body_text_def canonical_url_def path_ok_def)
  with visible_last [of "body_text U"] show ?thesis by auto
qed

subsection \<open>The round trip\<close>

lemma run_body:
  assumes p: "after_scheme (url_scheme U) (body_text U) p" "state_override env = None"
    and env: "input_of env = url_scheme U @ CHR '':'' # body_text U" "length (input_of env) < 2 ^ 64" "fast_float_ok (externals_of env)"
    and U: "canonical_url (externals_of env) U" "no_trailing_space U" "url_blob_url_entry U = None"
  shows "run_parser env p = Done (True, U)"
proof -
  have ascii: "list_all (\<lambda>c. cp c < 0x80) (input_of env)"
    using printable_ascii [OF body_printable [OF U(1)]] env(1) by simp
  consider (path) "url_has_an_opaque_path U" | (none) "\<not> url_has_an_opaque_path U" "url_host U = None"
    | (host) h where "\<not> url_has_an_opaque_path U" "url_host U = Some h" by (cases "url_host U") auto
  then show ?thesis
  proof cases
    case path
    then obtain s where "url_paths U = [s]" using U(1) by (auto simp: canonical_url_def path_ok_def)
    with path p U opaque_case [of U s p env] show ?thesis by (simp add: body_text_def)
  next
    case none
    with p U no_host_case [of U p env] show ?thesis by (simp add: body_text_def authority_text_def)
  next
    case host
    then have body: "body_text U = ''//'' @ credentials_text U @ serialize_host h @ port_text (url_port U)
        @ path_segments_text (url_paths U) @ url_tail U" by (simp add: body_text_def authority_text_def)
    show ?thesis
    proof (cases "url_scheme U = ''file''")
      case True
      then have "credentials_text U = []" "port_text (url_port U) = []"
        using U(1) by (auto simp: canonical_url_def authority_ok_def cannot_have_a_username_or_password_or_port_def
          credentials_text_def port_text_def)
      with True body p file_case [of h U p env] U host show ?thesis by simp
    next
      case False
      have p': "after_scheme (url_scheme U) (''//'' @ credentials_text U @ serialize_host h @ port_text (url_port U)
          @ path_segments_text (url_paths U) @ url_tail U) p" using p(1) unfolding body .
      have env': "input_of env = url_scheme U @ ''://'' @ credentials_text U @ serialize_host h @ port_text (url_port U)
          @ path_segments_text (url_paths U) @ url_tail U" using env(1) unfolding body by simp
      show ?thesis
      proof (cases "is_special U")
        case True
        from special_case [OF p' p(2) env' ascii env(2,3) U(1,3) host(2) False True] show ?thesis .
      next
        case False
        from nonspecial_case [OF p' p(2) env' ascii env(2,3) U(1,3) host(2) False] show ?thesis .
      qed
    qed
  qed
qed

lemma serialize_parse_round_trip:
  assumes ok: "simdutf_ok ext" "fast_float_ok ext"
    and U: "canonical_url ext U" "no_trailing_space U" "url_blob_url_entry U = None"
    and s: "serialize_url False U = Done s" "length s < 2 ^ 64"
  shows "basic_parse ext s base None = Done (Some U)"
proof -
  have s_eq: "s = url_scheme U @ CHR '':'' # body_text U" using s(1) serialize_url_text [OF U(1)] by simp
  have scheme_ok: "scheme_text (url_scheme U)" using U(1) by (simp add: canonical_url_def authority_ok_def)
  then have "hd s \<noteq> CHR '' ''" unfolding s_eq by (cases "url_scheme U") (auto simp: scheme_text_def char_class)
  then have trim_id: "trim_c0_control_or_space s = s"
    using body_printable [OF U(1)] body_last [OF U(1,2)] by (intro trim_printable) (simp_all add: s_eq)
  have process_id: "process_input ext s = s"
    using body_printable [OF U(1)] ok(1) by (intro process_input_printable) (simp_all add: s_eq)
  let ?env = "\<lparr> externals_of = ext, input_of = s, base_url = base, state_override = None \<rparr>"
  let ?p = "initial_parser empty_url SchemeStart s None"
  let ?q = "?p \<lparr> state := Scheme, buffer := url_scheme U, iterator := CHR '':'' # body_text U \<rparr>"
  have "run_parser ?env ?p = run_parser ?env ?q"
    using scheme_ok by (intro scheme_run [where ib = False]) (simp_all add: in_state_def initial_parser_def s_eq)
  also have "\<dots> = Done (True, U)"
    using ok(2) U s(2) s_eq
    by (intro run_body) (simp_all add: after_scheme_def in_state_def initial_parser_def)
  finally show ?thesis by (simp add: basic_parse_def basic_parse_into_def trim_id process_id Let_def)
qed

definition url_text :: "url \<Rightarrow> byte_string" where
  "url_text U = url_scheme U @ CHR '':'' # body_text U"

definition stable_url :: "externals \<Rightarrow> url \<Rightarrow> bool" where
  "stable_url ext U \<longleftrightarrow> canonical_url ext U \<and> no_trailing_space U \<and> url_blob_url_entry U = None
     \<and> length (url_text U) < 2 ^ 64"

lemma serialize_stable: "stable_url ext U \<Longrightarrow> serialize_url False U = Done (url_text U)"
  unfolding url_text_def stable_url_def by (blast intro: serialize_url_text)

interpretation url_codec: codec "\<lambda>U. simdutf_ok ext \<and> fast_float_ok ext \<and> stable_url ext U" url_text
    "\<lambda>s. basic_parse ext s base None"
  for ext base
proof unfold_locales
  fix U
  assume "simdutf_ok ext \<and> fast_float_ok ext \<and> stable_url ext U"
  then show "basic_parse ext (url_text U) base None = Done (Some U)"
    using serialize_stable [of ext U] by (auto simp: stable_url_def intro!: serialize_parse_round_trip)
qed

lemma stable_without_fragment: "stable_url ext U \<Longrightarrow> stable_url ext (U \<lparr> url_fragment := None \<rparr>)"
proof -
  assume U: "stable_url ext U"
  have "length (url_text (U \<lparr> url_fragment := None \<rparr>)) \<le> length (url_text U)"
    by (auto simp: url_text_def body_text_def authority_text_def tail_text_def credentials_text_def includes_credentials_def
      split: option.splits)
  moreover have "canonical_url ext (U \<lparr> url_fragment := None \<rparr>)" "no_trailing_space (U \<lparr> url_fragment := None \<rparr>)"
    using U by (auto simp: stable_url_def canonical_url_def authority_ok_def path_ok_def query_ok_def fragment_ok_def
      includes_credentials_def no_trailing_space_def cannot_have_a_username_or_password_or_port_def split: option.splits)
  ultimately show ?thesis using U by (simp add: stable_url_def)
qed

lemma serialize_exclude_fragment: "serialize_url True U = serialize_url False (U \<lparr> url_fragment := None \<rparr>)"
  by (simp add: serialize_url_def path_text_def first_path_def query_text_def fragment_text_def credentials_text_def
    includes_credentials_def split: option.splits)

lemma parse_result_stable:
  assumes ok: "simdutf_ok ext" "icu_ok ext" "fast_float_ok ext"
    and base: "base_ok ext base" "\<And>b. base = Some b \<Longrightarrow> no_trailing_space b"
    and input: "validate_utf8 ext raw_input" "length (process_input ext (trim_c0_control_or_space raw_input)) < 2 ^ 64"
    and parse: "basic_parse ext raw_input base encoder = Done (Some U)" and len: "length (url_text U) < 2 ^ 64"
  shows "stable_url ext U"
proof -
  let ?in = "trim_c0_control_or_space raw_input"
  let ?env = "\<lparr> externals_of = ext, input_of = process_input ext ?in, base_url = base, state_override = None \<rparr>"
  have "complete ?env U" using basic_parse_complete [OF ok base(1) input(2), of encoder] parse by simp
  moreover have "trimmed ?env"
  proof (cases "?in = []")
    case True
    then have "process_input ext ?in = []"
      by (simp add: process_input_def from_utf8_with_replacement_character_def code_points_def remove_ascii_tab_or_newline_def Let_def)
    with base(2) show ?thesis by (simp add: trimmed_def)
  next
    case False
    then have "last (process_input ext ?in) = last ?in"
      using trim_valid [OF ok(1) input(1)] trim_last [of raw_input] by (intro process_input_last) auto
    moreover have "last ?in \<noteq> CHR '' ''" using trim_last [OF False] by auto
    ultimately show ?thesis using base(2) by (simp add: trimmed_def)
  qed
  ultimately show ?thesis using len by (simp add: complete_def stable_url_def)
qed

subsection \<open>Properties\<close>

definition example_url :: url where
  "example_url = with_scheme ''http'' \<lparr> url_username := ''me'', url_host := Some (IPv6 [0, 0, 0, 0, 0, 0, 0, 1]),
     url_port := Some 81, url_paths := [''a'', []], url_query := Some ''b=%20'', url_fragment := Some ''c'' \<rparr>"

lemma stable_example: "stable_url reference_externals example_url"
proof -
  have "host_canonical reference_externals ''http'' (IPv6 [0, 0, 0, 0, 0, 0, 0, 1])"
    using parse_host_ipv6 [of "[0, 0, 0, 0, 0, 0, 0, 1]" reference_externals]
    by (simp add: host_canonical_def host_ok_def ipv6_ok_def domain_host_ok_def del: serialize_host.simps)
  then have "authority_ok reference_externals example_url"
    by (simp add: authority_ok_def example_url_def scheme_text_def encoded_def contains_char_def is_special_def
      is_special_scheme_def special_schemes_def char_class char_of_eq_iff_mod default_port_for_scheme_def
      cannot_have_a_username_or_password_or_port_def)
  moreover have "segment_ok ''http'' ''a''"
    by (simp add: segment_ok_def segment_text_def encoded_def contains_char_def char_of_eq_iff_mod
      is_single_dot_path_segment_def is_double_dot_path_segment_def equals_ignoring_ascii_case_def)
  then have "path_ok example_url" by (simp add: path_ok_def example_url_def paths_ok_def)
  moreover have "query_ok example_url"
    by (simp add: query_ok_def example_url_def encoded_def contains_char_def char_of_eq_iff_mod)
  moreover have "fragment_ok example_url"
    by (simp add: fragment_ok_def example_url_def encoded_def contains_char_def char_of_eq_iff_mod)
  ultimately have "canonical_url reference_externals example_url" by (simp add: canonical_url_def)
  moreover have "url_text example_url = ''http://me@[::1]:81/a/?b=%20#c''" by code_simp
  then have "length (url_text example_url) < 2 ^ 64" by simp
  ultimately show ?thesis by (simp add: stable_url_def no_trailing_space_def example_url_def)
qed

text \<open>C6: serializing a canonical URL and parsing the text gives the URL back, against any base URL.\<close>

theorem basic_parse_inverts_serialize:
  assumes "simdutf_ok ext" "fast_float_ok ext" "stable_url ext U"
  shows "exec_bind (serialize_url False U) (\<lambda>s. basic_parse ext s base None) = Done (Some U)"
  using assms url_codec.decode_encode [of ext U base] by (simp add: serialize_stable)

theorem basic_parse_inverts_serialize_witness:
  "exec_bind (serialize_url False example_url) (\<lambda>s. basic_parse reference_externals s (Some example_url) None)
     = Done (Some example_url)"
  by (rule basic_parse_inverts_serialize) (simp_all add: simdutf_ok_reference fast_float_ok_reference stable_example)

text \<open>C1: parsing is idempotent: the URL parsed from well-formed UTF-8, serialized and parsed again, is
  the same URL.\<close>

theorem basic_parse_idempotent:
  assumes "simdutf_ok ext" "icu_ok ext" "fast_float_ok ext" "base_ok ext base" "\<And>b. base = Some b \<Longrightarrow> no_trailing_space b"
    "validate_utf8 ext raw_input" "length (process_input ext (trim_c0_control_or_space raw_input)) < 2 ^ 64"
    "basic_parse ext raw_input base encoder = Done (Some U)" "length (url_text U) < 2 ^ 64"
  shows "exec_bind (serialize_url False U) (\<lambda>s. basic_parse ext s base' None) = Done (Some U)"
  using parse_result_stable [OF assms] url_codec.decode_encode [of ext U base'] assms(1,3) by (simp add: serialize_stable)

theorem basic_parse_idempotent_witness:
  "exec_bind (serialize_url False example_url) (\<lambda>s. basic_parse reference_externals s None None) = Done (Some example_url)"
proof (rule basic_parse_idempotent [OF simdutf_ok_reference icu_ok_reference fast_float_ok_reference])
  let ?s = "url_text example_url"
  have U: "canonical_url reference_externals example_url" "no_trailing_space example_url" "length ?s < 2 ^ 64"
    using stable_example by (simp_all add: stable_url_def)
  note chars = body_printable [OF U(1), folded url_text_def] body_last [OF U(1,2), folded url_text_def]
  have "hd ?s \<noteq> CHR '' ''" by (simp add: url_text_def example_url_def)
  then have "trim_c0_control_or_space ?s = ?s" using chars by (intro trim_printable) auto
  then show "length (process_input reference_externals (trim_c0_control_or_space ?s)) < 2 ^ 64"
    using process_input_printable [OF simdutf_ok_reference chars(1)] U(3) by simp
  have "is_ascii_string ?s" using chars(1) by (auto simp: is_ascii_string_def list_all_iff char_class)
  then show "validate_utf8 reference_externals ?s" by (rule ascii_is_utf8 [OF simdutf_ok_reference])
  show "basic_parse reference_externals ?s None None = Done (Some example_url)"
    using stable_example by (intro url_codec.decode_encode) (simp add: simdutf_ok_reference fast_float_ok_reference)
qed (use stable_example in \<open>simp_all add: base_ok_def stable_url_def\<close>)

text \<open>C7: \<^verbatim>\<open>URL::equals\<close> compares serializations, and that decides equality of the records: of canonical
  URLs it returns whether they are the same URL, or the same but for the fragment when the fragment is
  excluded.\<close>

theorem url_equals_iff:
  assumes "simdutf_ok ext" "fast_float_ok ext" "stable_url ext U" "stable_url ext V"
  shows "url_equals False U V = Done (U = V)
    \<and> url_equals True U V = Done (U \<lparr> url_fragment := None \<rparr> = V \<lparr> url_fragment := None \<rparr>)"
proof
  note eq = url_codec.encode_eq_iff [of ext]
  show "url_equals False U V = Done (U = V)"
    using assms eq by (simp add: url_equals_def serialize_stable)
  show "url_equals True U V = Done (U \<lparr> url_fragment := None \<rparr> = V \<lparr> url_fragment := None \<rparr>)"
    using assms(1,2) stable_without_fragment [OF assms(3)] stable_without_fragment [OF assms(4)] eq
    by (simp add: url_equals_def serialize_stable serialize_exclude_fragment)
qed

theorem url_equals_iff_witness:
  "url_equals False example_url (example_url \<lparr> url_fragment := None \<rparr>) = Done False
   \<and> url_equals True example_url (example_url \<lparr> url_fragment := None \<rparr>) = Done True"
proof -
  have "url_fragment example_url \<noteq> url_fragment (example_url \<lparr> url_fragment := None \<rparr>)" by (simp add: example_url_def)
  then have "example_url \<noteq> example_url \<lparr> url_fragment := None \<rparr>" by metis
  with url_equals_iff [OF simdutf_ok_reference fast_float_ok_reference stable_example
      stable_without_fragment [OF stable_example]] show ?thesis by simp
qed

end
