(* ===== verification/AK_Time.thy ===== *)
theory AK_Time
  imports Prelude "HOL-Library.Signed_Division"
begin

text \<open>
  Calendar arithmetic and durations: \<^verbatim>\<open>AK/Time.h\<close> and \<^verbatim>\<open>AK/Time.cpp\<close>.  Signed machine integers are
  HOL integers and unsigned ones naturals; conversions between them are the functions \<open>to_u32\<close>,
  \<open>to_i32\<close>, \<open>to_u64\<close> and \<open>to_i64\<close>, and unsigned arithmetic wraps explicitly.  C++ division truncates, so \<open>/\<close>
  and \<open>%\<close> on signed values are \<open>sdiv\<close> and \<open>smod\<close>.  Readings of the clock are arguments.

  The calendar is proved against a reference: the successor of a day.  Durations are proved to be the
  integers of nanoseconds between the least and the greatest duration, with saturating arithmetic.
\<close>

subsection \<open>Machine integers\<close>

definition to_u8 :: "nat \<Rightarrow> nat" where
  "to_u8 n = n mod 2 ^ 8"

definition to_u32 :: "int \<Rightarrow> nat" where
  "to_u32 x = nat (x mod 2 ^ 32)"

definition to_i32 :: "int \<Rightarrow> int" where
  "to_i32 x = (x + 2 ^ 31) mod 2 ^ 32 - 2 ^ 31"

definition to_u64 :: "int \<Rightarrow> nat" where
  "to_u64 x = nat (x mod 2 ^ 64)"

definition to_i64 :: "int \<Rightarrow> int" where
  "to_i64 x = (x + 2 ^ 63) mod 2 ^ 64 - 2 ^ 63"

abbreviation i64_min :: int where
  "i64_min \<equiv> - (2 ^ 63)"

abbreviation i64_max :: int where
  "i64_max \<equiv> 2 ^ 63 - 1"

definition is_i64 :: "int \<Rightarrow> bool" where
  "is_i64 x \<longleftrightarrow> i64_min \<le> x \<and> x \<le> i64_max"

definition is_i32 :: "int \<Rightarrow> bool" where
  "is_i32 x \<longleftrightarrow> - (2 ^ 31) \<le> x \<and> x \<le> 2 ^ 31 - 1"

text \<open>\<^verbatim>\<open>Checked<i64>\<close>: \<open>None\<close> once an operation has overflowed.\<close>

definition checked_i64 :: "int \<Rightarrow> int option" where
  "checked_i64 x = (if is_i64 x then Some x else None)"

definition checked_add :: "int option \<Rightarrow> int \<Rightarrow> int option" where
  "checked_add a b = Option.bind a (\<lambda>x. checked_i64 (x + b))"

definition checked_sub :: "int option \<Rightarrow> int \<Rightarrow> int option" where
  "checked_sub a b = Option.bind a (\<lambda>x. checked_i64 (x - b))"

definition checked_mul :: "int option \<Rightarrow> int \<Rightarrow> int option" where
  "checked_mul a b = Option.bind a (\<lambda>x. checked_i64 (x * b))"

definition checked_div :: "int option \<Rightarrow> int \<Rightarrow> int option" where
  "checked_div a b = Option.bind a (\<lambda>x. checked_i64 (x sdiv b))"

text \<open>An integer converted to a double: rounded to 53 significant bits, ties to even.\<close>

function bit_length :: "int \<Rightarrow> nat" where
  "bit_length n = (if n \<le> 0 then 0 else Suc (bit_length (n div 2)))"
  by auto
termination by (relation "measure nat") auto

declare bit_length.simps [simp del]

definition double_of_int :: "int \<Rightarrow> int" where
  "double_of_int x =
     (let m = \<bar>x\<bar>; e = bit_length m - 53;
          q = m div 2 ^ e; r = m mod 2 ^ e;
          rounded = (if e > 0 \<and> (2 * r > 2 ^ e \<or> 2 * r = 2 ^ e \<and> odd q) then q + 1 else q)
      in sgn x * rounded * 2 ^ e)"

subsection \<open>Calendar\<close>

definition is_leap_year :: "int \<Rightarrow> bool" where
  "is_leap_year year \<longleftrightarrow> year smod 4 = 0 \<and> (year smod 100 \<noteq> 0 \<or> year smod 400 = 0)"

definition days_in_month :: "int \<Rightarrow> nat \<Rightarrow> int exec" where
  "days_in_month year month =
     (if \<not> (month \<ge> 1 \<and> month \<le> 12) then Verify_failed
      else if month = 2 then Done (if is_leap_year year then 29 else 28)
      else Done (if month = 1 \<or> month = 3 \<or> month = 5 \<or> month = 7 \<or> month = 8 \<or> month = 10 \<or> month = 12
                 then 31 else 30))"

definition day_of_week :: "int \<Rightarrow> nat \<Rightarrow> int \<Rightarrow> nat exec" where
  "day_of_week year month day =
     (if \<not> (month \<ge> 1 \<and> month \<le> 12) then Verify_failed
      else let seek_table = [0, 3, 2, 5, 0, 3, 5, 1, 4, 6, 2, 4];
               year = (if month < 3 then year - 1 else year)
           in Done (to_u32 ((year + year sdiv 4 - year sdiv 100 + year sdiv 400
                             + seek_table ! (month - 1) + day) smod 7)))"

definition day_of_year :: "int \<Rightarrow> nat \<Rightarrow> int \<Rightarrow> int" where
  "day_of_year year month day =
     (if \<not> (month \<ge> 1 \<and> month \<le> 12) then 0
      else let seek_table = [0, 31, 59, 90, 120, 151, 181, 212, 243, 273, 304, 334];
               day_of_year = seek_table ! (month - 1) + day - 1
           in if is_leap_year year \<and> month \<ge> 3 then day_of_year + 1 else day_of_year)"

definition days_in_year :: "int \<Rightarrow> nat" where
  "days_in_year year = 365 + (if is_leap_year year then 1 else 0)"

definition iso8061_weeks_in_year :: "int \<Rightarrow> nat exec" where
  "iso8061_weeks_in_year year =
     exec_bind (day_of_week year 12 31) (\<lambda>this_year.
       if this_year = 4 then Done 53
       else exec_map (\<lambda>last_year. if last_year = 3 then 53 else 52) (day_of_week (year - 1) 12 31))"

definition floor_div_by :: "int \<Rightarrow> int \<Rightarrow> int" where
  "floor_div_by divisor dividend =
     (let is_negative = (if dividend < 0 then 1 else 0)
      in (dividend + is_negative) sdiv divisor - is_negative)"

definition mod_zeros_in_range :: "int \<Rightarrow> int \<Rightarrow> int \<Rightarrow> int" where
  "mod_zeros_in_range positive_mod first limit =
     floor_div_by positive_mod (limit - 1) - floor_div_by positive_mod (first - 1)"

definition years_to_days_since_epoch :: "int \<Rightarrow> int" where
  "years_to_days_since_epoch year =
     (let (begin_year, end_year, leap_sign) = (if year < 1970 then (year, 1970, -1) else (1970, year, 1));
          days = 365 * (year - 1970);
          extra_leap_days = mod_zeros_in_range 4 begin_year end_year
            - mod_zeros_in_range 100 begin_year end_year + mod_zeros_in_range 400 begin_year end_year
      in days + extra_leap_days * leap_sign)"

definition days_since_epoch :: "int \<Rightarrow> int \<Rightarrow> int \<Rightarrow> int" where
  "days_since_epoch year month day = years_to_days_since_epoch year + day_of_year year (to_u32 month) day"

subsection \<open>Durations\<close>

text \<open>
  The class \<^verbatim>\<open>Duration\<close>: a signed number of seconds and, added to it, less than a second in
  nanoseconds.
\<close>

datatype duration = Duration (m_seconds: int) (m_nanoseconds: nat)

definition duration_min :: duration where
  "duration_min = Duration i64_min 0"

definition duration_zero :: duration where
  "duration_zero = Duration 0 0"

definition duration_max :: duration where
  "duration_max = Duration i64_max 999999999"

text \<open>\<^verbatim>\<open>sane_mod\<close> returns the quotient and leaves the remainder in its first argument.\<close>

definition sane_mod :: "int \<Rightarrow> int \<Rightarrow> (int \<times> int) exec" where
  "sane_mod numerator denominator =
     (if \<not> (2 \<le> denominator \<and> denominator \<le> 1000000000) then Verify_failed
      else let dividend = numerator sdiv denominator; numerator = numerator smod denominator
           in if numerator < 0 then Done (dividend - 1, numerator + denominator)
              else Done (dividend, numerator))"

definition sane_mod_i32 :: "int \<Rightarrow> int \<Rightarrow> (int \<times> int) exec" where
  "sane_mod_i32 numerator denominator =
     exec_map (\<lambda>(dividend, numerator_64). (to_i32 dividend, to_i32 numerator_64)) (sane_mod numerator denominator)"

definition from_seconds :: "int \<Rightarrow> duration" where
  "from_seconds seconds = Duration seconds 0"

definition from_nanoseconds :: "int \<Rightarrow> duration exec" where
  "from_nanoseconds nanoseconds =
     exec_map (\<lambda>(seconds, nanoseconds). Duration seconds (to_u32 nanoseconds)) (sane_mod nanoseconds 1000000000)"

definition from_microseconds :: "int \<Rightarrow> duration exec" where
  "from_microseconds microseconds =
     exec_map (\<lambda>(seconds, microseconds). Duration seconds (to_u32 (microseconds * 1000)))
       (sane_mod microseconds 1000000)"

definition from_milliseconds :: "int \<Rightarrow> duration exec" where
  "from_milliseconds milliseconds =
     exec_map (\<lambda>(seconds, milliseconds). Duration seconds (to_u32 (milliseconds * 1000000)))
       (sane_mod milliseconds 1000)"

definition from_half_sanitized :: "int \<Rightarrow> int \<Rightarrow> nat \<Rightarrow> duration exec" where
  "from_half_sanitized seconds extra_seconds nanoseconds =
     (if \<not> nanoseconds < 1000000000 then Verify_failed
      else let (seconds, extra_seconds) =
             (if seconds \<le> 0 \<and> extra_seconds > 0 \<or> seconds \<ge> 0 \<and> extra_seconds < 0
              then (seconds + extra_seconds, 0) else (seconds, extra_seconds))
           in if \<not> is_i64 (seconds + extra_seconds)
              then Done (if seconds < 0 then duration_min else duration_max)
              else Done (Duration (seconds + extra_seconds) nanoseconds))"

definition from_ticks :: "int \<Rightarrow> int \<Rightarrow> duration exec" where
  "from_ticks ticks ticks_per_second =
     (let secs = ticks smod ticks_per_second;
          nsecs = to_i32 ((1000000000 * (ticks - ticks_per_second * secs)) sdiv ticks_per_second)
      in exec_bind (sane_mod_i32 nsecs 1000000000) (\<lambda>(extra_secs, nsecs).
           from_half_sanitized secs extra_secs (to_u32 nsecs)))"

text \<open>A \<^verbatim>\<open>timespec\<close> and a \<^verbatim>\<open>timeval\<close> are their two fields.\<close>

definition from_timespec :: "int \<Rightarrow> int \<Rightarrow> duration exec" where
  "from_timespec tv_sec tv_nsec =
     exec_bind (sane_mod_i32 (to_i32 tv_nsec) 1000000000) (\<lambda>(extra_secs, nsecs).
       from_half_sanitized tv_sec extra_secs (to_u32 nsecs))"

definition from_timeval :: "int \<Rightarrow> int \<Rightarrow> duration exec" where
  "from_timeval tv_sec tv_usec =
     exec_bind (sane_mod_i32 (to_i32 tv_usec) 1000000) (\<lambda>(extra_secs, usecs).
       if \<not> (0 \<le> usecs \<and> usecs < 1000000) then Verify_failed
       else from_half_sanitized tv_sec extra_secs (to_u32 (usecs * 1000)))"

definition from_time_units :: "int \<Rightarrow> nat \<Rightarrow> nat \<Rightarrow> duration exec" where
  "from_time_units time_units numerator denominator =
     (if numerator = 0 \<or> denominator = 0 then Verify_failed
      else let seconds_checked = checked_div (checked_mul (checked_i64 time_units) (int numerator)) (int denominator);
               seconds_checked = (if time_units < 0 then checked_sub seconds_checked 1 else seconds_checked)
           in case seconds_checked of
                None \<Rightarrow> Done (Duration (if time_units \<ge> 0 then i64_max else i64_min) 0)
              | Some seconds \<Rightarrow>
                  let seconds_in_time_units = (seconds * int denominator) sdiv int numerator;
                      remainder_in_time_units = time_units - seconds_in_time_units;
                      nanoseconds = (remainder_in_time_units * 1000000000 * int numerator
                                     + int (denominator div 2)) sdiv int denominator
                  in if \<not> nanoseconds \<ge> 0 \<or> \<not> nanoseconds < 1000000000 then Verify_failed
                     else Done (Duration seconds (to_u32 nanoseconds)))"

text \<open>The conversions to integers; all of them start with the same assertion.\<close>

definition verify_nanoseconds :: "duration \<Rightarrow> 'a \<Rightarrow> 'a exec" where
  "verify_nanoseconds d x = (if m_nanoseconds d < 1000000000 then Done x else Verify_failed)"

definition to_truncated_seconds :: "duration \<Rightarrow> int exec" where
  "to_truncated_seconds d = verify_nanoseconds d
     (if m_seconds d < 0 \<and> m_nanoseconds d \<noteq> 0 then m_seconds d + 1 else m_seconds d)"

definition to_seconds :: "duration \<Rightarrow> int exec" where
  "to_seconds d = verify_nanoseconds d
     (if m_seconds d \<ge> 0 \<and> m_nanoseconds d \<noteq> 0
      then (case checked_add (checked_i64 (m_seconds d)) 1 of None \<Rightarrow> i64_max | Some seconds \<Rightarrow> seconds)
      else m_seconds d)"

text \<open>
  The three subsecond units differ in their constants only: \<open>units\<close> in a second, each of \<open>nanos\<close>
  nanoseconds.  The first definition rounds towards zero, the second away from it.
\<close>

definition saturated :: "duration \<Rightarrow> int option \<Rightarrow> int" where
  "saturated d checked = (case checked of Some x \<Rightarrow> x | None \<Rightarrow> if m_seconds d < 0 then i64_min else i64_max)"

definition to_truncated_units :: "int \<Rightarrow> nat \<Rightarrow> duration \<Rightarrow> int exec" where
  "to_truncated_units units nanos d =
     (let checked = checked_i64 (if m_seconds d < 0 then m_seconds d + 1 else m_seconds d);
          checked = checked_mul checked units;
          checked = checked_add checked (int (m_nanoseconds d div nanos));
          checked = (if m_seconds d < 0
                     then checked_sub (if m_nanoseconds d mod nanos \<noteq> 0 then checked_add checked 1 else checked) units
                     else checked)
      in verify_nanoseconds d (saturated d checked))"

definition to_units :: "int \<Rightarrow> nat \<Rightarrow> duration \<Rightarrow> int exec" where
  "to_units units nanos d =
     (let checked = checked_i64 (if m_seconds d < 0 then m_seconds d + 1 else m_seconds d);
          checked = checked_mul checked units;
          checked = checked_add checked (int (m_nanoseconds d div nanos));
          checked = (if m_seconds d \<ge> 0 \<and> m_nanoseconds d mod nanos \<noteq> 0 then checked_add checked 1 else checked);
          checked = (if m_seconds d < 0 then checked_sub checked units else checked)
      in verify_nanoseconds d (saturated d checked))"

definition to_truncated_milliseconds :: "duration \<Rightarrow> int exec" where
  "to_truncated_milliseconds = to_truncated_units 1000 1000000"

definition to_truncated_microseconds :: "duration \<Rightarrow> int exec" where
  "to_truncated_microseconds = to_truncated_units 1000000 1000"

definition to_milliseconds :: "duration \<Rightarrow> int exec" where
  "to_milliseconds = to_units 1000 1000000"

definition to_microseconds :: "duration \<Rightarrow> int exec" where
  "to_microseconds = to_units 1000000 1000"

definition to_nanoseconds :: "duration \<Rightarrow> int exec" where
  "to_nanoseconds = to_units 1000000000 1"

definition duration_plus :: "duration \<Rightarrow> duration \<Rightarrow> duration exec" where
  "duration_plus a b =
     (if \<not> m_nanoseconds a < 1000000000 \<or> \<not> m_nanoseconds b < 1000000000 then Verify_failed
      else let new_nsecs = (m_nanoseconds a + m_nanoseconds b) mod 2 ^ 32;
               extra_secs = new_nsecs div 1000000000;
               new_nsecs = new_nsecs mod 1000000000;
               this_secs = m_seconds a;
               other_secs = m_seconds b;
               adjusted = (if extra_secs = 0 then Some (this_secs, other_secs)
                           else if this_secs \<noteq> i64_max then Some (this_secs + 1, other_secs)
                           else if other_secs \<noteq> i64_max then Some (this_secs, other_secs + 1)
                           else None)
           in if extra_secs \<noteq> 0 \<and> extra_secs \<noteq> 1 then Verify_failed
              else case adjusted of
                None \<Rightarrow> Done duration_max
              | Some (this_secs, other_secs) \<Rightarrow>
                  (case checked_add (checked_i64 this_secs) other_secs of
                     None \<Rightarrow> Done (if other_secs > 0 then duration_max else duration_min)
                   | Some new_secs \<Rightarrow> Done (Duration new_secs new_nsecs)))"

definition duration_minus :: "duration \<Rightarrow> duration \<Rightarrow> duration exec" where
  "duration_minus a b =
     (if \<not> m_nanoseconds a < 1000000000 \<or> \<not> m_nanoseconds b < 1000000000 then Verify_failed
      else if m_nanoseconds b \<noteq> 0
      then duration_plus a (Duration (to_i64 (int (2 ^ 64 - 1 - to_u64 (m_seconds b)))) (1000000000 - m_nanoseconds b))
      else if m_seconds b \<noteq> i64_min then duration_plus a (Duration (- m_seconds b) 0)
      else if m_seconds a \<ge> 0 then Done duration_max
      else Done (Duration ((m_seconds a + 0x4000000000000000) + 0x4000000000000000) (m_nanoseconds a)))"

definition duration_compare :: "duration \<Rightarrow> duration \<Rightarrow> int" where
  "duration_compare a b =
     (let cmp = (if m_seconds a > m_seconds b then 1 else if m_seconds a < m_seconds b then -1 else 0)
      in if cmp \<noteq> 0 then cmp
         else let cmp = (if m_nanoseconds a > m_nanoseconds b then 1
                         else if m_nanoseconds a < m_nanoseconds b then -1 else 0)
              in if cmp \<noteq> 0 then cmp else 0)"

text \<open>The order of \<^verbatim>\<open>operator<=>\<close> is linear.\<close>

instantiation duration :: linorder
begin

definition less_eq_duration :: "duration \<Rightarrow> duration \<Rightarrow> bool" where
  "a \<le> b \<longleftrightarrow> duration_compare a b \<le> 0"

definition less_duration :: "duration \<Rightarrow> duration \<Rightarrow> bool" where
  "a < b \<longleftrightarrow> duration_compare a b < 0"

instance
  by standard
    (auto simp: less_eq_duration_def less_duration_def duration_compare_def Let_def duration.expand split: if_splits)

end

subsection \<open>Unix time\<close>

text \<open>A \<^verbatim>\<open>UnixDateTime\<close> is its offset to the epoch.\<close>

type_synonym unix_date_time = duration

definition from_unix_time_parts :: "int \<Rightarrow> nat \<Rightarrow> nat \<Rightarrow> nat \<Rightarrow> nat \<Rightarrow> nat \<Rightarrow> nat \<Rightarrow> unix_date_time exec" where
  "from_unix_time_parts year month day hour minute second millisecond =
     (let days = days_since_epoch year (int month) (int day);
          seconds_since_epoch = double_of_int (days * 86400) + int hour * 3600 + int minute * 60 + int second
      in exec_bind (from_milliseconds (int millisecond)) (\<lambda>ms. duration_plus (from_seconds seconds_since_epoch) ms))"

definition from_ordinal_date :: "nat \<Rightarrow> nat \<Rightarrow> unix_date_time exec" where
  "from_ordinal_date year day =
     (let month_starts = (if is_leap_year (to_i32 (int year))
            then [1, 32, 61, 92, 122, 153, 183, 214, 245, 275, 306, 336]
            else [1, 32, 60, 91, 121, 152, 182, 213, 244, 274, 305, 335]);
          estimated_month = ((day * 12 + 6) mod 2 ^ 32) div 367
      in if \<not> estimated_month < length month_starts then Verify_failed
         else let estimated_month = (if day < month_starts ! estimated_month
                                     then to_u32 (int estimated_month - 1) else estimated_month);
                  month = estimated_month + 1
              in if \<not> estimated_month < length month_starts then Verify_failed
                 else from_unix_time_parts (to_i32 (int year)) (to_u8 month)
                        (to_u8 (day - month_starts ! estimated_month + 1)) 0 0 0 0)"

definition from_iso8601_week :: "nat \<Rightarrow> nat \<Rightarrow> unix_date_time exec" where
  "from_iso8601_week week_year week =
     exec_bind (day_of_week (to_i32 (int week_year)) 1 4) (\<lambda>day.
       let day_of_week_january_4th = (day + 6) mod 2 ^ 32 mod 7;
           ordinal_day = to_i32 (7 * int week - int day_of_week_january_4th - 3);
           previous_year = to_u32 (int week_year - 1);
           days_in_week_year = days_in_year (to_i32 (int week_year))
       in if ordinal_day < 1
          then from_ordinal_date previous_year (to_u32 (ordinal_day + int (days_in_year (to_i32 (int previous_year)))))
          else if to_u32 ordinal_day > days_in_week_year
          then from_ordinal_date (to_u32 (int week_year + 1)) (to_u32 (ordinal_day - int days_in_week_year))
          else from_ordinal_date week_year (to_u32 ordinal_day))"

subsection \<open>Calendar lemmas\<close>

lemma smod_eq_0_iff [simp]: "x smod n = 0 \<longleftrightarrow> n dvd x" for x n :: int
  by (auto simp: signed_modulo_int_def sgn_eq_0_iff dvd_eq_mod_eq_0 [symmetric])

lemma sdiv_nonneg: "\<lbrakk> 0 \<le> a; 0 \<le> b \<rbrakk> \<Longrightarrow> a sdiv b = a div b" for a b :: int
  by (cases "a = 0"; cases "b = 0") (auto simp: signed_divide_int_def)

lemma smod_nonneg: "\<lbrakk> 0 \<le> a; 0 \<le> b \<rbrakk> \<Longrightarrow> a smod b = a mod b" for a b :: int
  by (cases "a = 0") (auto simp: signed_modulo_int_def)

lemma div_pred_step: "0 < n \<Longrightarrow> y div n = (y - 1) div n + of_bool (n dvd y)" for y n :: int
proof -
  assume n: "0 < n"
  have y: "n * (y div n) + y mod n = y" by simp
  have r: "0 \<le> y mod n" "y mod n < n" using n by simp_all
  show ?thesis
  proof (cases "n dvd y")
    case True
    with y n have "(y - 1) div n = y div n - 1"
      by (intro int_div_pos_eq [where r = "n - 1"]) (simp_all add: right_diff_distrib dvd_eq_mod_eq_0)
    with True show ?thesis by simp
  next
    case False
    then have "y mod n \<noteq> 0" by (simp add: dvd_eq_mod_eq_0)
    with y r have "(y - 1) div n = y div n"
      by (intro int_div_pos_eq [where r = "y mod n - 1"]) linarith+
    with False show ?thesis by simp
  qed
qed

lemma floor_div_by_eq: "1 < n \<Longrightarrow> floor_div_by n x = x div n"
proof (cases "x < 0")
  case True
  assume n: "1 < n"
  have "(x + 1) sdiv n = (x + 1) div n + of_bool (\<not> n dvd (x + 1))"
    using True n by (cases "x + 1 = 0") (auto simp: signed_divide_int_eq_divide_int)
  with True n div_pred_step [of n "x + 1"] show ?thesis
    by (simp add: floor_div_by_def)
next
  case False
  assume "1 < n"
  with False show ?thesis by (simp add: floor_div_by_def sdiv_nonneg)
qed

lemma years_to_days_since_epoch_eq:
  "years_to_days_since_epoch y
   = 365 * (y - 1970) + (y - 1) div 4 - (y - 1) div 100 + (y - 1) div 400 - 477"
  by (simp add: years_to_days_since_epoch_def mod_zeros_in_range_def floor_div_by_eq)

lemma is_leap_year_iff: "is_leap_year y \<longleftrightarrow> 4 dvd y \<and> (\<not> 100 dvd y \<or> 400 dvd y)"
  by (simp add: is_leap_year_def)

lemma leap_count:
  "\<lbrakk> c \<Longrightarrow> b; b \<Longrightarrow> a \<rbrakk> \<Longrightarrow>
   of_bool a - of_bool b + of_bool c = (if a \<and> (\<not> b \<or> c) then 1 else 0 :: int)"
  by (cases a; cases b; cases c) simp_all

lemma dvd_400_100: "400 dvd y \<Longrightarrow> 100 dvd y" for y :: int
  by (rule dvd_trans [of 100 400]) simp_all

lemma dvd_100_4: "100 dvd y \<Longrightarrow> 4 dvd y" for y :: int
  by (rule dvd_trans [of 4 100]) simp_all

lemma leap_days:
  "of_bool (4 dvd y) - of_bool (100 dvd y) + of_bool (400 dvd y) = int (days_in_year y) - 365"
  by (simp only: leap_count [OF dvd_400_100 dvd_100_4] is_leap_year_iff [symmetric] days_in_year_def)
    (cases "is_leap_year y", simp_all)

lemma years_to_days_step:
  "years_to_days_since_epoch (y + 1) = years_to_days_since_epoch y + int (days_in_year y)"
  using leap_days [of y] div_pred_step [of 4 y] div_pred_step [of 100 y] div_pred_step [of 400 y]
  by (simp add: years_to_days_since_epoch_eq)

text \<open>
  The reference calendar: the day after a date.  The month of a valid date is between 1 and 12 and its
  day between 1 and the number of days of the month.
\<close>

definition month_length :: "int \<Rightarrow> nat \<Rightarrow> int" where
  "month_length year month = (case days_in_month year month of Done n \<Rightarrow> n | Verify_failed \<Rightarrow> 0)"

definition valid_date :: "int \<times> nat \<times> int \<Rightarrow> bool" where
  "valid_date = (\<lambda>(year, month, day). 1 \<le> month \<and> month \<le> 12 \<and> 1 \<le> day \<and> day \<le> month_length year month)"

definition next_date :: "int \<times> nat \<times> int \<Rightarrow> int \<times> nat \<times> int" where
  "next_date = (\<lambda>(year, month, day).
     if day < month_length year month then (year, month, day + 1)
     else if month < 12 then (year, month + 1, 1) else (year + 1, 1, 1))"

definition epoch_day :: "int \<times> nat \<times> int \<Rightarrow> int" where
  "epoch_day = (\<lambda>(year, month, day). days_since_epoch year (int month) day)"

lemma to_u32_small: "\<lbrakk> 0 \<le> x; x < 2 ^ 32 \<rbrakk> \<Longrightarrow> to_u32 x = nat x"
  by (simp add: to_u32_def)

lemma to_u32_nat: "n < 2 ^ 32 \<Longrightarrow> to_u32 (int n) = n"
  by (simp add: to_u32_small)

lemma month_cases [consumes 2]:
  fixes m :: nat
  assumes "1 \<le> m" "m \<le> 12"
  obtains "m = 1" | "m = 2" | "m = 3" | "m = 4" | "m = 5" | "m = 6"
    | "m = 7" | "m = 8" | "m = 9" | "m = 10" | "m = 11" | "m = 12"
proof -
  from assms have "m = 1 \<or> m = 2 \<or> m = 3 \<or> m = 4 \<or> m = 5 \<or> m = 6 \<or> m = 7 \<or> m = 8 \<or> m = 9
      \<or> m = 10 \<or> m = 11 \<or> m = 12" by presburger
  with that show thesis by blast
qed

lemma day_of_year_next_day: "\<lbrakk> 1 \<le> m; m \<le> 12 \<rbrakk> \<Longrightarrow> day_of_year y m (d + 1) = day_of_year y m d + 1"
  by (simp add: day_of_year_def Let_def)

lemma day_of_year_next_month:
  "\<lbrakk> 1 \<le> m; m < 12 \<rbrakk> \<Longrightarrow> day_of_year y (m + 1) 1 = day_of_year y m (month_length y m) + 1"
  by (erule month_cases [of m, OF _ less_imp_le])
    (simp_all add: day_of_year_def month_length_def days_in_month_def)

lemma day_of_year_last: "day_of_year y 12 31 = int (days_in_year y) - 1"
  by (simp add: day_of_year_def days_in_year_def)

lemma epoch_day_next_date: "valid_date date \<Longrightarrow> epoch_day (next_date date) = epoch_day date + 1"
proof (cases date)
  case (fields y m d)
  assume "valid_date date"
  with fields have m: "1 \<le> m" "m \<le> 12" and d: "1 \<le> d" "d \<le> month_length y m"
    by (auto simp: valid_date_def)
  consider "d < month_length y m" | "d = month_length y m" "m < 12" | "d = month_length y m" "m = 12"
    using d m by linarith
  then show ?thesis
  proof cases
    case 1
    with fields m show ?thesis
      by (simp add: next_date_def epoch_day_def days_since_epoch_def to_u32_nat day_of_year_next_day)
  next
    case 2
    with fields m day_of_year_next_month [of m y] show ?thesis
      by (simp add: next_date_def epoch_day_def days_since_epoch_def to_u32_nat del: of_nat_Suc)
  next
    case 3
    then have "d = 31" by (simp add: month_length_def days_in_month_def)
    with fields 3 day_of_year_last [of y] show ?thesis
      by (simp add: next_date_def epoch_day_def days_since_epoch_def to_u32_small years_to_days_step)
        (simp add: day_of_year_def)
  qed
qed

text \<open>The number of leap years from year 1 to year \<open>y\<close>, and the weekday of a day, counted from the epoch, a Thursday.\<close>

definition leap_years :: "int \<Rightarrow> int" where
  "leap_years y = y div 4 - y div 100 + y div 400"

definition weekday :: "int \<Rightarrow> nat" where
  "weekday days = nat ((days + 4) mod 7)"

lemma leap_years_nonneg: "0 \<le> y \<Longrightarrow> 0 \<le> leap_years y"
  using zdiv_mono2 [of y 4 100] pos_imp_zdiv_nonneg_iff [of 400 y] by (simp add: leap_years_def)

lemma leap_years_step: "leap_years y = leap_years (y - 1) + (if is_leap_year y then 1 else 0)"
proof -
  have "leap_years y = leap_years (y - 1) + int (days_in_year y) - 365"
    using leap_days [of y] div_pred_step [of 4 y] div_pred_step [of 100 y] div_pred_step [of 400 y]
    by (simp add: leap_years_def)
  then show ?thesis by (simp add: days_in_year_def)
qed

lemma days_since_epoch_eq:
  "1 \<le> m \<Longrightarrow> m \<le> 12 \<Longrightarrow>
   days_since_epoch y (int m) d = 365 * (y - 1970) + leap_years (y - 1) - 477 + day_of_year y m d"
  by (simp add: days_since_epoch_def years_to_days_since_epoch_eq to_u32_nat leap_years_def)

lemma day_of_week_sum:
  assumes "1 \<le> m" "m \<le> 12" "1 \<le> y" "0 \<le> d"
  defines "y' \<equiv> if m < 3 then y - 1 else y"
  shows "day_of_week y m d
    = Done (nat ((y' + leap_years y' + [0, 3, 2, 5, 0, 3, 5, 1, 4, 6, 2, 4] ! (m - 1) + d) mod 7))"
proof -
  have y': "0 \<le> y'" using assms by simp
  have sum: "y' + y' div 4 - y' div 100 + y' div 400 = y' + leap_years y'"
    by (simp add: leap_years_def)
  have "0 \<le> [0, 3, 2, 5, 0, 3, 5, 1, 4, 6, 2, 4::int] ! (m - 1)"
    using assms(1,2) by (cases rule: month_cases) simp_all
  then have nonneg: "0 \<le> y' + leap_years y' + [0, 3, 2, 5, 0, 3, 5, 1, 4, 6, 2, 4] ! (m - 1) + d"
    using y' leap_years_nonneg [OF y'] assms(4) by linarith
  have small: "0 \<le> x mod 7" "x mod 7 < 2 ^ 32" for x :: int
    using pos_mod_bound [of 7 x] by simp_all
  have "day_of_week y m d
    = Done (to_u32 ((y' + leap_years y' + [0, 3, 2, 5, 0, 3, 5, 1, 4, 6, 2, 4] ! (m - 1) + d) smod 7))"
    using assms(1,2) by (simp add: day_of_week_def Let_def y'_def [symmetric] sdiv_nonneg [OF y'] sum)
  with nonneg show ?thesis
    by (simp only: smod_nonneg zero_le_numeral to_u32_small [OF small])
qed

lemma weekday_month:
  fixes A L d y :: int
  assumes "1 \<le> m" "m \<le> 12" "L = (if is_leap_year y then 1 else 0)"
  shows "((if m < 3 then y - 1 + A else y + (A + L)) + [0, 3, 2, 5, 0, 3, 5, 1, 4, 6, 2, 4] ! (m - 1) + d) mod 7
      = (365 * (y - 1970) + A - 477 + day_of_year y m d + 4) mod 7"
proof -
  have r: "day_of_year y m d = [0, 31, 59, 90, 120, 151, 181, 212, 243, 273, 304, 334] ! (m - 1) + d - 1
      + (if m < 3 then 0 else L)"
    using assms by (simp add: day_of_year_def Let_def)
  have "365 * (y - 1970) + A - 477 + day_of_year y m d + 4
      = ((if m < 3 then y - 1 + A else y + (A + L)) + [0, 3, 2, 5, 0, 3, 5, 1, 4, 6, 2, 4] ! (m - 1) + d)
        + 7 * (52 * y - 102789 + [0, 4, 8, 12, 17, 21, 25, 30, 34, 38, 43, 47] ! (m - 1))"
    unfolding r using assms(1,2) by (cases rule: month_cases) simp_all
  then show ?thesis by (simp only: mod_mult_self2)
qed

lemma day_of_week_epoch:
  assumes "1 \<le> m" "m \<le> 12" "1 \<le> y" "0 \<le> d"
  shows "day_of_week y m d = Done (weekday (days_since_epoch y (int m) d))"
proof -
  have "(if m < 3 then y - 1 else y) + leap_years (if m < 3 then y - 1 else y)
      = (if m < 3 then y - 1 + leap_years (y - 1) else y + (leap_years (y - 1) + (if is_leap_year y then 1 else 0)))"
    using leap_years_step [of y] by (simp only: if_distrib [of leap_years] split: if_split) simp
  then show ?thesis
    unfolding day_of_week_sum [OF assms] weekday_def days_since_epoch_eq [OF assms(1,2)]
    by (simp only: weekday_month [OF assms(1,2) refl])
qed

lemma bit_length_le: "n < 2 ^ k \<Longrightarrow> bit_length n \<le> k"
proof (induction k arbitrary: n)
  case 0
  then show ?case by (subst bit_length.simps) simp
next
  case (Suc k)
  then have "n div 2 < 2 ^ k" by simp
  then have "bit_length (n div 2) \<le> k" by (rule Suc.IH)
  then show ?case by (subst bit_length.simps) simp
qed

lemma double_of_int_exact: "\<bar>x\<bar> < 2 ^ 53 \<Longrightarrow> double_of_int x = x"
  using bit_length_le [of "\<bar>x\<bar>" 53] by (simp add: double_of_int_def sgn_mult_abs)

lemma sane_mod_eq:
  assumes "2 \<le> n" "n \<le> 1000000000"
  shows "sane_mod x n = Done (x div n, x mod n)"
proof (cases "x < 0 \<and> \<not> n dvd x")
  case True
  with assms have "sgn x \<noteq> sgn n" by simp
  with True assms show ?thesis
    using pos_mod_bound [of n x]
    by (simp add: sane_mod_def signed_divide_int_eq_divide_int signed_modulo_int_eq_modulo_int)
next
  case False
  then have "x sdiv n = x div n" "x smod n = x mod n"
    using assms by (auto simp: signed_divide_int_eq_divide_int signed_modulo_int_eq_modulo_int sgn_if)
  with assms show ?thesis by (simp add: sane_mod_def Let_def not_less)
qed

lemma from_milliseconds_eq:
  "from_milliseconds ms = Done (Duration (ms div 1000) (nat (ms mod 1000) * 1000000))"
  by (simp add: from_milliseconds_def sane_mod_eq to_u32_small nat_mult_distrib)

lemma duration_plus_seconds:
  assumes "is_i64 s" "n < 1000000000"
  shows "duration_plus (from_seconds s) (Duration 0 n) = Done (Duration s n)"
  using assms by (simp add: duration_plus_def from_seconds_def checked_add_def checked_i64_def)

lemma from_unix_time_parts_eq:
  assumes "\<bar>days_since_epoch year (int month) (int day) * 86400\<bar> < 2 ^ 53"
    "hour < 2 ^ 8" "minute < 2 ^ 8" "second < 2 ^ 8" "millisecond < 1000"
  shows "from_unix_time_parts year month day hour minute second millisecond
    = Done (Duration (days_since_epoch year (int month) (int day) * 86400
        + int hour * 3600 + int minute * 60 + int second) (millisecond * 1000000))"
proof -
  have "is_i64 (days_since_epoch year (int month) (int day) * 86400
        + int hour * 3600 + int minute * 60 + int second)"
    using assms by (simp add: is_i64_def abs_less_iff)
  then show ?thesis
    using assms
    by (simp add: from_unix_time_parts_def double_of_int_exact from_milliseconds_eq duration_plus_seconds nat_mult_distrib
      div_pos_pos_trivial mod_pos_pos_trivial)
qed

text \<open>The number of days from the epoch to a year is bounded by the year, far from the 53 bits of a double.\<close>

lemma days_since_epoch_bound:
  assumes "1 \<le> m" "m \<le> 12" "0 \<le> y" "y < 10 ^ 8" "1 \<le> d" "d < 400"
  shows "\<bar>days_since_epoch y (int m) d * 86400\<bar> < 2 ^ 53"
proof -
  have "0 \<le> day_of_year y m d \<and> day_of_year y m d < 1000"
    using assms(1,2,5,6) by (cases rule: month_cases) (simp_all add: day_of_year_def Let_def)
  moreover have "- 2 \<le> leap_years (y - 1)" "leap_years (y - 1) \<le> 2 * 10 ^ 8"
    using assms(3,4) unfolding leap_years_def by linarith+
  ultimately show ?thesis
    using assms by (simp add: days_since_epoch_eq abs_less_iff)
qed

definition month_starts :: "int \<Rightarrow> nat list" where
  "month_starts year = (if is_leap_year year
     then [1, 32, 61, 92, 122, 153, 183, 214, 245, 275, 306, 336]
     else [1, 32, 60, 91, 121, 152, 182, 213, 244, 274, 305, 335])"

lemma day_of_year_month_start:
  assumes "e < 12" "month_starts y ! e \<le> day"
  shows "day_of_year y (e + 1) (int (day - month_starts y ! e + 1)) = int day - 1"
proof -
  have "1 \<le> e + 1" "e + 1 \<le> 12" using assms by simp_all
  then show ?thesis
    using assms(2)
    by (cases rule: month_cases) (auto simp: day_of_year_def month_starts_def Let_def of_nat_diff split: if_splits)
qed

lemma estimated_month_ok:
  fixes day :: nat
  assumes "1 \<le> day" "day \<le> 366"
  defines "e \<equiv> (day * 12 + 6) div 367"
  shows "e < 12" "day < month_starts y ! e \<Longrightarrow> 1 \<le> e \<and> month_starts y ! (e - 1) \<le> day \<and> day - month_starts y ! (e - 1) < 200"
    "\<not> day < month_starts y ! e \<Longrightarrow> day - month_starts y ! e < 200"
proof -
  have bounds: "367 * e \<le> day * 12 + 6" "day * 12 + 6 < 367 * e + 367"
    unfolding e_def using div_mult_mod_eq [of "day * 12 + 6" 367] mod_less_divisor [of 367 "day * 12 + 6"] by simp_all
  then show e: "e < 12" using assms(2) by simp
  then have m: "1 \<le> e + 1" "e + 1 \<le> 12" by simp_all
  have "(day < month_starts y ! e \<longrightarrow>
        1 \<le> e \<and> month_starts y ! (e - 1) \<le> day \<and> day - month_starts y ! (e - 1) < 200)
      \<and> (\<not> day < month_starts y ! e \<longrightarrow> day - month_starts y ! e < 200)"
    using m bounds assms(1) by (cases rule: month_cases) (auto simp: month_starts_def split: if_splits)
  then show "day < month_starts y ! e \<Longrightarrow>
      1 \<le> e \<and> month_starts y ! (e - 1) \<le> day \<and> day - month_starts y ! (e - 1) < 200"
    "\<not> day < month_starts y ! e \<Longrightarrow> day - month_starts y ! e < 200"
    by blast+
qed

lemma to_i32_small: "\<lbrakk> - (2 ^ 31) \<le> x; x < 2 ^ 31 \<rbrakk> \<Longrightarrow> to_i32 x = x"
  by (simp add: to_i32_def)

lemma from_ordinal_month:
  assumes "year < 10 ^ 8" "e < 12" "month_starts (int year) ! e \<le> day" "day - month_starts (int year) ! e < 200"
  shows "from_unix_time_parts (int year) (to_u8 (e + 1)) (to_u8 (day - month_starts (int year) ! e + 1)) 0 0 0 0
    = Done (Duration ((days_since_epoch (int year) 1 1 + int day - 1) * 86400) 0)"
proof -
  let ?d = "day - month_starts (int year) ! e + 1"
  have u8: "to_u8 (e + 1) = e + 1" "to_u8 ?d = ?d" using assms by (simp_all add: to_u8_def)
  have days: "days_since_epoch (int year) (int (e + 1)) (int ?d) = days_since_epoch (int year) 1 1 + int day - 1"
  proof -
    have "days_since_epoch (int year) (int (e + 1)) (int ?d) = 365 * (int year - 1970) + leap_years (int year - 1) - 477 + (int day - 1)"
      using assms day_of_year_month_start [of e "int year" day] days_since_epoch_eq [of "e + 1" "int year" "int ?d"] by simp
    moreover have "days_since_epoch (int year) 1 1 = 365 * (int year - 1970) + leap_years (int year - 1) - 477"
      using days_since_epoch_eq [of 1 "int year" 1] by (simp add: day_of_year_def)
    ultimately show ?thesis by simp
  qed
  show ?thesis
    using assms days_since_epoch_bound [of "e + 1" "int year" "int ?d"]
    unfolding u8 by (subst from_unix_time_parts_eq) (simp_all only: days, simp_all)
qed

lemma from_ordinal_date_eq:
  assumes "year < 10 ^ 8" "1 \<le> day" "day \<le> 366"
  shows "from_ordinal_date year day = Done (Duration ((days_since_epoch (int year) 1 1 + int day - 1) * 86400) 0)"
proof -
  define e where "e = (day * 12 + 6) div 367"
  have small: "(day * 12 + 6) mod 2 ^ 32 = day * 12 + 6" using assms by simp
  have y: "to_i32 (int year) = int year" using assms by (simp add: to_i32_small)
  have len: "length (month_starts (int year)) = 12" by (simp add: month_starts_def)
  have e: "e < 12" using estimated_month_ok(1) [OF assms(2,3)] by (simp add: e_def)
  have body: "from_ordinal_date year day
    = (let e' = (if day < month_starts (int year) ! e then to_u32 (int e - 1) else e)
       in if \<not> e' < 12 then Verify_failed
          else from_unix_time_parts (int year) (to_u8 (e' + 1)) (to_u8 (day - month_starts (int year) ! e' + 1)) 0 0 0 0)"
    using e unfolding from_ordinal_date_def y month_starts_def [symmetric] small e_def [symmetric] Let_def len by simp
  show ?thesis
  proof (cases "day < month_starts (int year) ! e")
    case True
    with estimated_month_ok(2) [OF assms(2,3)] e
    have "1 \<le> e" "month_starts (int year) ! (e - 1) \<le> day" "day - month_starts (int year) ! (e - 1) < 200"
      by (simp_all add: e_def)
    moreover from this e have "to_u32 (int e - 1) = e - 1"
      by (subst to_u32_small) (simp_all add: nat_diff_distrib)
    ultimately show ?thesis
      using True e assms(1) from_ordinal_month [of year "e - 1" day] by (simp add: body Let_def)
  next
    case False
    with e assms show ?thesis
      using estimated_month_ok(3) [OF assms(2,3), of "int year"] from_ordinal_month [of year e day]
      by (simp add: body Let_def e_def [symmetric])
  qed
qed

text \<open>The Monday of an ISO week: January 4 is in week 1.\<close>

definition iso_week_start :: "int \<Rightarrow> int \<Rightarrow> int" where
  "iso_week_start year week =
     (let january_4th = days_since_epoch year 1 4
      in january_4th - int ((weekday january_4th + 6) mod 7) + 7 * (week - 1))"

lemma weekday_iso_week_start: "weekday (iso_week_start year week) = 1"
proof -
  have *: "(x - int ((nat ((x + 4) mod 7) + 6) mod 7) + 7 * k + 4) mod 7 = 1" for x k :: int
    by (simp add: zmod_int) presburger
  show ?thesis
    unfolding iso_week_start_def weekday_def Let_def by (subst *) simp
qed

lemma days_since_new_year: "days_since_epoch y 1 d = days_since_epoch y 1 1 + d - 1"
  using days_since_epoch_eq [of 1 y d] days_since_epoch_eq [of 1 y 1] by (simp add: day_of_year_def)

lemma days_since_new_year_step:
  "days_since_epoch (y + 1) 1 1 = days_since_epoch y 1 1 + int (days_in_year y)"
  by (simp add: days_since_epoch_def years_to_days_step to_u32_small day_of_year_def)

lemma days_in_year_bounds: "365 \<le> days_in_year y" "days_in_year y \<le> 366"
  by (simp_all add: days_in_year_def)

lemma from_iso8601_week_eq:
  assumes "2 \<le> year" "year < 10 ^ 7" "1 \<le> week" "week \<le> 53"
  shows "from_iso8601_week year week = Done (Duration (iso_week_start (int year) (int week) * 86400) 0)"
proof -
  define dow where "dow = (weekday (days_since_epoch (int year) 1 4) + 6) mod 7"
  define ord where "ord = 7 * int week - int dow - 3"
  have wd: "weekday d < 7" for d using pos_mod_bound [of 7 "d + 4"] by (simp add: weekday_def nat_less_iff)
  have dow: "dow < 7" by (simp add: dow_def)
  have ord: "- 2 \<le> ord" "ord \<le> 368" using assms(3,4) dow by (auto simp: ord_def)
  have y32: "to_i32 (int year) = int year" "to_u32 (int year - 1) = year - 1"
    "to_i32 (int (year - 1)) = int year - 1" "to_u32 (int year + 1) = year + 1"
    using assms by (simp_all add: to_i32_small to_u32_small nat_diff_distrib of_nat_diff nat_add_distrib)
  have day4: "day_of_week (int year) 1 4 = Done (weekday (days_since_epoch (int year) 1 4))"
    using day_of_week_epoch [of 1 "int year" 4] assms by simp
  have dow': "(weekday (days_since_epoch (int year) 1 4) + 6) mod 2 ^ 32 mod 7 = dow"
    using wd [of "days_since_epoch (int year) 1 4"] by (simp add: dow_def)
  have ord32: "to_i32 ord = ord" using ord by (simp add: to_i32_small)
  have start: "iso_week_start (int year) (int week) = days_since_epoch (int year) 1 1 + ord - 1"
    unfolding iso_week_start_def Let_def dow_def [symmetric] ord_def by (simp add: days_since_new_year [of _ 4])
  have body: "from_iso8601_week year week =
    (if ord < 1 then from_ordinal_date (year - 1) (to_u32 (ord + int (days_in_year (int year - 1))))
     else if to_u32 ord > days_in_year (int year)
     then from_ordinal_date (year + 1) (to_u32 (ord - int (days_in_year (int year))))
     else from_ordinal_date year (to_u32 ord))"
    unfolding from_iso8601_week_def y32 day4 exec_bind.simps Let_def dow' ord_def [symmetric] ord32 ..
  consider "ord < 1" | "1 \<le> ord" "ord \<le> int (days_in_year (int year))" | "int (days_in_year (int year)) < ord"
    by linarith
  then show ?thesis
  proof cases
    case 1
    with ord days_in_year_bounds [of "int year - 1"] days_since_new_year_step [of "int year - 1"] assms start show ?thesis
      by (simp add: body to_u32_small from_ordinal_date_eq nat_le_iff nat_less_iff le_nat_iff of_nat_diff)
  next
    case 2
    with ord days_in_year_bounds [of "int year"] assms start show ?thesis
      by (simp add: body to_u32_small from_ordinal_date_eq nat_le_iff le_nat_iff zless_nat_eq_int_zless)
  next
    case 3
    with ord days_in_year_bounds [of "int year"] days_since_new_year_step [of "int year"] assms start show ?thesis
      by (simp add: body to_u32_small from_ordinal_date_eq nat_le_iff le_nat_iff zless_nat_eq_int_zless add.commute [of 1])
  qed
qed

subsection \<open>Durations as saturated integers\<close>

definition nanos :: "duration \<Rightarrow> int" where
  "nanos d = m_seconds d * 10 ^ 9 + int (m_nanoseconds d)"

definition duration_ok :: "duration \<Rightarrow> bool" where
  "duration_ok d \<longleftrightarrow> is_i64 (m_seconds d) \<and> m_nanoseconds d < 10 ^ 9"

text \<open>
  The contract of a bounded quantity: an abstraction to the integers between a least and a greatest
  value, with an addition that saturates at both ends.
\<close>

locale saturating =
  fixes ok :: "'a \<Rightarrow> bool" and val :: "'a \<Rightarrow> int" and least greatest :: 'a
    and plus :: "'a \<Rightarrow> 'a \<Rightarrow> 'a exec" and minus :: "'a \<Rightarrow> 'a \<Rightarrow> 'a exec"
  assumes ends_ok: "ok least" "ok greatest"
    and val_bounds: "ok a \<Longrightarrow> val least \<le> val a \<and> val a \<le> val greatest"
    and plus_ok: "\<lbrakk> ok a; ok b \<rbrakk> \<Longrightarrow> \<exists>c. plus a b = Done c \<and> ok c
        \<and> val c = max (val least) (min (val greatest) (val a + val b))"
    and minus_ok: "\<lbrakk> ok a; ok b \<rbrakk> \<Longrightarrow> \<exists>c. minus a b = Done c \<and> ok c
        \<and> val c = max (val least) (min (val greatest) (val a - val b))"
begin

lemma plus_mono:
  "\<lbrakk> ok a; ok a'; ok b; val a \<le> val a'; plus a b = Done c; plus a' b = Done c' \<rbrakk> \<Longrightarrow> val c \<le> val c'"
  using plus_ok [of a b] plus_ok [of a' b] by auto

lemma plus_increases: "\<lbrakk> ok a; ok b; 0 \<le> val b; plus a b = Done c \<rbrakk> \<Longrightarrow> val a \<le> val c"
  using plus_ok [of a b] val_bounds [of a] by auto

lemma plus_exact:
  "\<lbrakk> ok a; ok b; val least \<le> val a + val b; val a + val b \<le> val greatest; plus a b = Done c \<rbrakk>
   \<Longrightarrow> val c = val a + val b"
  using plus_ok [of a b] by auto

lemma minus_plus:
  "\<lbrakk> ok a; ok b; val least \<le> val a + val b; val a + val b \<le> val greatest; plus a b = Done c; minus c b = Done d \<rbrakk>
   \<Longrightarrow> val d = val a"
  using plus_ok [of a b] minus_ok [of c b] val_bounds [of a] by auto

end

lemma duration_ok_ends [simp]: "duration_ok duration_min" "duration_ok duration_max"
  by (simp_all add: duration_ok_def duration_min_def duration_max_def is_i64_def)

lemma nanos_bounds: "duration_ok a \<Longrightarrow> nanos duration_min \<le> nanos a \<and> nanos a \<le> nanos duration_max"
  by (auto simp: duration_ok_def nanos_def duration_min_def duration_max_def is_i64_def)

lemma nanos_less_iff: "\<lbrakk> duration_ok a; duration_ok b \<rbrakk> \<Longrightarrow> a < b \<longleftrightarrow> nanos a < nanos b"
  by (auto simp: less_duration_def duration_compare_def Let_def duration_ok_def nanos_def)

lemma nanos_le_iff: "\<lbrakk> duration_ok a; duration_ok b \<rbrakk> \<Longrightarrow> a \<le> b \<longleftrightarrow> nanos a \<le> nanos b"
  by (auto simp: less_eq_duration_def duration_compare_def Let_def duration_ok_def nanos_def)

lemma nanos_inject: "\<lbrakk> duration_ok a; duration_ok b; nanos a = nanos b \<rbrakk> \<Longrightarrow> a = b"
  by (metis nanos_less_iff not_less_iff_gr_or_eq)

lemma duration_plus_saturates:
  assumes "duration_ok a" "duration_ok b"
  shows "\<exists>c. duration_plus a b = Done c \<and> duration_ok c
    \<and> nanos c = max (nanos duration_min) (min (nanos duration_max) (nanos a + nanos b))"
proof (cases a; cases b)
  fix s m t n
  assume ab: "a = Duration s m" "b = Duration t n"
  with assms have r: "is_i64 s" "is_i64 t" "m < 10 ^ 9" "n < 10 ^ 9" by (simp_all add: duration_ok_def)
  show ?thesis
  proof (cases "m + n < 10 ^ 9")
    case True
    with r show ?thesis
      by (auto simp: ab duration_plus_def checked_add_def checked_i64_def Let_def is_i64_def duration_ok_def
          nanos_def duration_min_def duration_max_def)
  next
    case False
    with r have "(m + n) div 1000000000 = 1" "(m + n) mod 1000000000 = m + n - 1000000000"
      by (simp_all add: div_in_range mod_in_range [of 1])
    with False r show ?thesis
      by (auto simp: ab duration_plus_def checked_add_def checked_i64_def Let_def is_i64_def duration_ok_def
          nanos_def duration_min_def duration_max_def of_nat_diff)
  qed
qed

lemma complement_i64: "is_i64 s \<Longrightarrow> to_i64 (int (2 ^ 64 - 1 - to_u64 s)) = - s - 1"
proof -
  assume s: "is_i64 s"
  have "int (to_u64 s) = s mod 2 ^ 64" by (simp add: to_u64_def)
  moreover have "to_u64 s \<le> 2 ^ 64 - 1" by (simp add: to_u64_def nat_le_iff)
  ultimately have "int (2 ^ 64 - 1 - to_u64 s) = 2 ^ 64 - 1 - s mod 2 ^ 64" by (simp add: of_nat_diff)
  then have "to_i64 (int (2 ^ 64 - 1 - to_u64 s)) = (2 ^ 64 - 1 + 2 ^ 63 - s) mod 2 ^ 64 - 2 ^ 63"
    by (simp add: to_i64_def mod_diff_right_eq)
  also have "(2 ^ 64 - 1 + 2 ^ 63 - s) mod 2 ^ 64 = 2 ^ 63 - 1 - s"
    using mod_add_self1 [of "2 ^ 64" "2 ^ 63 - 1 - s"] s by (simp add: is_i64_def add_diff_eq)
  finally show ?thesis by simp
qed

lemma duration_minus_saturates:
  assumes "duration_ok a" "duration_ok b"
  shows "\<exists>c. duration_minus a b = Done c \<and> duration_ok c
    \<and> nanos c = max (nanos duration_min) (min (nanos duration_max) (nanos a - nanos b))"
proof -
  have ns: "m_nanoseconds a < 10 ^ 9" "m_nanoseconds b < 10 ^ 9" "is_i64 (m_seconds b)" "is_i64 (m_seconds a)"
    using assms by (simp_all add: duration_ok_def)
  consider "m_nanoseconds b \<noteq> 0" | "m_nanoseconds b = 0" "m_seconds b \<noteq> i64_min"
    | "m_nanoseconds b = 0" "m_seconds b = i64_min" by blast
  then show ?thesis
  proof cases
    case 1
    let ?b = "Duration (- m_seconds b - 1) (1000000000 - m_nanoseconds b)"
    have "duration_ok ?b" "nanos ?b = - nanos b"
      using ns 1 by (auto simp: duration_ok_def nanos_def is_i64_def of_nat_diff)
    with duration_plus_saturates [OF assms(1), of ?b] 1 ns show ?thesis
      unfolding duration_minus_def complement_i64 [OF ns(3)] by simp
  next
    case 2
    let ?b = "Duration (- m_seconds b) 0"
    have "duration_ok ?b" "nanos ?b = - nanos b"
      using ns 2 by (auto simp: duration_ok_def nanos_def is_i64_def)
    with duration_plus_saturates [OF assms(1), of ?b] 2 ns show ?thesis
      by (simp add: duration_minus_def)
  next
    case 3
    with ns show ?thesis
      by (auto simp: duration_minus_def duration_ok_def nanos_def is_i64_def duration_min_def duration_max_def)
  qed
qed

interpretation duration_arith: saturating duration_ok nanos duration_min duration_max duration_plus duration_minus
  by unfold_locales (simp_all add: nanos_bounds duration_plus_saturates duration_minus_saturates)

text \<open>Conversions to integers saturate at the ends of \<^verbatim>\<open>i64\<close>.\<close>

definition clamp_i64 :: "int \<Rightarrow> int" where
  "clamp_i64 x = max i64_min (min i64_max x)"

lemma clamp_i64_id: "is_i64 x \<Longrightarrow> clamp_i64 x = x"
  by (simp add: clamp_i64_def is_i64_def)

lemma div_nanos:
  assumes "units * int n = 10 ^ 9" "0 < n"
  shows "nanos d div int n = m_seconds d * units + int (m_nanoseconds d div n)"
    "nanos d mod int n = int (m_nanoseconds d mod n)"
proof -
  have "nanos d = int (m_nanoseconds d) + int n * (m_seconds d * units)"
    using assms(1) by (simp add: nanos_def algebra_simps)
  with assms(2) show "nanos d div int n = m_seconds d * units + int (m_nanoseconds d div n)"
    "nanos d mod int n = int (m_nanoseconds d mod n)"
    by (simp_all add: zdiv_int zmod_int)
qed

lemma int_div_less: "\<lbrakk> x < c * b; 0 < b \<rbrakk> \<Longrightarrow> x div b < c" for x b c :: int
proof (rule ccontr)
  assume "x < c * b" "0 < b" "\<not> x div b < c"
  then have "c * b \<le> x div b * b" by (simp add: mult_right_mono)
  also have "\<dots> \<le> x" using \<open>0 < b\<close> pos_mod_sign [of b x] by (simp add: minus_mod_eq_div_mult [symmetric])
  finally show False using \<open>x < c * b\<close> by simp
qed

lemma subsecond_bound: "\<lbrakk> units * int n = 10 ^ 9; 0 < n; m < 10 ^ 9 \<rbrakk> \<Longrightarrow> int (m div n) < units"
  unfolding zdiv_int by (rule int_div_less) simp_all

lemma ceiling_div:
  fixes x n :: int
  assumes "0 < n"
  shows "- ((- x) div n) = x div n + (if x mod n = 0 then 0 else 1)"
  using assms by (simp add: zdiv_zminus1_eq_if)

lemmas checked_defs = checked_add_def checked_sub_def checked_mul_def checked_i64_def is_i64_def

lemma saturated_negative:
  fixes p q u :: int
  assumes "p \<le> 0" "0 \<le> q" "q < u" "u \<le> 10 ^ 9" "m_seconds d < 0"
  shows "saturated d (checked_sub (checked_add (checked_i64 p) q) u) = clamp_i64 (p + q - u)"
    "saturated d (checked_sub (checked_add (checked_add (checked_i64 p) q) 1) u) = clamp_i64 (p + q + 1 - u)"
  using assms by (auto simp: saturated_def checked_defs clamp_i64_def)

lemma saturated_positive:
  fixes p q :: int
  assumes "0 \<le> p" "0 \<le> q" "\<not> m_seconds d < 0"
  shows "saturated d (checked_add (checked_i64 p) q) = clamp_i64 (p + q)"
    "saturated d (checked_add (checked_add (checked_i64 p) q) 1) = clamp_i64 (p + q + 1)"
  using assms by (auto simp: saturated_def checked_defs clamp_i64_def)

lemma checked_seconds:
  assumes "is_i64 s" "s < 0"
  shows "checked_mul (checked_i64 (s + 1)) u = checked_i64 (s * u + u)"
  using assms by (auto simp: checked_mul_def checked_i64_def is_i64_def distrib_right)

lemma checked_whole: "is_i64 s \<Longrightarrow> checked_mul (checked_i64 s) u = checked_i64 (s * u)"
  by (simp add: checked_mul_def checked_i64_def)

lemma units_bounds:
  assumes "units * int n = 10 ^ 9" "0 < n"
  shows "0 < units" "units \<le> 10 ^ 9"
proof -
  show "0 < units" using assms by (metis of_nat_0_less_iff zero_less_mult_iff zero_less_numeral zero_less_power not_less_iff_gr_or_eq)
  then have "units * 1 \<le> units * int n" using assms(2) by (intro mult_left_mono) simp_all
  then show "units \<le> 10 ^ 9" using assms by simp
qed

lemma to_units_eq:
  assumes "units * int n = 10 ^ 9" "0 < n" "duration_ok d"
  shows "to_units units n d
    = Done (clamp_i64 (if m_seconds d < 0 then nanos d div int n else - ((- nanos d) div int n)))"
proof -
  let ?s = "m_seconds d" and ?m = "m_nanoseconds d"
  have ok: "?m < 1000000000" "is_i64 ?s" using assms(3) by (simp_all add: duration_ok_def)
  have u: "0 < units" "units \<le> 10 ^ 9" using units_bounds [OF assms(1,2)] by simp_all
  have q: "int (?m div n) < units" using subsecond_bound [OF assms(1,2)] ok by simp
  show ?thesis
  proof (cases "?s < 0")
    case True
    then have "?s * units + units \<le> 0"
      using u by (metis add.commute add_le_same_cancel1 distrib_right mult_1 mult_nonpos_nonneg less_imp_le zless_imp_add1_zle)
    with True q u ok show ?thesis
      by (simp add: to_units_def verify_nanoseconds_def checked_seconds saturated_negative div_nanos [OF assms(1,2)]
          Let_def)
  next
    case False
    then have "0 \<le> ?s * units" using u by simp
    with False ok show ?thesis
      by (simp add: to_units_def verify_nanoseconds_def checked_whole saturated_positive ceiling_div assms(2) div_nanos [OF assms(1,2)] Let_def)
  qed
qed

lemma to_truncated_units_eq:
  assumes "units * int n = 10 ^ 9" "0 < n" "duration_ok d"
  shows "to_truncated_units units n d = Done (clamp_i64 (nanos d sdiv int n))"
proof -
  let ?s = "m_seconds d" and ?m = "m_nanoseconds d"
  have ok: "?m < 1000000000" "is_i64 ?s" using assms(3) by (simp_all add: duration_ok_def)
  have u: "0 < units" "units \<le> 10 ^ 9" using units_bounds [OF assms(1,2)] by simp_all
  have q: "int (?m div n) < units" using subsecond_bound [OF assms(1,2)] ok by simp
  show ?thesis
  proof (cases "?s < 0")
    case True
    then have "?s * units + units \<le> 0"
      using u by (metis add.commute add_le_same_cancel1 distrib_right mult_1 mult_nonpos_nonneg less_imp_le zless_imp_add1_zle)
    moreover have "nanos d < 0" using True ok by (simp add: nanos_def)
    then have "nanos d sdiv int n = nanos d div int n + (if nanos d mod int n = 0 then 0 else 1)"
      using assms(2) by (simp add: signed_divide_int_eq_divide_int dvd_eq_mod_eq_0)
    ultimately show ?thesis
      using True q u ok
      by (simp add: to_truncated_units_def verify_nanoseconds_def checked_seconds saturated_negative
          div_nanos [OF assms(1,2)] Let_def add.assoc)
  next
    case False
    then have "0 \<le> ?s * units" "0 \<le> nanos d" using u by (simp_all add: nanos_def)
    with False ok show ?thesis
      by (simp add: to_truncated_units_def verify_nanoseconds_def checked_whole saturated_positive sdiv_nonneg div_nanos [OF assms(1,2)] Let_def)
  qed
qed

lemma from_milliseconds_to_milliseconds:
  assumes "is_i64 ms"
  shows "exec_bind (from_milliseconds ms) to_milliseconds = Done ms"
proof -
  let ?d = "Duration (ms div 1000) (nat (ms mod 1000) * 1000000)"
  have "is_i64 (ms div 1000)" using assms by (auto simp: is_i64_def)
  then have ok: "duration_ok ?d" by (simp add: duration_ok_def nat_less_iff) 
  have n: "nanos ?d = ms * 1000000"
  proof -
    have "(a * 1000 + b) * 1000000 = a * 1000000000 + b * 1000000" for a b :: int by simp
    from this [of "ms div 1000" "ms mod 1000"] show ?thesis by (simp add: nanos_def)
  qed
  have "to_milliseconds ?d = Done (clamp_i64 ms)"
    unfolding to_milliseconds_def using to_units_eq [OF _ _ ok, of 1000 1000000] by (simp add: n minus_mult_left del: mult_minus_left)
  with assms show ?thesis by (simp add: from_milliseconds_eq clamp_i64_id)
qed

lemma from_half_sanitized_saturates:
  assumes "is_i64 s" "is_i32 e" "n < 10 ^ 9"
  shows "\<exists>c. from_half_sanitized s e n = Done c \<and> duration_ok c
    \<and> nanos c = max (nanos duration_min) (min (nanos duration_max) ((s + e) * 10 ^ 9 + int n))"
  using assms
  by (auto simp: from_half_sanitized_def Let_def duration_ok_def nanos_def is_i64_def is_i32_def duration_min_def
      duration_max_def)

lemma from_timespec_saturates:
  assumes "is_i64 s" "is_i32 n"
  shows "\<exists>c. from_timespec s n = Done c \<and> duration_ok c
    \<and> nanos c = max (nanos duration_min) (min (nanos duration_max) (s * 10 ^ 9 + n))"
proof -
  have "is_i32 (n div 1000000000)" using assms(2) by (auto simp: is_i32_def)
  moreover have "to_i32 (n div 1000000000) = n div 1000000000" "to_i32 n = n"
    "to_i32 (n mod 1000000000) = n mod 1000000000" 
    using assms(2) pos_mod_bound [of 1000000000 n] by (auto simp: is_i32_def intro!: to_i32_small)
  moreover have "nat (n mod 1000000000) < 10 ^ 9"
    using pos_mod_bound [of 1000000000 n] by (simp add: nat_less_iff)
  moreover have "(s + n div 1000000000) * 10 ^ 9 + n mod 1000000000 = s * 10 ^ 9 + n"
    by (simp add: distrib_right)
  ultimately show ?thesis
    using from_half_sanitized_saturates [OF assms(1), of "n div 1000000000" "nat (n mod 1000000000)"]
      pos_mod_bound [of 1000000000 n]
    by (simp add: from_timespec_def sane_mod_i32_def sane_mod_eq to_u32_small add.commute)
qed

lemma from_time_units_whole:
  assumes "0 \<le> t" "is_i64 t" "0 < den" "den < 2000000000"
  shows "\<exists>d. from_time_units t 1 den = Done d \<and> duration_ok d
    \<and> nanos d = (t * 10 ^ 9 + int (den div 2)) div int den"
proof -
  let ?D = "int den" and ?h = "int (den div 2)"
  let ?ns = "((t mod ?D) * 1000000000 + ?h) div ?D"
  have "0 \<le> t div ?D" "t div ?D \<le> t"
    using assms(1,3) zdiv_mono2 [of t 1 ?D] by (simp_all add: pos_imp_zdiv_nonneg_iff)
  then have i64: "is_i64 (t div ?D)" using assms(2) by (simp add: is_i64_def)
  have "t mod ?D * 1000000000 \<le> (?D - 1) * 1000000000" using assms(3) pos_mod_bound [of ?D t] by (intro mult_right_mono) linarith+
  then have "t mod ?D * 1000000000 + ?h < 1000000000 * ?D" using assms(4) by simp
  then have ns: "0 \<le> ?ns" "?ns < 1000000000"
    using assms(3) by (simp_all add: pos_imp_zdiv_nonneg_iff int_div_less)
  have exact: "t * 10 ^ 9 + ?h = (t mod ?D * 1000000000 + ?h) + ?D * (t div ?D * 1000000000)"
    by (simp add: minus_div_mult_eq_mod [symmetric] algebra_simps)
  have "(t * 10 ^ 9 + ?h) div ?D = t div ?D * 1000000000 + ?ns"
    unfolding exact using assms(3) by simp
  moreover have "from_time_units t 1 den = Done (Duration (t div ?D) (nat ?ns))"
    using assms i64 ns
    by (simp add: from_time_units_def checked_div_def checked_mul_def checked_i64_def [of t] checked_i64_def [of "t div ?D"]
        sdiv_nonneg pos_imp_zdiv_nonneg_iff minus_div_mult_eq_mod to_u32_small Let_def
        del: left_diff_distrib_numeral)
  ultimately show ?thesis
    using i64 ns by (simp add: duration_ok_def nanos_def nat_less_iff)
qed

text \<open>Three inputs on which \<^verbatim>\<open>Duration::from_time_units\<close> is wrong or stops the process.\<close>

lemma from_time_units_negative_second:
  assumes "0 < k" "is_i64 (- k - 1)"
  shows "from_time_units (- k) 1 1 = Verify_failed"
  using assms
  by (simp add: from_time_units_def checked_div_def checked_mul_def checked_sub_def checked_i64_def is_i64_def Let_def)

lemma from_time_units_ntsc: "from_time_units 30 1001 30000 = Done (Duration 1 33366667)"
  by (simp add: from_time_units_def checked_div_def checked_mul_def checked_i64_def is_i64_def Let_def to_u32_def)

text \<open>\<^verbatim>\<open>Duration::from_ticks\<close> takes the remainder where the quotient is meant: 150 ticks of a hundredth are not 1.5 seconds.\<close>

lemma from_ticks_wrong: "from_ticks 150 100 \<noteq> Done (Duration 1 500000000)"
  by (simp add: from_ticks_def Let_def to_i32_def sane_mod_i32_def sane_mod_eq to_u32_def from_half_sanitized_def is_i64_def)

subsection \<open>Properties\<close>

text \<open>C10: \<^verbatim>\<open>days_since_epoch\<close> is the civil calendar: 1970-01-01 is day 0, and the day after any valid
  date, in any year, has the next number.\<close>

theorem days_since_epoch_counts_days:
  "epoch_day (1970, 1, 1) = 0
   \<and> (\<forall>date. valid_date date \<longrightarrow> epoch_day (next_date date) = epoch_day date + 1)"
  by (simp add: epoch_day_next_date)
    (simp add: epoch_day_def days_since_epoch_def years_to_days_since_epoch_eq day_of_year_def to_u32_def)

theorem days_since_epoch_counts_days_witness:
  "epoch_day (next_date (2024, 2, 28)) = epoch_day (2024, 2, 28) + 1 \<and> next_date (2024, 2, 28) = (2024, 2, 29)"
proof -
  have "valid_date (2024, 2, 28)" "next_date (2024, 2, 28) = (2024, 2, 29)" by code_simp+
  with days_since_epoch_counts_days show ?thesis by metis
qed

text \<open>C23: \<^verbatim>\<open>UnixDateTime::from_iso8601_week\<close> gives midnight of the Monday of the week that ISO 8601
  names: the one that many weeks after the week of January 4, across the ends of the year.\<close>

theorem from_iso8601_week_is_monday:
  assumes "2 \<le> year" "year < 10 ^ 7" "1 \<le> week" "week \<le> 53"
  shows "from_iso8601_week year week = Done (Duration (iso_week_start (int year) (int week) * 86400) 0)
    \<and> weekday (iso_week_start (int year) (int week)) = 1"
  using assms by (simp add: from_iso8601_week_eq weekday_iso_week_start)

theorem from_iso8601_week_is_monday_witness:
  "from_iso8601_week 2025 1 = Done (Duration (iso_week_start 2025 1 * 86400) 0) \<and> iso_week_start 2025 1 * 86400 = 1735516800"
proof -
  have "iso_week_start 2025 1 * 86400 = 1735516800" by code_simp
  with from_iso8601_week_is_monday [of 2025 1] show ?thesis by simp
qed

text \<open>C8: Durations implement saturated integers of nanoseconds: on valid durations addition and
  subtraction never fail a \<^verbatim>\<open>VERIFY\<close>, give the exact result or the nearer end of the range, and the
  comparison is that of the integers.\<close>

theorem duration_refines_saturated_integers:
  assumes "duration_ok a" "duration_ok b"
  shows "(\<exists>c. duration_plus a b = Done c \<and> duration_ok c
      \<and> nanos c = max (nanos duration_min) (min (nanos duration_max) (nanos a + nanos b)))
    \<and> (\<exists>c. duration_minus a b = Done c \<and> duration_ok c
      \<and> nanos c = max (nanos duration_min) (min (nanos duration_max) (nanos a - nanos b)))
    \<and> (a < b \<longleftrightarrow> nanos a < nanos b) \<and> (a = b \<longleftrightarrow> nanos a = nanos b)"
  using duration_arith.plus_ok [OF assms] duration_arith.minus_ok [OF assms] nanos_less_iff [OF assms]
    nanos_inject [OF assms] by blast

theorem duration_refines_saturated_integers_witness:
  "(\<exists>c. duration_plus duration_max (Duration 0 1) = Done c \<and> nanos c = nanos duration_max)
   \<and> (\<exists>c. duration_minus (Duration 1 5) (Duration 0 7) = Done c \<and> nanos c = 999999998)"
  using duration_refines_saturated_integers [of duration_max "Duration 0 1"]
    duration_refines_saturated_integers [of "Duration 1 5" "Duration 0 7"]
  by (auto simp: duration_ok_def nanos_def is_i64_def duration_max_def duration_min_def)

text \<open>C24: Milliseconds survive the conversion to a duration and back, for every 64-bit value, and
  conversions of a duration to milliseconds round away from zero and saturate.\<close>

theorem milliseconds_round_trip:
  assumes "is_i64 ms" "duration_ok d"
  shows "exec_bind (from_milliseconds ms) to_milliseconds = Done ms
    \<and> to_milliseconds d = Done (clamp_i64 (if m_seconds d < 0 then nanos d div 1000000 else - ((- nanos d) div 1000000)))"
  using from_milliseconds_to_milliseconds [OF assms(1)] to_units_eq [OF _ _ assms(2), of 1000 1000000]
  by (simp add: to_milliseconds_def)

theorem milliseconds_round_trip_witness:
  "exec_bind (from_milliseconds (-1500)) to_milliseconds = Done (-1500)
   \<and> to_milliseconds (Duration (-3) 700000001) = Done (-2300)"
  using milliseconds_round_trip [of "-1500" "Duration (-3) 700000001"]
  by (simp add: is_i64_def duration_ok_def nanos_def clamp_i64_def)

text \<open>C25: \<^verbatim>\<open>Duration::from_time_units\<close> rounds to the nearest nanosecond when the unit is one over a
  rate below two billion and the time is not negative.\<close>

theorem from_time_units_rounds:
  assumes "0 \<le> t" "is_i64 t" "0 < rate" "rate < 2000000000"
  shows "\<exists>d. from_time_units t 1 rate = Done d \<and> duration_ok d
    \<and> nanos d = (t * 10 ^ 9 + int (rate div 2)) div int rate"
  using assms by (rule from_time_units_whole)

theorem from_time_units_rounds_witness:
  "\<exists>d. from_time_units 960 1 48000 = Done d \<and> nanos d = 20000000"
  using from_time_units_rounds [of 960 48000] by (auto simp: is_i64_def)

text \<open>C26: \<^verbatim>\<open>Duration::from_time_units\<close> is wrong outside that range.  Every whole negative number of
  seconds fails a \<^verbatim>\<open>VERIFY\<close>, and with a unit of 1001/30000 seconds, that of NTSC video, 30 units are
  1.033366667 seconds where 1.001 are exact.\<close>

theorem from_time_units_wrong:
  assumes "0 < k" "is_i64 (- k - 1)"
  shows "from_time_units (- k) 1 1 = Verify_failed \<and> from_time_units 30 1001 30000 = Done (Duration 1 33366667)
    \<and> 33366667 * 30000 \<noteq> (30 * 1001 - 30000) * (10 ^ 9 :: nat)"
  using from_time_units_negative_second [OF assms] from_time_units_ntsc by (simp del: One_nat_def)

theorem from_time_units_wrong_witness: "from_time_units (- 1) 1 1 = Verify_failed"
  using from_time_units_wrong [of 1] by (simp add: is_i64_def)

end
