(* ===== verification/Web_Cookie.thy ===== *)
theory Web_Cookie
  imports URL_Record AK_Time
begin

text \<open>
  Cookies as LibWeb has them: \<^verbatim>\<open>Libraries/LibWeb/Cookie/Cookie.h\<close>, \<^verbatim>\<open>Cookie.cpp\<close>, \<^verbatim>\<open>ParsedCookie.h\<close> and
  \<^verbatim>\<open>ParsedCookie.cpp\<close>, and \<^verbatim>\<open>IPv4Address::from_string\<close> of \<^verbatim>\<open>AK/IPv4Address.h\<close>.

  The parser reads the clock once for every \<^verbatim>\<open>Expires\<close> or \<^verbatim>\<open>Max-Age\<close> attribute it accepts.  The readings are
  an argument: \<open>clock n\<close> is what the clock shows when \<open>n\<close> bytes of the attributes are still to be read.
  \<^verbatim>\<open>MUST(String::from_utf8(...))\<close> stops the process on invalid UTF-8.
\<close>

subsection \<open>Records\<close>

datatype same_site = SameSite_Default | SameSite_None | SameSite_Strict | SameSite_Lax

datatype cookie_source = NonHttp | Http

record cookie =
  cookie_name :: byte_string
  cookie_value :: byte_string
  cookie_same_site :: same_site
  creation_time :: unix_date_time
  last_access_time :: unix_date_time
  expiry_time :: unix_date_time
  cookie_domain :: byte_string
  cookie_path :: byte_string
  secure :: bool
  http_only :: bool
  host_only :: bool
  persistent :: bool

record parsed_cookie =
  parsed_name :: byte_string
  parsed_value :: byte_string
  same_site_attribute :: same_site
  expiry_time_from_expires_attribute :: "unix_date_time option"
  expiry_time_from_max_age_attribute :: "unix_date_time option"
  parsed_domain :: "byte_string option"
  parsed_path :: "byte_string option"
  secure_attribute_present :: bool
  http_only_attribute_present :: bool

definition maximum_cookie_age :: duration where
  "maximum_cookie_age = from_seconds (400 * 24 * 60 * 60)"

fun same_site_to_string :: "same_site \<Rightarrow> byte_string" where
  "same_site_to_string SameSite_Default = ''Default''"
| "same_site_to_string SameSite_None = ''None''"
| "same_site_to_string SameSite_Lax = ''Lax''"
| "same_site_to_string SameSite_Strict = ''Strict''"

definition same_site_from_string :: "byte_string \<Rightarrow> same_site" where
  "same_site_from_string same_site_mode =
     (if equals_ignoring_ascii_case same_site_mode ''None'' then SameSite_None
      else if equals_ignoring_ascii_case same_site_mode ''Strict'' then SameSite_Strict
      else if equals_ignoring_ascii_case same_site_mode ''Lax'' then SameSite_Lax
      else SameSite_Default)"

subsection \<open>Domains and paths\<close>

text \<open>\<^verbatim>\<open>IPv4Address::from_string\<close>: missing parts are zero, and a part that is no number counts as 256.\<close>

definition ipv4_part :: "externals \<Rightarrow> byte_string \<Rightarrow> nat" where
  "ipv4_part ext part = (case to_number_unsigned ext 32 part of Some n \<Rightarrow> n | None \<Rightarrow> 256)"

definition ipv4_from_octets :: "nat \<Rightarrow> nat \<Rightarrow> nat \<Rightarrow> nat \<Rightarrow> nat" where
  "ipv4_from_octets a b c d = push_bit 24 d OR push_bit 16 c OR push_bit 8 b OR a"

definition ipv4_from_string :: "externals \<Rightarrow> byte_string \<Rightarrow> nat option" where
  "ipv4_from_string ext string =
     (let checked = (\<lambda>a b c d.
            if a > 255 \<or> b > 255 \<or> c > 255 \<or> d > 255 then None else Some (ipv4_from_octets a b c d))
      in case split_view string CHR ''.'' False of
           [p] \<Rightarrow> checked 0 0 0 (ipv4_part ext p)
         | [p, q] \<Rightarrow> checked (ipv4_part ext p) 0 0 (ipv4_part ext q)
         | [p, q, r] \<Rightarrow> checked (ipv4_part ext p) (ipv4_part ext q) 0 (ipv4_part ext r)
         | [p, q, r, t] \<Rightarrow> checked (ipv4_part ext p) (ipv4_part ext q) (ipv4_part ext r) (ipv4_part ext t)
         | _ \<Rightarrow> None)"

definition canonicalize_domain :: "externals \<Rightarrow> url \<Rightarrow> byte_string option exec" where
  "canonicalize_domain ext u =
     (if url_host u = None then Done None
      else exec_bind (serialized_host u) (\<lambda>host.
             case utf8_to_lower ext host of Some s \<Rightarrow> Done (Some s) | None \<Rightarrow> Verify_failed))"

definition path_matches :: "byte_string \<Rightarrow> byte_string \<Rightarrow> bool exec" where
  "path_matches request_path path =
     (if request_path = path then Done True
      else if starts_with request_path path
      then (if ends_with_char path CHR ''/'' then Done True
            else exec_map (\<lambda>c. c = CHR ''/'') (string_at request_path (length path)))
      else Done False)"

definition domain_matches :: "externals \<Rightarrow> byte_string \<Rightarrow> byte_string \<Rightarrow> bool exec" where
  "domain_matches ext string domain_string =
     (if string = domain_string then Done True
      else if \<not> ends_with string domain_string then Done False
      else exec_bind (string_at string (length string - length domain_string - 1)) (\<lambda>c.
             if c \<noteq> CHR ''.'' then Done False
             else if ipv4_from_string ext string \<noteq> None then Done False
             else Done True))"

definition default_path :: "externals \<Rightarrow> url \<Rightarrow> byte_string exec" where
  "default_path ext u =
     exec_bind (serialize_path u) (\<lambda>serialized.
     exec_bind (percent_decode serialized) (\<lambda>uri_path.
       if uri_path = [] \<or> hd uri_path \<noteq> CHR ''/'' then Done ''/''
       else case find_last uri_path CHR ''/'' of
              None \<Rightarrow> Verify_failed
            | Some last_separator \<Rightarrow>
                if last_separator = 0 then Done ''/''
                else must_from_utf8 ext (take last_separator uri_path)))"

definition cookie_contains_invalid_control_character :: "byte_string \<Rightarrow> bool" where
  "cookie_contains_invalid_control_character cookie_string =
     list_ex (\<lambda>c. c \<le> 0x08 \<or> c \<ge> 0x0a \<and> c \<le> 0x1f \<or> c = 0x7f) (code_points cookie_string)"

subsection \<open>Dates\<close>

text \<open>
  The local variables of \<^verbatim>\<open>parse_date_time\<close>, which its local functions assign.  A local function that
  fails may have assigned some of them already.
\<close>

record date_fields =
  df_hour :: nat
  df_minute :: nat
  df_second :: nat
  df_day_of_month :: nat
  df_month :: nat
  df_year :: nat
  found_time :: bool
  found_day_of_month :: bool
  found_month :: bool
  found_year :: bool

definition no_date :: date_fields where
  "no_date = \<lparr> df_hour = 0, df_minute = 0, df_second = 0, df_day_of_month = 0, df_month = 0, df_year = 0,
     found_time = False, found_day_of_month = False, found_month = False, found_year = False \<rparr>"

definition to_uint :: "externals \<Rightarrow> byte_string \<Rightarrow> nat option" where
  "to_uint ext token =
     (if \<not> list_all (\<lambda>c. is_ascii_digit (cp c)) token then None else to_number_unsigned ext 32 token)"

definition parse_time :: "externals \<Rightarrow> byte_string \<Rightarrow> date_fields \<Rightarrow> bool \<times> date_fields" where
  "parse_time ext token f =
     (let parts = split_view token CHR '':'' False
      in if length parts \<noteq> 3 then (False, f)
         else if \<not> list_all (\<lambda>part. \<not> (part = [] \<or> length part > 2)) parts then (False, f)
         else case to_uint ext (parts ! 0) of
                None \<Rightarrow> (False, f)
              | Some hour \<Rightarrow>
                  let f = f\<lparr> df_hour := hour \<rparr>
                  in case to_uint ext (parts ! 1) of
                       None \<Rightarrow> (False, f)
                     | Some minute \<Rightarrow>
                         let f = f\<lparr> df_minute := minute \<rparr>
                         in case to_uint ext (parts ! 2) of
                              None \<Rightarrow> (False, f)
                            | Some second \<Rightarrow> (True, f\<lparr> df_second := second \<rparr>))"

definition parse_day_of_month :: "externals \<Rightarrow> byte_string \<Rightarrow> date_fields \<Rightarrow> bool \<times> date_fields" where
  "parse_day_of_month ext token f =
     (if token = [] \<or> length token > 2 then (False, f)
      else case to_uint ext token of None \<Rightarrow> (False, f) | Some n \<Rightarrow> (True, f\<lparr> df_day_of_month := n \<rparr>))"

definition short_month_names :: "byte_string list" where
  "short_month_names = [''Jan'', ''Feb'', ''Mar'', ''Apr'', ''May'', ''Jun'',
     ''Jul'', ''Aug'', ''Sep'', ''Oct'', ''Nov'', ''Dec'']"

fun month_index :: "nat \<Rightarrow> byte_string list \<Rightarrow> byte_string \<Rightarrow> nat option" where
  "month_index i [] token = None"
| "month_index i (name # names) token =
     (if equals_ignoring_ascii_case token name then Some (i + 1) else month_index (i + 1) names token)"

definition parse_month :: "byte_string \<Rightarrow> date_fields \<Rightarrow> bool \<times> date_fields" where
  "parse_month token f =
     (case month_index 0 short_month_names token of
        None \<Rightarrow> (False, f) | Some month \<Rightarrow> (True, f\<lparr> df_month := month \<rparr>))"

definition parse_year :: "externals \<Rightarrow> byte_string \<Rightarrow> date_fields \<Rightarrow> bool \<times> date_fields" where
  "parse_year ext token f =
     (if length token \<noteq> 2 \<and> length token \<noteq> 4 then (False, f)
      else case to_uint ext token of None \<Rightarrow> (False, f) | Some n \<Rightarrow> (True, f\<lparr> df_year := n \<rparr>))"

definition is_delimiter :: "char \<Rightarrow> bool" where
  "is_delimiter c \<longleftrightarrow> cp c = 0x09 \<or> cp c \<ge> 0x20 \<and> cp c \<le> 0x2f \<or> cp c \<ge> 0x3b \<and> cp c \<le> 0x40
     \<or> cp c \<ge> 0x5b \<and> cp c \<le> 0x60 \<or> cp c \<ge> 0x7b \<and> cp c \<le> 0x7e"

definition process_date_token :: "externals \<Rightarrow> date_fields \<Rightarrow> byte_string \<Rightarrow> date_fields" where
  "process_date_token ext f date_token =
     (let (is_time, f) = (if \<not> found_time f then parse_time ext date_token f else (False, f))
      in if is_time then f\<lparr> found_time := True \<rparr>
      else let (is_day, f) = (if \<not> found_day_of_month f then parse_day_of_month ext date_token f else (False, f))
      in if is_day then f\<lparr> found_day_of_month := True \<rparr>
      else let (is_month, f) = (if \<not> found_month f then parse_month date_token f else (False, f))
      in if is_month then f\<lparr> found_month := True \<rparr>
      else let (is_year, f) = (if \<not> found_year f then parse_year ext date_token f else (False, f))
      in if is_year then f\<lparr> found_year := True \<rparr> else f)"

definition full_year :: "nat \<Rightarrow> nat" where
  "full_year year =
     (let year = (if year \<ge> 70 \<and> year \<le> 99 then year + 1900 else year)
      in if year \<le> 69 then year + 2000 else year)"

definition parse_date_time :: "externals \<Rightarrow> byte_string \<Rightarrow> unix_date_time option exec" where
  "parse_date_time ext date_string =
     (let f = foldl (process_date_token ext) no_date (split_view_if date_string is_delimiter False);
          year = full_year (df_year f)
      in if \<not> found_day_of_month f \<or> \<not> found_month f \<or> \<not> found_year f \<or> \<not> found_time f then Done None
         else if df_day_of_month f < 1 \<or> df_day_of_month f > 31 then Done None
         else if year < 1601 then Done None
         else if df_hour f > 23 then Done None
         else if df_minute f > 59 then Done None
         else if df_second f > 59 then Done None
         else exec_bind (days_in_month (int year) (df_month f)) (\<lambda>days.
                if df_day_of_month f > to_u32 days then Done None
                else exec_map Some (from_unix_time_parts (int year) (to_u8 (df_month f)) (to_u8 (df_day_of_month f))
                       (to_u8 (df_hour f)) (to_u8 (df_minute f)) (to_u8 (df_second f)) 0)))"

subsection \<open>Attributes\<close>

definition on_expires_attribute ::
    "externals \<Rightarrow> unix_date_time \<Rightarrow> byte_string \<Rightarrow> parsed_cookie \<Rightarrow> parsed_cookie exec" where
  "on_expires_attribute ext now attribute_value pc =
     exec_bind (parse_date_time ext attribute_value) (\<lambda>parsed. case parsed of
         None \<Rightarrow> Done pc
       | Some expiry \<Rightarrow>
           exec_bind (duration_plus now maximum_cookie_age) (\<lambda>cookie_age_limit.
           exec_bind (to_seconds expiry) (\<lambda>expiry_seconds.
           exec_bind (to_seconds cookie_age_limit) (\<lambda>limit_seconds.
             let expiry = (if expiry_seconds > limit_seconds then cookie_age_limit else expiry);
                 expiry = (if expiry < duration_min then duration_min else expiry)
             in Done (pc\<lparr> expiry_time_from_expires_attribute := Some expiry \<rparr>)))))"

definition on_max_age_attribute ::
    "externals \<Rightarrow> unix_date_time \<Rightarrow> byte_string \<Rightarrow> parsed_cookie \<Rightarrow> parsed_cookie exec" where
  "on_max_age_attribute ext now attribute_value pc =
     (if attribute_value = [] then Done pc
      else let digits = (if hd attribute_value = CHR ''-'' then tl attribute_value else attribute_value)
      in if digits = [] \<or> \<not> list_all (\<lambda>c. is_ascii_digit (cp c)) digits then Done pc
      else let delta_seconds = (case to_number_signed ext 64 attribute_value of
                 Some n \<Rightarrow> n
               | None \<Rightarrow> if hd attribute_value = CHR ''-'' then i64_min else i64_max)
      in exec_bind (to_seconds maximum_cookie_age) (\<lambda>limit.
           let delta_seconds = (if delta_seconds > limit then limit else delta_seconds)
           in exec_map (\<lambda>expiry. pc\<lparr> expiry_time_from_max_age_attribute := Some expiry \<rparr>)
                (if delta_seconds \<le> 0 then Done duration_min
                 else duration_plus now (from_seconds delta_seconds))))"

definition on_domain_attribute :: "externals \<Rightarrow> byte_string \<Rightarrow> parsed_cookie \<Rightarrow> parsed_cookie exec" where
  "on_domain_attribute ext attribute_value pc =
     (let domain = (if starts_with_char attribute_value CHR ''.'' then drop 1 attribute_value else attribute_value)
      in if \<not> validate_utf8 ext domain then Verify_failed
         else Done (pc\<lparr> parsed_domain := Some (to_ascii_lowercase_string domain) \<rparr>))"

definition on_path_attribute :: "externals \<Rightarrow> url \<Rightarrow> byte_string \<Rightarrow> parsed_cookie \<Rightarrow> parsed_cookie exec" where
  "on_path_attribute ext u attribute_value pc =
     exec_map (\<lambda>path. pc\<lparr> parsed_path := Some path \<rparr>)
       (if attribute_value = [] \<or> hd attribute_value \<noteq> CHR ''/'' then default_path ext u
        else must_from_utf8 ext attribute_value)"

definition on_secure_attribute :: "parsed_cookie \<Rightarrow> parsed_cookie" where
  "on_secure_attribute pc = pc\<lparr> secure_attribute_present := True \<rparr>"

definition on_http_only_attribute :: "parsed_cookie \<Rightarrow> parsed_cookie" where
  "on_http_only_attribute pc = pc\<lparr> http_only_attribute_present := True \<rparr>"

definition on_same_site_attribute :: "byte_string \<Rightarrow> parsed_cookie \<Rightarrow> parsed_cookie" where
  "on_same_site_attribute attribute_value pc = pc\<lparr> same_site_attribute := same_site_from_string attribute_value \<rparr>"

definition process_attribute ::
    "externals \<Rightarrow> unix_date_time \<Rightarrow> url \<Rightarrow> byte_string \<Rightarrow> byte_string \<Rightarrow> parsed_cookie \<Rightarrow> parsed_cookie exec" where
  "process_attribute ext now u attribute_name attribute_value pc =
     (if equals_ignoring_ascii_case attribute_name ''Expires'' then on_expires_attribute ext now attribute_value pc
      else if equals_ignoring_ascii_case attribute_name ''Max-Age'' then on_max_age_attribute ext now attribute_value pc
      else if equals_ignoring_ascii_case attribute_name ''Domain'' then on_domain_attribute ext attribute_value pc
      else if equals_ignoring_ascii_case attribute_name ''Path'' then on_path_attribute ext u attribute_value pc
      else if equals_ignoring_ascii_case attribute_name ''Secure'' then Done (on_secure_attribute pc)
      else if equals_ignoring_ascii_case attribute_name ''HttpOnly'' then Done (on_http_only_attribute pc)
      else if equals_ignoring_ascii_case attribute_name ''SameSite'' then Done (on_same_site_attribute attribute_value pc)
      else Done pc)"

text \<open>The string up to the first \<open>sep\<close>, and from it on (nothing if there is no \<open>sep\<close>).\<close>

definition split_before :: "char \<Rightarrow> byte_string \<Rightarrow> byte_string \<times> byte_string" where
  "split_before sep s = (case find_char s sep of Some position \<Rightarrow> (take position s, drop position s) | None \<Rightarrow> (s, []))"

text \<open>
  The string before the first equals sign and the one after it; nothing if there is none.  Both the
  name-value pair and every attribute are split this way.
\<close>

definition split_at_equals :: "byte_string \<Rightarrow> (byte_string \<times> byte_string) option" where
  "split_at_equals s =
     (case find_char s CHR ''='' of
        None \<Rightarrow> None
      | Some position \<Rightarrow> Some (take position s, if position < length s - 1 then drop (position + 1) s else []))"

definition attribute_parts :: "byte_string \<Rightarrow> byte_string \<times> byte_string" where
  "attribute_parts cookie_av =
     (let (name, val) = (case split_at_equals cookie_av of Some p \<Rightarrow> p | None \<Rightarrow> (cookie_av, []))
      in (trim_whitespace name, trim_whitespace val))"

lemma split_before_decreases:
  "\<lbrakk> (a, rest) = split_before sep (tl s); s \<noteq> [] \<rbrakk> \<Longrightarrow> length rest < length s"
  by (cases s) (auto simp: split_before_def less_Suc_eq_le split: option.splits)

function parse_attributes ::
    "externals \<Rightarrow> (nat \<Rightarrow> unix_date_time) \<Rightarrow> url \<Rightarrow> byte_string \<Rightarrow> parsed_cookie \<Rightarrow> parsed_cookie exec" where
  "parse_attributes ext clock u unparsed_attributes pc =
     (if unparsed_attributes = [] then Done pc
      else let (cookie_av, rest) = split_before CHR '';'' (tl unparsed_attributes);
               (attribute_name, attribute_value) = attribute_parts cookie_av
           in if length attribute_value > 1024 then parse_attributes ext clock u rest pc
              else exec_bind (process_attribute ext (clock (length rest)) u attribute_name attribute_value pc)
                     (\<lambda>pc. parse_attributes ext clock u rest pc))"
  by auto
termination
  by (relation "measure (\<lambda>(ext, clock, u, s, pc). length s)") (auto dest: split_before_decreases)

declare parse_attributes.simps [simp del]

definition parse_cookie ::
    "externals \<Rightarrow> (nat \<Rightarrow> unix_date_time) \<Rightarrow> url \<Rightarrow> byte_string \<Rightarrow> parsed_cookie option exec" where
  "parse_cookie ext clock u cookie_string =
     (if cookie_contains_invalid_control_character cookie_string then Done None
      else let (name_value_pair, unparsed_attributes) = split_before CHR '';'' cookie_string;
               (name, val) = (case split_at_equals name_value_pair of Some p \<Rightarrow> p | None \<Rightarrow> ([], name_value_pair));
               name = trim_whitespace name;
               val = trim_whitespace val
           in if length name + length val > 4096 then Done None
              else exec_bind (must_from_utf8 ext name) (\<lambda>name.
                   exec_bind (must_from_utf8 ext val) (\<lambda>val.
                     exec_map Some (parse_attributes ext clock u unparsed_attributes
                       \<lparr> parsed_name = name, parsed_value = val, same_site_attribute = SameSite_Default,
                         expiry_time_from_expires_attribute = None, expiry_time_from_max_age_attribute = None,
                         parsed_domain = None, parsed_path = None, secure_attribute_present = False,
                         http_only_attribute_present = False \<rparr>))))"

subsection \<open>Valid UTF-8\<close>

definition valid_utf8 :: "byte_string \<Rightarrow> bool" where
  "valid_utf8 s \<longleftrightarrow> (\<exists>cs. list_all is_unicode_scalar_value cs \<and> s = utf8_encode cs)"

lemma validate_utf8_iff: "simdutf_ok ext \<Longrightarrow> validate_utf8 ext s = valid_utf8 s"
  by (simp add: simdutf_ok_def valid_utf8_def)

lemma valid_utf8_Nil [simp]: "valid_utf8 []"
  unfolding valid_utf8_def by (intro exI [of _ "[]"]) simp

lemma valid_utf8_code_point:
  "\<lbrakk> is_unicode_scalar_value d; valid_utf8 s \<rbrakk> \<Longrightarrow> valid_utf8 (code_point_to_utf8 d @ s)"
  unfolding valid_utf8_def by (metis list.pred_inject(2) utf8_encode_simps(2))

lemma encode_split_at_ascii:
  "\<lbrakk> list_all is_unicode_scalar_value cs; utf8_encode cs = a @ c # b; is_ascii (cp c) \<rbrakk> \<Longrightarrow> valid_utf8 a \<and> valid_utf8 b"
proof (induction cs arbitrary: a)
  case (Cons d ds)
  have d: "is_unicode d" "is_unicode_scalar_value d" using Cons.prems(1) by (simp_all add: char_class)
  show ?case
  proof (cases "is_ascii d")
    case True
    then have e: "char_of d # utf8_encode ds = a @ c # b"
      using Cons.prems(2) by (simp add: code_point_to_utf8_ascii)
    show ?thesis
    proof (cases a)
      case Nil
      with e Cons.prems(1) show ?thesis by (auto simp: valid_utf8_def [of b])
    next
      case (Cons x a')
      with e have "utf8_encode ds = a' @ c # b" "x = char_of d" by simp_all
      with Cons.IH Cons.prems have "valid_utf8 a'" "valid_utf8 b" by simp_all
      then show ?thesis
        using Cons True d \<open>x = char_of d\<close> valid_utf8_code_point [OF d(2), of a']
        by (simp add: code_point_to_utf8_ascii)
    qed
  next
    case False
    have no: "c \<notin> set (code_point_to_utf8 d)"
      using code_point_to_utf8_non_ascii [OF False d(1), of c] Cons.prems(3) by (auto simp: char_class)
    from Cons.prems(2) have e: "code_point_to_utf8 d @ utf8_encode ds = a @ c # b" by simp
    then obtain a' where a: "a = code_point_to_utf8 d @ a'" "utf8_encode ds = a' @ c # b"
      using no by (auto simp: append_eq_append_conv2 append_eq_Cons_conv)
    with Cons.IH Cons.prems have "valid_utf8 a'" "valid_utf8 b" by simp_all
    then show ?thesis
      using d a(1) by (simp add: valid_utf8_code_point)
  qed
qed simp

lemma valid_utf8_split:
  "\<lbrakk> valid_utf8 (a @ c # b); is_ascii (cp c) \<rbrakk> \<Longrightarrow> valid_utf8 a \<and> valid_utf8 b"
  unfolding valid_utf8_def [of "a @ c # b"] using encode_split_at_ascii by metis

lemma valid_utf8_Cons: "\<lbrakk> valid_utf8 (c # s); is_ascii (cp c) \<rbrakk> \<Longrightarrow> valid_utf8 s"
  using valid_utf8_split [of "[]" c s] by simp

lemma valid_utf8_snoc: "\<lbrakk> valid_utf8 (s @ [c]); is_ascii (cp c) \<rbrakk> \<Longrightarrow> valid_utf8 s"
  using valid_utf8_split [of s c "[]"] by simp

lemma valid_utf8_dropWhile:
  "\<lbrakk> valid_utf8 s; \<And>c. P c \<Longrightarrow> is_ascii (cp c) \<rbrakk> \<Longrightarrow> valid_utf8 (dropWhile P s)"
  by (induction s) (auto dest: valid_utf8_Cons)

lemma valid_utf8_dropWhile_rev:
  "\<lbrakk> valid_utf8 s; \<And>c. P c \<Longrightarrow> is_ascii (cp c) \<rbrakk> \<Longrightarrow> valid_utf8 (rev (dropWhile P (rev s)))"
  by (induction s rule: rev_induct) (auto dest: valid_utf8_snoc)

lemma whitespace_ascii:
  "contains_char (map char_of [0x20, 0x0A, 0x09, 0x0B, 0x0C, 0x0D :: nat]) c \<Longrightarrow> is_ascii (cp c)"
  by (auto simp: contains_char_def list_ex_iff is_ascii_def)

lemma valid_utf8_trim_whitespace: "valid_utf8 s \<Longrightarrow> valid_utf8 (trim_whitespace s)"
  unfolding trim_whitespace_def trim_both_def trim_left_def trim_right_def
  by (intro valid_utf8_dropWhile valid_utf8_dropWhile_rev whitespace_ascii)

subsection \<open>Splitting\<close>

lemma find_from_Some:
  "find_from i needle s = Some j \<Longrightarrow> i \<le> j \<and> j - i < length s \<and> s ! (j - i) = needle \<and> needle \<notin> set (take (j - i) s)"
  by (induction s arbitrary: i) (force simp: nth_Cons' take_Cons' split: if_splits)+

lemma find_from_None: "find_from i needle s = None \<longleftrightarrow> needle \<notin> set s"
  by (induction s arbitrary: i) auto

lemma find_char_None: "find_char s needle = None \<longleftrightarrow> needle \<notin> set s"
  by (simp add: find_char_def find_from_None)

lemma find_char_Some:
  assumes "find_char s needle = Some i"
  shows "s = take i s @ needle # drop (Suc i) s" "needle \<notin> set (take i s)" "i < length s"
  using find_from_Some [of 0 needle s i] assms id_take_nth_drop [of i s] by (auto simp: find_char_def)

lemma find_char_append:
  "needle \<notin> set a \<Longrightarrow> find_char (a @ needle # b) needle = Some (length a)"
proof -
  have "needle \<notin> set a \<Longrightarrow> find_from i needle (a @ needle # b) = Some (i + length a)" for i
    by (induction a arbitrary: i) auto
  then show "needle \<notin> set a \<Longrightarrow> ?thesis" by (simp add: find_char_def)
qed

lemma split_before_cases:
  obtains (found) a b where "s = a @ sep # b" "sep \<notin> set a" "split_before sep s = (a, sep # b)"
    | (none) "sep \<notin> set s" "split_before sep s = (s, [])"
proof (cases "find_char s sep")
  case None
  then show thesis by (intro none) (simp_all add: split_before_def flip: find_char_None)
next
  case (Some i)
  have "s = take i s @ sep # drop (Suc i) s" by (rule find_char_Some(1) [OF Some])
  then have "drop i s = sep # drop (Suc i) s" by (metis append_eq_conv_conj find_char_Some(3) [OF Some] length_take less_imp_le min.absorb2)
  with find_char_Some [OF Some] Some show thesis by (intro found [of "take i s" "drop (Suc i) s"]) (simp_all add: split_before_def)
qed

lemma split_at_equals_cases:
  obtains (found) a b where "s = a @ CHR ''='' # b" "CHR ''='' \<notin> set a" "split_at_equals s = Some (a, b)"
    | (none) "CHR ''='' \<notin> set s" "split_at_equals s = None"
proof (cases "find_char s CHR ''=''")
  case None
  then show thesis by (intro none) (simp_all add: split_at_equals_def flip: find_char_None)
next
  case (Some i)
  have "split_at_equals s = Some (take i s, drop (Suc i) s)"
    using Some find_char_Some(3) [OF Some] by (auto simp: split_at_equals_def)
  with find_char_Some [OF Some] show thesis by (intro found [of "take i s" "drop (Suc i) s"])
qed

subsection \<open>Matching\<close>

lemma starts_with_iff: "starts_with s p \<longleftrightarrow> (\<exists>t. s = p @ t)"
  by (auto simp: starts_with_def) (metis append_take_drop_id)

lemma ends_with_iff: "ends_with s d \<longleftrightarrow> (\<exists>p. s = p @ d)"
  by (auto simp: ends_with_def) (metis append_take_drop_id)

definition path_match :: "byte_string \<Rightarrow> byte_string \<Rightarrow> bool" where
  "path_match request path \<longleftrightarrow>
     (\<exists>t. request = path @ t \<and> (t = [] \<or> path \<noteq> [] \<and> last path = CHR ''/'' \<or> hd t = CHR ''/''))"

definition domain_match :: "externals \<Rightarrow> byte_string \<Rightarrow> byte_string \<Rightarrow> bool" where
  "domain_match ext host domain \<longleftrightarrow>
     host = domain \<or> (\<exists>p. host = p @ CHR ''.'' # domain) \<and> ipv4_from_string ext host = None"

lemma path_matches_eq [simp]: "path_matches request path = Done (path_match request path)"
proof (cases "starts_with request path")
  case True
  then obtain t where t: "request = path @ t" by (auto simp: starts_with_iff)
  then show ?thesis
    using True by (cases t) (auto simp: path_matches_def path_match_def string_at_def ends_with_char_def)
next
  case False
  then show ?thesis by (auto simp: path_matches_def path_match_def starts_with_iff)
qed

lemma domain_matches_eq [simp]: "domain_matches ext host domain = Done (domain_match ext host domain)"
proof (cases "ends_with host domain")
  case True
  then obtain p where p: "host = p @ domain" by (auto simp: ends_with_iff)
  show ?thesis
  proof (cases p rule: rev_cases)
    case (snoc q c)
    with p True show ?thesis
      by (auto simp: domain_matches_def domain_match_def string_at_def nth_append)
  qed (use p in \<open>simp add: domain_matches_def domain_match_def\<close>)
next
  case False
  moreover from False have "\<nexists>p. host = p @ CHR ''.'' # domain"
    by (auto simp: ends_with_iff)
  ultimately show ?thesis by (auto simp: domain_matches_def domain_match_def ends_with_iff)
qed

text \<open>The default path: the directory of the decoded path.\<close>

lemma find_last_upto_found:
  "find_last_upto s c n = Some i \<Longrightarrow> i < n \<and> s ! i = c \<and> (\<forall>j. i < j \<and> j < n \<longrightarrow> s ! j \<noteq> c)"
  by (induction n) (auto split: if_splits simp: less_Suc_eq)

lemma find_last_upto_None: "find_last_upto s c n = None \<longleftrightarrow> (\<forall>j<n. s ! j \<noteq> c)"
  by (induction n) (auto simp: less_Suc_eq)

lemma find_last_some: "c \<in> set s \<Longrightarrow> \<exists>i<length s. find_last s c = Some i"
  using find_last_upto_found [of s c "length s"] find_last_upto_None [of s c "length s"]
  by (cases "find_last s c") (auto simp: find_last_def in_set_conv_nth)

subsection \<open>Dates\<close>

lemma radix_value_less:
  "list_all (\<lambda>c. digit_value c < base) s \<Longrightarrow> radix_value base s < base ^ length s"
proof (induction s rule: rev_induct)
  case (snoc c s)
  then have "radix_value base s + 1 \<le> base ^ length s" "digit_value c < base" by simp_all
  then have "(radix_value base s + 1) * base \<le> base ^ length s * base" by (simp only: mult_le_mono1)
  then show ?case using \<open>digit_value c < base\<close> by (simp add: mult.commute)
qed simp

lemma digit_value_digit: "is_ascii_digit (cp c) \<Longrightarrow> digit_value c < 10"
  by (auto simp: digit_value_def char_class)

lemma trim_no_whitespace:
  assumes "\<And>c. c \<in> set s \<Longrightarrow> \<not> contains_char ws c"
  shows "trim_both s ws = s"
proof -
  have "dropWhile (contains_char ws) s = s" using assms by (cases s) auto
  moreover have "dropWhile (contains_char ws) (rev s) = rev s" using assms by (cases s rule: rev_cases) auto
  ultimately show ?thesis by (simp add: trim_both_def trim_left_def trim_right_def)
qed

lemma digit_not_whitespace:
  "is_ascii_digit (cp c) \<Longrightarrow> \<not> contains_char (map char_of [0x20, 0x0A, 0x09, 0x0B, 0x0C, 0x0D :: nat]) c"
  by (auto simp: contains_char_def list_ex_iff char_class)

lemma trim_whitespace_digits: "list_all (\<lambda>c. is_ascii_digit (cp c)) s \<Longrightarrow> trim_whitespace s = s"
  unfolding trim_whitespace_def by (rule trim_no_whitespace, rule digit_not_whitespace) (auto simp: list_all_iff)

lemma to_uint_digits:
  assumes "fast_float_ok ext" "list_all (\<lambda>c. is_ascii_digit (cp c)) s" "s \<noteq> []" "length s \<le> 9"
  shows "to_uint ext s = Some (radix_value 10 s)" "radix_value 10 s < 10 ^ length s"
proof -
  have d: "list_all (\<lambda>c. digit_value c < 10) s" using assms(2) by (auto simp: list_all_iff digit_value_digit)
  then show "radix_value 10 s < 10 ^ length s" by (rule radix_value_less)
  also have "\<dots> \<le> (10::nat) ^ 9" using assms(4) by (intro power_increasing) simp_all
  finally show "to_uint ext s = Some (radix_value 10 s)"
    using assms d by (simp add: to_uint_def to_number_unsigned_def trim_whitespace_digits parse_number_digits)
qed

lemma to_uint_bound:
  assumes "fast_float_ok ext" "to_uint ext s = Some n" "s \<noteq> []" "length s \<le> k" "k \<le> 9"
  shows "n < 10 ^ k"
proof -
  have "list_all (\<lambda>c. is_ascii_digit (cp c)) s" using assms(2) by (auto simp: to_uint_def split: if_splits)
  from to_uint_digits [OF assms(1) this assms(3)] assms(2,4,5) have "n < 10 ^ length s" by simp
  also have "\<dots> \<le> (10::nat) ^ k" using assms(4) by (intro power_increasing) simp_all
  finally show ?thesis .
qed

definition date_fields_ok :: "date_fields \<Rightarrow> bool" where
  "date_fields_ok f \<longleftrightarrow> df_hour f < 100 \<and> df_minute f < 100 \<and> df_second f < 100 \<and> df_day_of_month f < 100
     \<and> df_year f < 10000 \<and> (found_month f \<longrightarrow> 1 \<le> df_month f \<and> df_month f \<le> 12)"

lemma month_index_bounds: "month_index i names token = Some m \<Longrightarrow> i < m \<and> m \<le> i + length names"
  by (induction i names token rule: month_index.induct) (auto split: if_splits)

lemma parse_month_ok:
  "date_fields_ok f \<Longrightarrow> parse_month token f = (b, g) \<Longrightarrow> \<not> found_month f \<Longrightarrow>
   date_fields_ok g \<and> (b \<longrightarrow> 1 \<le> df_month g \<and> df_month g \<le> 12) \<and> \<not> found_month g"
  using month_index_bounds [of 0 short_month_names token]
  by (auto simp: parse_month_def date_fields_ok_def short_month_names_def split: option.splits)

lemma split_view_parts_nonempty: "p \<in> set (split_view s sep False) \<Longrightarrow> p \<noteq> []"
  by (auto simp: split_view_def split: if_splits)

lemma parse_time_ok:
  assumes "fast_float_ok ext" "date_fields_ok f" "parse_time ext token f = (b, g)"
  shows "date_fields_ok g \<and> found_month g = found_month f"
proof (cases "length (split_view token CHR '':'' False) = 3
    \<and> list_all (\<lambda>part. \<not> (part = [] \<or> length part > 2)) (split_view token CHR '':'' False)")
  case True
  then obtain p q r where pqr: "split_view token CHR '':'' False = [p, q, r]"
    by (auto simp: numeral_3_eq_3 length_Suc_conv)
  with True have len: "p \<noteq> []" "length p \<le> 2" "q \<noteq> []" "length q \<le> 2" "r \<noteq> []" "length r \<le> 2" by auto
  have two: "n < 100" if "to_uint ext s = Some n" "s \<noteq> []" "length s \<le> 2" for s n
    using to_uint_bound [OF assms(1) that(1,2,3)] by simp
  show ?thesis
    using assms(2,3) len two pqr
    by (auto simp: parse_time_def date_fields_ok_def Let_def split: option.splits)
next
  case False
  then show ?thesis using assms(2,3) by (auto simp: parse_time_def Let_def split: if_splits)
qed

lemma parse_day_of_month_ok:
  "\<lbrakk> fast_float_ok ext; date_fields_ok f; parse_day_of_month ext token f = (b, g) \<rbrakk>
   \<Longrightarrow> date_fields_ok g \<and> found_month g = found_month f"
  using to_uint_bound [of ext token _ 2]
  by (auto simp: parse_day_of_month_def date_fields_ok_def split: if_splits option.splits)

lemma parse_year_ok:
  "\<lbrakk> fast_float_ok ext; date_fields_ok f; parse_year ext token f = (b, g) \<rbrakk>
   \<Longrightarrow> date_fields_ok g \<and> found_month g = found_month f"
  using to_uint_bound [of ext token _ 4]
  by (cases token) (auto simp: parse_year_def date_fields_ok_def split: if_splits option.splits)

lemma process_date_token_ok:
  assumes "fast_float_ok ext" "date_fields_ok f"
  shows "date_fields_ok (process_date_token ext f token)"
proof -
  define t where "t = (if \<not> found_time f then parse_time ext token f else (False, f))"
  define d where "d = (if \<not> found_day_of_month (snd t) then parse_day_of_month ext token (snd t) else (False, snd t))"
  define m where "m = (if \<not> found_month (snd d) then parse_month token (snd d) else (False, snd d))"
  define y where "y = (if \<not> found_year (snd m) then parse_year ext token (snd m) else (False, snd m))"
  have t: "date_fields_ok (snd t)"
    using parse_time_ok [OF assms, of token] assms(2) by (cases "parse_time ext token f") (auto simp: t_def)
  then have d: "date_fields_ok (snd d)"
    using parse_day_of_month_ok [OF assms(1), of "snd t" token]
    by (cases "parse_day_of_month ext token (snd t)") (auto simp: d_def)
  then have m: "date_fields_ok (snd m)" "fst m \<Longrightarrow> 1 \<le> df_month (snd m) \<and> df_month (snd m) \<le> 12"
    using parse_month_ok [of "snd d" token]
    by (cases "parse_month token (snd d)"; auto simp: m_def)+
  then have y: "date_fields_ok (snd y)"
    using parse_year_ok [OF assms(1), of "snd m" token]
    by (cases "parse_year ext token (snd m)") (auto simp: y_def)
  have "process_date_token ext f token =
    (if fst t then (snd t)\<lparr> found_time := True \<rparr> else if fst d then (snd d)\<lparr> found_day_of_month := True \<rparr>
     else if fst m then (snd m)\<lparr> found_month := True \<rparr> else if fst y then (snd y)\<lparr> found_year := True \<rparr> else snd y)"
    unfolding process_date_token_def t_def [symmetric] d_def [symmetric] m_def [symmetric] y_def [symmetric]
      Let_def case_prod_beta ..
  with t d m y show ?thesis by (auto simp: date_fields_ok_def)
qed

lemma date_fields_ok_fold:
  "\<lbrakk> fast_float_ok ext; date_fields_ok f \<rbrakk> \<Longrightarrow> date_fields_ok (foldl (process_date_token ext) f tokens)"
  by (induction tokens arbitrary: f) (simp_all add: process_date_token_ok)

text \<open>The civil time a date stands for, in seconds since the epoch.\<close>

definition civil_seconds :: "int \<times> nat \<times> int \<Rightarrow> nat \<Rightarrow> nat \<Rightarrow> nat \<Rightarrow> int" where
  "civil_seconds date hour minute second = epoch_day date * 86400 + int hour * 3600 + int minute * 60 + int second"

lemma civil_date_time:
  assumes "valid_date (int y, m, int d)" "y < 10 ^ 8" "h < 24" "mi < 60" "sec < 60"
  shows "from_unix_time_parts (int y) (to_u8 m) (to_u8 d) (to_u8 h) (to_u8 mi) (to_u8 sec) 0
    = Done (Duration (civil_seconds (int y, m, int d) h mi sec) 0)"
proof -
  have md: "1 \<le> m" "m \<le> 12" "1 \<le> d" "int d \<le> month_length (int y) m"
    using assms(1) by (simp_all add: valid_date_def)
  have "month_length (int y) m \<le> 31"
    by (simp add: month_length_def days_in_month_def)
  with md have d: "d \<le> 31" by linarith
  then have "from_unix_time_parts (int y) (to_u8 m) (to_u8 d) (to_u8 h) (to_u8 mi) (to_u8 sec) 0
      = from_unix_time_parts (int y) m d h mi sec 0"
    using md assms by (simp add: to_u8_def)
  also have "\<dots> = Done (Duration (civil_seconds (int y, m, int d) h mi sec) 0)"
    using days_since_epoch_bound [of m "int y" "int d"] md d assms
    by (subst from_unix_time_parts_eq) (simp_all add: civil_seconds_def epoch_day_def)
  finally show ?thesis .
qed

lemma full_year_bound: "y < 10000 \<Longrightarrow> full_year y < 10000"
  by (simp add: full_year_def Let_def)

lemma days_in_month_length:
  "\<lbrakk> 1 \<le> m; m \<le> 12 \<rbrakk> \<Longrightarrow> days_in_month y m = Done (month_length y m) \<and> to_u32 (month_length y m) = nat (month_length y m)"
  by (auto simp: month_length_def days_in_month_def to_u32_def)

lemma parse_date_time_cases:
  assumes "fast_float_ok ext"
  shows "parse_date_time ext s = Done None \<or> (\<exists>y m d h mi sec. 1601 \<le> y \<and> y < 10000 \<and> valid_date (int y, m, int d)
      \<and> h < 24 \<and> mi < 60 \<and> sec < 60
      \<and> parse_date_time ext s = Done (Some (Duration (civil_seconds (int y, m, int d) h mi sec) 0)))"
proof -
  define f where "f = foldl (process_date_token ext) no_date (split_view_if s is_delimiter False)"
  define y where "y = full_year (df_year f)"
  have ok: "date_fields_ok f"
    unfolding f_def using assms by (rule date_fields_ok_fold) (simp add: date_fields_ok_def no_date_def)
  have y: "y < 10000" using ok by (simp add: y_def date_fields_ok_def full_year_bound)
  show ?thesis
  proof (cases "found_day_of_month f \<and> found_month f \<and> found_year f \<and> found_time f
      \<and> 1 \<le> df_day_of_month f \<and> df_day_of_month f \<le> 31 \<and> 1601 \<le> y \<and> df_hour f \<le> 23 \<and> df_minute f \<le> 59
      \<and> df_second f \<le> 59 \<and> int (df_day_of_month f) \<le> month_length (int y) (df_month f)")
    case True
    then have m: "1 \<le> df_month f" "df_month f \<le> 12" using ok by (simp_all add: date_fields_ok_def)
    have v: "valid_date (int y, df_month f, int (df_day_of_month f))" using True m by (simp add: valid_date_def)
    have t: "from_unix_time_parts (int y) (to_u8 (df_month f)) (to_u8 (df_day_of_month f)) (to_u8 (df_hour f))
        (to_u8 (df_minute f)) (to_u8 (df_second f)) 0
      = Done (Duration (civil_seconds (int y, df_month f, int (df_day_of_month f)) (df_hour f) (df_minute f) (df_second f)) 0)"
      using True y by (intro civil_date_time [OF v]) simp_all
    have "df_day_of_month f \<le> nat (month_length (int y) (df_month f))" using True by linarith
    then have "parse_date_time ext s
      = Done (Some (Duration (civil_seconds (int y, df_month f, int (df_day_of_month f)) (df_hour f) (df_minute f) (df_second f)) 0))"
      unfolding parse_date_time_def f_def [symmetric] y_def [symmetric] Let_def
      using True days_in_month_length [OF m, of "int y"] by (simp add: t not_less)
    with True y v show ?thesis
      by (intro disjI2 exI [of _ y] exI [of _ "df_month f"] exI [of _ "df_day_of_month f"] exI [of _ "df_hour f"]
          exI [of _ "df_minute f"] exI [of _ "df_second f"]) simp
  next
    case False
    then have "parse_date_time ext s = Done None"
      unfolding parse_date_time_def f_def [symmetric] y_def [symmetric] Let_def
      using ok days_in_month_length [of "df_month f" "int y"]
      by (auto simp: date_fields_ok_def zless_nat_eq_int_zless)
    then show ?thesis ..
  qed
qed

text \<open>The date format of HTTP (IMF-fixdate), with the formatter's zero-padded numbers.\<close>

definition two_digits :: "nat \<Rightarrow> byte_string" where
  "two_digits n = put_u64_zero_padded n 10 False 2"

definition short_day_names :: "byte_string list" where
  "short_day_names = [''Sun'', ''Mon'', ''Tue'', ''Wed'', ''Thu'', ''Fri'', ''Sat'']"

definition imf_fixdate :: "nat \<Rightarrow> nat \<Rightarrow> nat \<Rightarrow> nat \<Rightarrow> nat \<Rightarrow> nat \<Rightarrow> nat \<Rightarrow> byte_string" where
  "imf_fixdate wd year month day hour minute second =
     short_day_names ! wd @ '', '' @ two_digits day @ '' '' @ short_month_names ! (month - 1) @ '' ''
     @ convert_unsigned_to_string year 10 False @ '' ''
     @ two_digits hour @ '':'' @ two_digits minute @ '':'' @ two_digits second @ '' GMT''"

lemma radix_value_zeros: "radix_value base (replicate k CHR ''0'' @ s) = radix_value base s"
  by (induction k) (simp_all add: radix_value_def digit_value_def char_class)

lemma digits_of_number:
  assumes "10 ^ (k - 1) \<le> n" "n < 10 ^ k" "0 < k"
  shows "length (convert_unsigned_to_string n 10 False) = k"
    "list_all (\<lambda>c. is_ascii_digit (cp c)) (convert_unsigned_to_string n 10 False)"
    "radix_value 10 (convert_unsigned_to_string n 10 False) = n"
proof -
  let ?s = "convert_unsigned_to_string n 10 False"
  show d: "list_all (\<lambda>c. is_ascii_digit (cp c)) ?s"
    using convert_unsigned_digit(3) [of 10 _ n False] by (simp add: list_all_iff)
  show v: "radix_value 10 ?s = n" by (simp add: convert_unsigned_value)
  have "radix_value 10 ?s < 10 ^ length ?s"
    using d by (intro radix_value_less) (auto simp: list_all_iff digit_value_digit)
  then have "(10::nat) ^ (k - 1) < 10 ^ length ?s" unfolding v by (rule le_less_trans [OF assms(1)])
  then have "k - 1 < length ?s" by (simp only: power_strict_increasing_iff)
  with length_convert_unsigned_le [of 10 n k False] assms show "length ?s = k" by simp
qed

lemma two_digits_props:
  assumes "n < 100"
  shows "length (two_digits n) = 2" "list_all (\<lambda>c. is_ascii_digit (cp c)) (two_digits n)" "radix_value 10 (two_digits n) = n"
proof -
  let ?s = "convert_unsigned_to_string n 10 False"
  have len: "length ?s \<le> 2" using length_convert_unsigned_le [of 10 n 2 False] assms by simp
  then show "length (two_digits n) = 2" by (simp add: two_digits_def put_u64_zero_padded_def Let_def)
  show "list_all (\<lambda>c. is_ascii_digit (cp c)) (two_digits n)"
    using convert_unsigned_digit(3) [of 10 _ n False]
    by (auto simp: two_digits_def put_u64_zero_padded_def Let_def list_all_iff char_class)
  show "radix_value 10 (two_digits n) = n"
    by (simp add: two_digits_def put_u64_zero_padded_def Let_def radix_value_zeros convert_unsigned_value)
qed

subsubsection \<open>Tokens\<close>

lemma split_parts_if_append:
  "\<lbrakk> list_all (\<lambda>c. \<not> P c) a; P c \<rbrakk> \<Longrightarrow> split_parts_if P (a @ c # b) = a # split_parts_if P b"
  by (induction a) auto

lemma split_parts_if_plain: "list_all (\<lambda>c. \<not> P c) a \<Longrightarrow> split_parts_if P a = [a]"
  by (induction a) auto

lemma digits_not_delimiter: "list_all (\<lambda>c. is_ascii_digit (cp c)) s \<Longrightarrow> list_all (\<lambda>c. \<not> is_delimiter c) s"
  by (auto simp: list_all_iff is_delimiter_def char_class)

lemma digits_no_colon: "list_all (\<lambda>c. is_ascii_digit (cp c)) s \<Longrightarrow> CHR '':'' \<notin> set s"
  by (auto simp: list_all_iff char_class)

lemma month_name_props:
  assumes "1 \<le> m" "m \<le> 12"
  shows "length (short_month_names ! (m - 1)) = 3 \<and> CHR '':'' \<notin> set (short_month_names ! (m - 1))
    \<and> list_all (\<lambda>c. \<not> is_delimiter c) (short_month_names ! (m - 1))
    \<and> month_index 0 short_month_names (short_month_names ! (m - 1)) = Some m"
  using assms
  by (cases rule: month_cases)
    (simp_all add: short_month_names_def is_delimiter_def equals_ignoring_ascii_case_def to_ascii_lowercase_def char_class)

lemma day_name_props:
  assumes "w < 7"
  shows "length (short_day_names ! w) = 3 \<and> CHR '':'' \<notin> set (short_day_names ! w)
    \<and> list_all (\<lambda>c. \<not> is_delimiter c) (short_day_names ! w)
    \<and> month_index 0 short_month_names (short_day_names ! w) = None"
proof -
  have "w = 0 \<or> w = 1 \<or> w = 2 \<or> w = 3 \<or> w = 4 \<or> w = 5 \<or> w = 6" using assms by presburger
  then show ?thesis
    by (elim disjE)
      (simp_all add: short_day_names_def short_month_names_def is_delimiter_def equals_ignoring_ascii_case_def
        to_ascii_lowercase_def char_class)
qed

lemma imf_fixdate_tokens:
  assumes "w < 7" "1 \<le> m" "m \<le> 12" "d < 100" "1000 \<le> y" "y < 10000" "h < 100" "mi < 100" "sec < 100"
  shows "split_view_if (imf_fixdate w y m d h mi sec) is_delimiter False =
    [short_day_names ! w, two_digits d, short_month_names ! (m - 1), convert_unsigned_to_string y 10 False,
     two_digits h @ '':'' @ two_digits mi @ '':'' @ two_digits sec, ''GMT'']"
proof -
  note names = month_name_props [OF assms(2,3)] day_name_props [OF assms(1)]
  have digits: "list_all (\<lambda>c. \<not> is_delimiter c) (two_digits d)" "list_all (\<lambda>c. \<not> is_delimiter c) (convert_unsigned_to_string y 10 False)"
    "list_all (\<lambda>c. \<not> is_delimiter c) (two_digits h @ '':'' @ two_digits mi @ '':'' @ two_digits sec)"
    using two_digits_props(2) digits_of_number(2) [of 4 y] assms
    by (auto simp: digits_not_delimiter) (simp_all add: is_delimiter_def)
  have delim: "is_delimiter CHR '' ''" "is_delimiter CHR '',''" by (simp_all add: is_delimiter_def)
  have gmt: "list_all (\<lambda>c. \<not> is_delimiter c) ''GMT''" by (simp add: is_delimiter_def)
  have nonempty: "short_day_names ! w \<noteq> []" "two_digits d \<noteq> []" "short_month_names ! (m - 1) \<noteq> []"
    "convert_unsigned_to_string y 10 False \<noteq> []" "two_digits h \<noteq> []"
    using names two_digits_props(1) [of d] two_digits_props(1) [of h] assms by auto
  have parts: "imf_fixdate w y m d h mi sec = short_day_names ! w @ CHR '','' # [] @ CHR '' '' # two_digits d
    @ CHR '' '' # short_month_names ! (m - 1) @ CHR '' '' # convert_unsigned_to_string y 10 False
    @ CHR '' '' # (two_digits h @ '':'' @ two_digits mi @ '':'' @ two_digits sec) @ CHR '' '' # ''GMT''"
    by (simp add: imf_fixdate_def)
  have "split_parts_if is_delimiter (imf_fixdate w y m d h mi sec) =
    [short_day_names ! w, [], two_digits d, short_month_names ! (m - 1), convert_unsigned_to_string y 10 False,
     two_digits h @ '':'' @ two_digits mi @ '':'' @ two_digits sec, ''GMT'']"
    unfolding parts
    by (simp only: split_parts_if_append split_parts_if_plain names digits delim gmt list.pred_inject(1))
  then show ?thesis
    using nonempty by (simp add: split_view_if_def) (simp add: imf_fixdate_def)
qed

lemma parse_time_no_colon: "\<lbrakk> CHR '':'' \<notin> set s; s \<noteq> [] \<rbrakk> \<Longrightarrow> parse_time ext s f = (False, f)"
  by (simp add: parse_time_def split_view_def split_parts_plain)

lemma parse_time_two_digits:
  assumes "fast_float_ok ext" "h < 100" "mi < 100" "sec < 100"
  shows "parse_time ext (two_digits h @ '':'' @ two_digits mi @ '':'' @ two_digits sec) f
    = (True, f\<lparr> df_hour := h, df_minute := mi, df_second := sec \<rparr>)"
proof -
  have nonempty: "two_digits n \<noteq> []" if "n < 100" for n using two_digits_props(1) [OF that] by auto
  have u: "to_uint ext (two_digits n) = Some n" if "n < 100" for n
    using to_uint_digits(1) [OF assms(1) two_digits_props(2) [OF that] nonempty [OF that]] two_digits_props [OF that] by simp
  have colon: "CHR '':'' \<notin> set (two_digits n)" if "n < 100" for n
    by (rule digits_no_colon [OF two_digits_props(2) [OF that]])
  have "split_view (two_digits h @ '':'' @ two_digits mi @ '':'' @ two_digits sec) CHR '':'' False
      = [two_digits h, two_digits mi, two_digits sec]"
    using assms colon nonempty by (simp add: split_view_def split_parts_append split_parts_plain)
  then show ?thesis
    using assms u two_digits_props(1) nonempty by (simp add: parse_time_def Let_def)
qed

lemma parse_date_time_imf_fixdate:
  assumes ff: "fast_float_ok ext" and w: "w < 7" and y: "1601 \<le> y" "y < 10000"
    and v: "valid_date (int y, m, int d)" and t: "h < 24" "mi < 60" "sec < 60"
  shows "parse_date_time ext (imf_fixdate w y m d h mi sec) = Done (Some (Duration (civil_seconds (int y, m, int d) h mi sec) 0))"
proof -
  have m: "1 \<le> m" "m \<le> 12" and d: "1 \<le> d" "int d \<le> month_length (int y) m" using v by (auto simp: valid_date_def)
  have "month_length (int y) m \<le> 31" by (simp add: month_length_def days_in_month_def)
  with d have d31: "d \<le> 31" by linarith
  note mon = month_name_props [OF m] and wd = day_name_props [OF w]
  note year = digits_of_number [of 4 y] and day = two_digits_props [of d]
  have uint: "to_uint ext (two_digits d) = Some d" "to_uint ext (convert_unsigned_to_string y 10 False) = Some y"
    using to_uint_digits(1) [OF ff day(2)] day to_uint_digits(1) [OF ff year(2)] year d31 y by (auto simp del: length_greater_0_conv simp flip: length_greater_0_conv)
  have ne: "short_day_names ! w \<noteq> []" "short_month_names ! (m - 1) \<noteq> []" "two_digits d \<noteq> []"
    "convert_unsigned_to_string y 10 False \<noteq> []"
    using wd mon day(1) d31 by auto
  have step1: "process_date_token ext no_date (short_day_names ! w) = no_date"
    using wd parse_time_no_colon [OF _ ne(1), of ext]
    by (auto simp: process_date_token_def no_date_def parse_day_of_month_def parse_month_def parse_year_def)
  define f1 where "f1 = no_date\<lparr> df_day_of_month := d, found_day_of_month := True \<rparr>"
  have step2: "process_date_token ext no_date (two_digits d) = f1"
    using day d31 uint digits_no_colon [OF day(2)] parse_time_no_colon [OF _ ne(3), of ext] ne(3)
    by (auto simp: process_date_token_def no_date_def parse_day_of_month_def f1_def)
  define f2 where "f2 = f1\<lparr> df_month := m, found_month := True \<rparr>"
  have step3: "process_date_token ext f1 (short_month_names ! (m - 1)) = f2"
    using mon parse_time_no_colon [OF _ ne(2), of ext]
    by (auto simp: process_date_token_def no_date_def parse_month_def f1_def f2_def)
  define f3 where "f3 = f2\<lparr> df_year := y, found_year := True \<rparr>"
  have step4: "process_date_token ext f2 (convert_unsigned_to_string y 10 False) = f3"
    using year y uint digits_no_colon [OF year(2)] parse_time_no_colon [OF _ ne(4), of ext]
    by (auto simp: process_date_token_def no_date_def parse_year_def f1_def f2_def f3_def)
  define f4 where "f4 = f3\<lparr> df_hour := h, df_minute := mi, df_second := sec, found_time := True \<rparr>"
  have step5: "process_date_token ext f3 (two_digits h @ '':'' @ two_digits mi @ '':'' @ two_digits sec) = f4"
    using parse_time_two_digits [OF ff, of h mi sec f3] t
    by (simp add: process_date_token_def no_date_def f1_def f2_def f3_def f4_def)
  have step6: "process_date_token ext f4 ''GMT'' = f4"
    by (simp add: process_date_token_def no_date_def f1_def f2_def f3_def f4_def)
  have fold: "foldl (process_date_token ext) no_date (split_view_if (imf_fixdate w y m d h mi sec) is_delimiter False) = f4"
  proof -
    have small: "d < 100" "1000 \<le> y" "h < 100" "mi < 100" "sec < 100" using d31 y t by simp_all
    show ?thesis
      unfolding imf_fixdate_tokens [OF w m small(1,2) y(2) small(3,4,5)] foldl.simps step1 step2 step3 step4 step5 step6 ..
  qed
  have fy: "full_year y = y" using y by (simp add: full_year_def)
  have "d \<le> nat (month_length (int y) m)" using d by linarith
  then show ?thesis
    unfolding parse_date_time_def fold Let_def
    using civil_date_time [OF v _ t] days_in_month_length [OF m, of "int y"] y t d d31
    by (simp add: f4_def f3_def f2_def f1_def no_date_def fy not_less)
qed

subsection \<open>Control characters\<close>

definition control :: "code_point \<Rightarrow> bool" where
  "control c \<longleftrightarrow> c \<le> 0x08 \<or> c \<ge> 0x0a \<and> c \<le> 0x1f \<or> c = 0x7f"

lemma control_bytes:
  assumes "valid_utf8 s"
  shows "cookie_contains_invalid_control_character s \<longleftrightarrow> (\<exists>c\<in>set s. control (cp c))"
proof -
  obtain cs where cs: "list_all is_unicode_scalar_value cs" "s = utf8_encode cs" using assms by (auto simp: valid_utf8_def)
  have "list_all is_unicode cs" using cs(1) by (auto simp: list_all_iff char_class)
  then have "code_points s = cs" using code_points_encode_append [of cs "[]"] cs(2) by (simp add: code_points_def)
  moreover have "(\<exists>c\<in>set (utf8_encode cs). control (cp c)) \<longleftrightarrow> (\<exists>c\<in>set cs. control c)"
    using cs(1)
  proof (induction cs)
    case (Cons c cs)
    have u: "is_unicode c" using Cons.prems by (simp add: char_class)
    have "(\<exists>b\<in>set (code_point_to_utf8 c). control (cp b)) \<longleftrightarrow> control c"
    proof (cases "is_ascii c")
      case True
      then show ?thesis by (simp add: code_point_to_utf8_ascii char_class)
    next
      case False
      then have "\<not> control c" by (simp add: control_def char_class)
      moreover have "\<not> control (cp b)" if "b \<in> set (code_point_to_utf8 c)" for b
        using code_point_to_utf8_non_ascii [OF False u that] by (simp add: control_def)
      ultimately show ?thesis by blast
    qed
    with Cons show ?case by (simp add: bex_Un)
  qed simp
  ultimately show ?thesis
    using cs(2) by (simp add: cookie_contains_invalid_control_character_def list_ex_iff control_def)
qed

lemma set_trim_whitespace: "set (trim_whitespace s) \<subseteq> set s"
proof -
  have "set (dropWhile P x) \<subseteq> set x" for P and x :: byte_string by (auto dest: set_dropWhileD)
  from this [of _ "rev (trim_left s ws)" for ws] this [of _ s] show ?thesis
    unfolding trim_whitespace_def trim_both_def trim_right_def trim_left_def by (fastforce dest!: set_dropWhileD)
qed

subsection \<open>Attributes\<close>

lemma maximum_cookie_age_ok [simp]: "duration_ok maximum_cookie_age" "nanos maximum_cookie_age = 34560000 * 10 ^ 9"
  "to_seconds maximum_cookie_age = Done 34560000"
  by (simp_all add: maximum_cookie_age_def from_seconds_def duration_ok_def is_i64_def nanos_def to_seconds_def verify_nanoseconds_def)

lemma to_seconds_total: "duration_ok d \<Longrightarrow> \<exists>n. to_seconds d = Done n \<and> n * 10 ^ 9 < nanos d + 10 ^ 9"
  by (auto simp: to_seconds_def verify_nanoseconds_def duration_ok_def nanos_def checked_add_def checked_i64_def is_i64_def)

lemma duration_min_least: "duration_ok d \<Longrightarrow> \<not> d < duration_min"
  using nanos_bounds [of d] by (simp add: nanos_less_iff)

lemma plus_positive:
  assumes "duration_ok a" "duration_ok b" "0 \<le> nanos b"
  shows "\<exists>c. duration_plus a b = Done c \<and> duration_ok c \<and> nanos c = min (nanos duration_max) (nanos a + nanos b)"
  using duration_arith.plus_ok [OF assms(1,2)] nanos_bounds [OF assms(1)] nanos_bounds [of duration_max] assms(3) by auto

text \<open>An expiry time is in the range of durations and at most 400 days, and a second, after the clock.\<close>

definition expiry_ok :: "unix_date_time \<Rightarrow> unix_date_time option \<Rightarrow> bool" where
  "expiry_ok latest expiry \<longleftrightarrow>
     (\<forall>t. expiry = Some t \<longrightarrow> duration_ok t \<and> nanos t \<le> nanos latest + 34560001 * 10 ^ 9)"

lemma on_expires_ok:
  assumes "fast_float_ok ext" "duration_ok now" "nanos now \<le> nanos latest"
  shows "\<exists>t. on_expires_attribute ext now s pc
      = Done (pc\<lparr> expiry_time_from_expires_attribute := t \<rparr>)
    \<and> (t = expiry_time_from_expires_attribute pc \<or> expiry_ok latest t)"
  using parse_date_time_cases [OF assms(1), of s]
proof (elim disjE exE conjE)
  assume "parse_date_time ext s = Done None"
  then show ?thesis
    by (intro exI [of _ "expiry_time_from_expires_attribute pc"]) (simp add: on_expires_attribute_def)
next
  fix y m d h mi sec
  let ?e = "Duration (civil_seconds (int y, m, int d) h mi sec) 0"
  assume y: "1601 \<le> y" "y < 10000" and v: "valid_date (int y, m, int d)" and t: "h < 24" "mi < 60" "sec < 60"
    and p: "parse_date_time ext s = Done (Some ?e)"
  obtain c where c: "duration_plus now maximum_cookie_age = Done c" "duration_ok c"
    "nanos c = min (nanos duration_max) (nanos now + 34560000 * 10 ^ 9)"
    using plus_positive [OF assms(2), of maximum_cookie_age] by auto
  have limit: "nanos c \<le> nanos latest + 34560000 * 10 ^ 9" using c(3) assms(3) by (simp add: min.coboundedI2)
  obtain l where l: "to_seconds c = Done l" "l * 10 ^ 9 < nanos c + 10 ^ 9" using to_seconds_total [OF c(2)] by blast
  have "\<bar>epoch_day (int y, m, int d) * 86400\<bar> < 2 ^ 53"
  proof -
    have "month_length (int y) m \<le> 31" by (simp add: month_length_def days_in_month_def)
    with v have "d \<le> 31" by (auto simp: valid_date_def)
    with v y days_since_epoch_bound [of m "int y" "int d"] show ?thesis by (auto simp: valid_date_def epoch_day_def)
  qed
  with t have e: "duration_ok ?e"
    by (simp add: duration_ok_def civil_seconds_def is_i64_def abs_less_iff)
  have es: "to_seconds ?e = Done (civil_seconds (int y, m, int d) h mi sec)"
    by (simp add: to_seconds_def verify_nanoseconds_def)
  show ?thesis
  proof (cases "civil_seconds (int y, m, int d) h mi sec > l")
    case True
    with p c(1,2) l(1) es limit show ?thesis
      using duration_min_least [OF c(2)]
      by (intro exI [of _ "Some c"]) (simp add: on_expires_attribute_def expiry_ok_def)
  next
    case False
    then have "nanos ?e \<le> l * 10 ^ 9" by (simp add: nanos_def)
    then have "nanos ?e \<le> nanos latest + 34560001 * 10 ^ 9" using l(2) limit by simp
    with p c(1,2) l(1) es e False show ?thesis
      using duration_min_least [OF e]
      by (intro exI [of _ "Some ?e"]) (simp add: on_expires_attribute_def expiry_ok_def)
  qed
qed

lemma on_max_age_ok:
  assumes "duration_ok now" "nanos now \<le> nanos latest"
  shows "\<exists>t. on_max_age_attribute ext now s pc = Done (pc\<lparr> expiry_time_from_max_age_attribute := t \<rparr>)
    \<and> (t = expiry_time_from_max_age_attribute pc \<or> expiry_ok latest t)"
proof (cases "s = [] \<or> (let digits = (if hd s = CHR ''-'' then tl s else s)
    in digits = [] \<or> \<not> list_all (\<lambda>c. is_ascii_digit (cp c)) digits)")
  case True
  then show ?thesis
    by (intro exI [of _ "expiry_time_from_max_age_attribute pc"]) (auto simp: on_max_age_attribute_def Let_def)
next
  case False
  define n where "n = (case to_number_signed ext 64 s of Some n \<Rightarrow> n
      | None \<Rightarrow> if hd s = CHR ''-'' then i64_min else i64_max)"
  define k where "k = (if n > 34560000 then 34560000 else n)"
  have body: "on_max_age_attribute ext now s pc = exec_map (\<lambda>e. pc\<lparr> expiry_time_from_max_age_attribute := Some e \<rparr>)
      (if k \<le> 0 then Done duration_min else duration_plus now (from_seconds k))"
    using False unfolding on_max_age_attribute_def Let_def n_def [symmetric] k_def by auto
  show ?thesis
  proof (cases "k \<le> 0")
    case True
    have "nanos duration_min \<le> nanos latest" using nanos_bounds [OF assms(1)] assms(2) by simp
    then show ?thesis using True by (intro exI [of _ "Some duration_min"]) (simp add: body expiry_ok_def)
  next
    case False
    then have k: "duration_ok (from_seconds k)" "nanos (from_seconds k) = k * 10 ^ 9" "k \<le> 34560000"
      by (auto simp: from_seconds_def duration_ok_def is_i64_def nanos_def k_def)
    then obtain c where "duration_plus now (from_seconds k) = Done c" "duration_ok c"
      "nanos c = min (nanos duration_max) (nanos now + k * 10 ^ 9)"
      using plus_positive [OF assms(1), of "from_seconds k"] False by auto
    moreover from this(3) k(3) assms(2) have "nanos c \<le> nanos latest + 34560001 * 10 ^ 9"
      by (simp add: min.coboundedI2)
    ultimately show ?thesis using False by (intro exI [of _ "Some c"]) (simp add: body expiry_ok_def)
  qed
qed

lemma on_max_age_exact:
  assumes ff: "fast_float_signed_ok ext" and now: "duration_ok now"
    and d: "list_all (\<lambda>c. is_ascii_digit (cp c)) s" "s \<noteq> []"
  shows "\<exists>t. on_max_age_attribute ext now s pc = Done (pc\<lparr> expiry_time_from_max_age_attribute := Some t \<rparr>) \<and> duration_ok t
      \<and> nanos t = (if radix_value 10 s = 0 then nanos duration_min
          else min (nanos duration_max) (nanos now + min (int (radix_value 10 s)) 34560000 * 10 ^ 9))"
    (is "?positive")
    and "on_max_age_attribute ext now (CHR ''-'' # s) pc = Done (pc\<lparr> expiry_time_from_max_age_attribute := Some duration_min \<rparr>)"
    (is "?negative")
proof -
  let ?n = "radix_value 10 s"
  have dv: "list_all (\<lambda>c. digit_value c < 10) s" using d(1) by (auto simp: list_all_iff digit_value_digit)
  have minus: "hd s \<noteq> CHR ''-''" using d by (cases s) (auto simp: char_class)
  have trim: "trim_whitespace s = s" using d(1) by (rule trim_whitespace_digits)
  have trim': "trim_whitespace (CHR ''-'' # s) = CHR ''-'' # s"
    unfolding trim_whitespace_def
  proof (rule trim_no_whitespace)
    fix c
    assume "c \<in> set (CHR ''-'' # s)"
    then show "\<not> contains_char (map char_of [0x20, 0x0A, 0x09, 0x0B, 0x0C, 0x0D :: nat]) c"
      using d(1) digit_not_whitespace [of c] by (auto simp: list_all_iff) (simp add: contains_char_def char_of_eq_iff_mod)
  qed
  have pos: "to_number_signed ext 64 s = (if ?n < 2 ^ 63 then Some (int ?n) else None)"
    and neg: "to_number_signed ext 64 (CHR ''-'' # s) = (if ?n \<le> 2 ^ 63 then Some (- int ?n) else None)"
    using ff d(2) dv by (simp_all add: to_number_signed_def trim trim' fast_float_signed_ok_def)
  show ?negative
    using d by (auto simp: on_max_age_attribute_def neg Let_def)
  define k where "k = min (int ?n) 34560000"
  have "on_max_age_attribute ext now s pc = exec_map (\<lambda>e. pc\<lparr> expiry_time_from_max_age_attribute := Some e \<rparr>)
      (if k \<le> 0 then Done duration_min else duration_plus now (from_seconds k))"
    using d minus by (auto simp: on_max_age_attribute_def pos Let_def k_def min_def)
  moreover have "duration_ok (from_seconds k)" "nanos (from_seconds k) = k * 10 ^ 9" "0 \<le> k"
    by (auto simp: from_seconds_def duration_ok_def is_i64_def nanos_def k_def)
  moreover from this plus_positive [OF now, of "from_seconds k"] obtain c where
    "duration_plus now (from_seconds k) = Done c" "duration_ok c" "nanos c = min (nanos duration_max) (nanos now + k * 10 ^ 9)"
    by auto
  moreover have "k \<le> 0 \<longleftrightarrow> ?n = 0" by (auto simp: k_def)
  ultimately show ?positive by (auto simp: k_def)
qed

subsection \<open>The parser\<close>

text \<open>
  What a parsed cookie satisfies: name and value are well-formed UTF-8 without control characters, not
  longer than 4096 bytes together, the value has no semicolon and the name neither a semicolon nor an
  equals sign, and the lifetime is limited.
\<close>

definition parsed_cookie_ok :: "unix_date_time \<Rightarrow> parsed_cookie \<Rightarrow> bool" where
  "parsed_cookie_ok latest pc \<longleftrightarrow>
     valid_utf8 (parsed_name pc) \<and> valid_utf8 (parsed_value pc)
     \<and> length (parsed_name pc) + length (parsed_value pc) \<le> 4096
     \<and> (\<forall>c \<in> set (parsed_name pc) \<union> set (parsed_value pc). \<not> control (cp c) \<and> c \<noteq> CHR '';'')
     \<and> CHR ''='' \<notin> set (parsed_name pc)
     \<and> expiry_ok latest (expiry_time_from_expires_attribute pc)
     \<and> expiry_ok latest (expiry_time_from_max_age_attribute pc)"

lemma expiry_ok_None [simp]: "expiry_ok latest None"
  by (simp add: expiry_ok_def)

lemma valid_utf8_separators:
  "valid_utf8 (a @ CHR '';'' # b) \<Longrightarrow> valid_utf8 a \<and> valid_utf8 b"
  "valid_utf8 (a @ CHR ''='' # b) \<Longrightarrow> valid_utf8 a \<and> valid_utf8 b"
  "valid_utf8 (CHR ''.'' # b) \<Longrightarrow> valid_utf8 b"
  using valid_utf8_split [of a _ b] valid_utf8_Cons [of _ b] by (simp_all add: is_ascii_def)

lemma valid_split_before:
  "valid_utf8 s \<Longrightarrow> split_before CHR '';'' s = (a, rest) \<Longrightarrow> valid_utf8 a \<and> (rest \<noteq> [] \<longrightarrow> valid_utf8 (tl rest))"
  by (cases s "CHR '';''" rule: split_before_cases) (auto dest: valid_utf8_separators)

lemma valid_attribute_parts:
  "valid_utf8 av \<Longrightarrow> attribute_parts av = (name, val) \<Longrightarrow> valid_utf8 name \<and> valid_utf8 val"
  by (cases av rule: split_at_equals_cases)
    (auto simp: attribute_parts_def intro!: valid_utf8_trim_whitespace dest: valid_utf8_separators)

lemma on_domain_ok:
  assumes "simdutf_ok ext" "valid_utf8 val"
  shows "\<exists>d. on_domain_attribute ext val pc = Done (pc\<lparr> parsed_domain := Some d \<rparr>)"
proof -
  have "valid_utf8 (if starts_with_char val CHR ''.'' then drop 1 val else val)"
    using assms(2) by (cases val) (auto simp: starts_with_char_def dest: valid_utf8_separators)
  then show ?thesis
    unfolding on_domain_attribute_def Let_def validate_utf8_iff [OF assms(1)] by auto
qed

lemma on_path_ok:
  "\<lbrakk> simdutf_ok ext; valid_utf8 val; default_path ext u = Done p \<rbrakk> \<Longrightarrow>
   \<exists>q. on_path_attribute ext u val pc = Done (pc\<lparr> parsed_path := Some q \<rparr>)"
  by (auto simp: on_path_attribute_def must_from_utf8_def validate_utf8_iff)

lemma parsed_cookie_ok_update [simp]:
  "parsed_cookie_ok latest (pc\<lparr> parsed_domain := d \<rparr>) = parsed_cookie_ok latest pc"
  "parsed_cookie_ok latest (pc\<lparr> parsed_path := d \<rparr>) = parsed_cookie_ok latest pc"
  "parsed_cookie_ok latest (pc\<lparr> secure_attribute_present := b \<rparr>) = parsed_cookie_ok latest pc"
  "parsed_cookie_ok latest (pc\<lparr> http_only_attribute_present := b \<rparr>) = parsed_cookie_ok latest pc"
  "parsed_cookie_ok latest (pc\<lparr> same_site_attribute := x \<rparr>) = parsed_cookie_ok latest pc"
  "\<lbrakk> parsed_cookie_ok latest pc; t = expiry_time_from_expires_attribute pc \<or> expiry_ok latest t \<rbrakk> \<Longrightarrow>
   parsed_cookie_ok latest (pc\<lparr> expiry_time_from_expires_attribute := t \<rparr>)"
  "\<lbrakk> parsed_cookie_ok latest pc; t = expiry_time_from_max_age_attribute pc \<or> expiry_ok latest t \<rbrakk> \<Longrightarrow>
   parsed_cookie_ok latest (pc\<lparr> expiry_time_from_max_age_attribute := t \<rparr>)"
  by (auto simp: parsed_cookie_ok_def)

lemma process_attribute_ok:
  assumes "simdutf_ok ext" "fast_float_ok ext" "duration_ok now" "nanos now \<le> nanos latest"
    "valid_utf8 val" "default_path ext u = Done p" "parsed_cookie_ok latest pc"
  shows "\<exists>pc'. process_attribute ext now u name val pc = Done pc' \<and> parsed_cookie_ok latest pc'"
proof -
  obtain t where t: "on_expires_attribute ext now val pc = Done (pc\<lparr> expiry_time_from_expires_attribute := t \<rparr>)"
    "t = expiry_time_from_expires_attribute pc \<or> expiry_ok latest t" using on_expires_ok [OF assms(2,3,4)] by blast
  obtain t' where t': "on_max_age_attribute ext now val pc = Done (pc\<lparr> expiry_time_from_max_age_attribute := t' \<rparr>)"
    "t' = expiry_time_from_max_age_attribute pc \<or> expiry_ok latest t'" using on_max_age_ok [OF assms(3,4)] by blast
  obtain d where d: "on_domain_attribute ext val pc = Done (pc\<lparr> parsed_domain := Some d \<rparr>)"
    using on_domain_ok [OF assms(1,5)] by blast
  obtain q where q: "on_path_attribute ext u val pc = Done (pc\<lparr> parsed_path := Some q \<rparr>)"
    using on_path_ok [OF assms(1,5,6)] by blast
  show ?thesis
    using assms(7) t(2) t'(2)
    by (simp add: process_attribute_def t(1) t'(1) d q on_secure_attribute_def on_http_only_attribute_def
        on_same_site_attribute_def)
qed

lemma parse_attributes_ok:
  assumes "simdutf_ok ext" "fast_float_ok ext" "\<And>n. duration_ok (clock n)" "\<And>n. nanos (clock n) \<le> nanos latest"
    "default_path ext u = Done p"
  shows "\<lbrakk> s \<noteq> [] \<longrightarrow> valid_utf8 (tl s); parsed_cookie_ok latest pc \<rbrakk>
    \<Longrightarrow> \<exists>pc'. parse_attributes ext clock u s pc = Done pc' \<and> parsed_cookie_ok latest pc'"
proof (induction "length s" arbitrary: s pc rule: less_induct)
  case less
  show ?case
  proof (cases "s = []")
    case True
    with less.prems show ?thesis by (simp add: parse_attributes.simps)
  next
    case False
    obtain av rest where split: "split_before CHR '';'' (tl s) = (av, rest)" by force
    obtain name val where parts: "attribute_parts av = (name, val)" by force
    have v: "valid_utf8 av" "rest \<noteq> [] \<longrightarrow> valid_utf8 (tl rest)"
      using valid_split_before [OF _ split] less.prems(1) False by auto
    have IH: "parsed_cookie_ok latest pc \<Longrightarrow>
        \<exists>pc'. parse_attributes ext clock u rest pc = Done pc' \<and> parsed_cookie_ok latest pc'" for pc
      using less.hyps [OF _ v(2)] split_before_decreases [OF split [symmetric] False] by blast
    show ?thesis
    proof (cases "length val > 1024")
      case True
      with False split parts IH [OF less.prems(2)] show ?thesis by (subst parse_attributes.simps) simp
    next
      case no: False
      from process_attribute_ok [OF assms(1,2) assms(3,4) _ assms(5) less.prems(2)] valid_attribute_parts [OF v(1) parts]
      obtain pc1 where "process_attribute ext (clock (length rest)) u name val pc = Done pc1" "parsed_cookie_ok latest pc1"
        by blast
      with False no split parts IH [of pc1] show ?thesis by (subst parse_attributes.simps) simp
    qed
  qed
qed

lemma parse_cookie_ok:
  assumes "simdutf_ok ext" "fast_float_ok ext" "\<And>n. duration_ok (clock n)" "\<And>n. nanos (clock n) \<le> nanos latest"
    "default_path ext u = Done p" "valid_utf8 s"
  shows "\<exists>r. parse_cookie ext clock u s = Done r \<and> (\<forall>pc. r = Some pc \<longrightarrow> parsed_cookie_ok latest pc)"
proof -
  obtain nv rest where split: "split_before CHR '';'' s = (nv, rest)" by force
  define raw where "raw = (case split_at_equals nv of Some p \<Rightarrow> p | None \<Rightarrow> ([], nv))"
  define name where "name = trim_whitespace (fst raw)"
  define val where "val = trim_whitespace (snd raw)"
  have nv: "set nv \<subseteq> set s" "CHR '';'' \<notin> set nv"
    using split by (cases s "CHR '';''" rule: split_before_cases; auto)+
  have v: "valid_utf8 nv" "rest \<noteq> [] \<longrightarrow> valid_utf8 (tl rest)" using valid_split_before [OF assms(6) split] by auto
  have raw: "set (fst raw) \<subseteq> set nv" "set (snd raw) \<subseteq> set nv" "CHR ''='' \<notin> set (fst raw)"
    "valid_utf8 (fst raw)" "valid_utf8 (snd raw)"
    using v(1) by (cases nv rule: split_at_equals_cases; auto simp: raw_def dest: valid_utf8_separators)+
  have bytes: "set name \<subseteq> set nv" "set val \<subseteq> set nv" "CHR ''='' \<notin> set name"
    using raw set_trim_whitespace [of "fst raw"] set_trim_whitespace [of "snd raw"] by (auto simp: name_def val_def)
  have vnv: "valid_utf8 name" "valid_utf8 val" using raw by (simp_all add: name_def val_def valid_utf8_trim_whitespace)
  have body: "parse_cookie ext clock u s =
    (if cookie_contains_invalid_control_character s then Done None
     else if length name + length val > 4096 then Done None
     else exec_map Some (parse_attributes ext clock u rest
                       \<lparr> parsed_name = name, parsed_value = val, same_site_attribute = SameSite_Default,
                         expiry_time_from_expires_attribute = None, expiry_time_from_max_age_attribute = None,
                         parsed_domain = None, parsed_path = None, secure_attribute_present = False,
                         http_only_attribute_present = False \<rparr>))"
    unfolding parse_cookie_def split Let_def case_prod_beta fst_conv snd_conv raw_def [symmetric]
      name_def [symmetric] val_def [symmetric]
    using vnv by (simp add: must_from_utf8_def validate_utf8_iff [OF assms(1)])
  show ?thesis
  proof (cases "cookie_contains_invalid_control_character s \<or> length name + length val > 4096")
    case True
    then show ?thesis by (auto simp: body)
  next
    case False
    then have "\<forall>c \<in> set s. \<not> control (cp c)" using control_bytes [OF assms(6)] by auto
    with False vnv bytes nv have "parsed_cookie_ok latest
        \<lparr> parsed_name = name, parsed_value = val, same_site_attribute = SameSite_Default,
          expiry_time_from_expires_attribute = None, expiry_time_from_max_age_attribute = None,
          parsed_domain = None, parsed_path = None, secure_attribute_present = False,
          http_only_attribute_present = False \<rparr>"
      by (auto simp: parsed_cookie_ok_def)
    from parse_attributes_ok [of ext clock, OF assms(1,2,3,4,5) v(2) this] False show ?thesis by (auto simp: body)
  qed
qed

text \<open>No code point of a valid string starts with the byte FF.\<close>

lemma not_valid_utf8_ff: "\<not> valid_utf8 (CHR 0xFF # s)"
proof
  assume "valid_utf8 (CHR 0xFF # s)"
  then obtain cs where cs: "list_all is_unicode_scalar_value cs" "CHR 0xFF # s = utf8_encode cs" by (auto simp: valid_utf8_def)
  then obtain c ds where "cs = c # ds" by (cases cs) auto
  with cs have c: "is_unicode c" "CHR 0xFF # s = code_point_to_utf8 c @ utf8_encode ds" by (simp_all add: char_class)
  have "c \<le> 0x7ff \<Longrightarrow> c div 64 < 32" "c \<le> 0xffff \<Longrightarrow> c div 4096 < 16" "c \<le> 0x10ffff \<Longrightarrow> c div 262144 < 8"
    by (simp_all add: less_mult_imp_div_less)
  with c show False
    by (auto simp: code_point_to_utf8_arith is_unicode_def char_of_eq_iff_mod split: if_splits)
qed

subsection \<open>The default path\<close>

lemma valid_utf8_ascii: "is_ascii_string s \<Longrightarrow> valid_utf8 s"
  unfolding valid_utf8_def
  using ascii_code_points(2) [of s]
  by (intro exI [of _ "map cp s"]) (auto simp: is_ascii_string_def list_all_iff char_class)

lemma default_path_plain:
  assumes "simdutf_ok ext" "serialize_path u = Done p" "is_ascii_string p" "CHR ''%'' \<notin> set p"
  shows "\<exists>q. default_path ext u = Done q \<and> (p \<noteq> [] \<and> hd p = CHR ''/'' \<longrightarrow> path_match p q)"
proof -
  have dec: "percent_decode p = Done p" using assms(4) by (simp add: percent_decode_eq percent_decoded_plain)
  show ?thesis
  proof (cases "p = [] \<or> hd p \<noteq> CHR ''/''")
    case True
    then show ?thesis by (auto simp: default_path_def assms(2) dec)
  next
    case False
    then have "p \<noteq> []" "hd p = CHR ''/''" by simp_all
    then have slash: "CHR ''/'' \<in> set p" by (metis hd_in_set)
    have root: "path_match p ''/''" using False by (cases p) (simp_all add: path_match_def)
    obtain i where i: "i < length p" "find_last p CHR ''/'' = Some i" using find_last_some [OF slash] by blast
    have "p ! i = CHR ''/''" using find_last_upto_found [OF i(2) [unfolded find_last_def]] by blast
    note i = i this
    have e: "take i p @ CHR ''/'' # drop (Suc i) p = p" using id_take_nth_drop [OF i(1), symmetric] i(3) by simp
    have m: "path_match p (take i p)"
      unfolding path_match_def by (rule exI [of _ "CHR ''/'' # drop (Suc i) p"]) (simp add: e)
    have "is_ascii_string (take i p)" using assms(3) by (auto simp: is_ascii_string_def list_all_iff dest: in_set_takeD)
    then have "must_from_utf8 ext (take i p) = Done (take i p)"
      by (simp add: must_from_utf8_def validate_utf8_iff [OF assms(1)] valid_utf8_ascii)
    with False i(2) have "default_path ext u = Done (if i = 0 then ''/'' else take i p)"
      by (simp add: default_path_def assms(2) dec)
    with m root show ?thesis by auto
  qed
qed

definition example_cookie_url :: "byte_string list \<Rightarrow> url" where
  "example_cookie_url paths = empty_url\<lparr> url_scheme := ''https'', url_host := Some (Name ''example.com''), url_paths := paths \<rparr>"

subsection \<open>Properties\<close>

text \<open>C3: Parsing a cookie string of well-formed UTF-8 never stops the process if the default path of the
  URL exists, whatever the clock shows, and an accepted cookie has a bounded name and value without
  control characters or separators, and a lifetime of at most 400 days and a second.\<close>

theorem parse_cookie_total:
  assumes "simdutf_ok ext" "fast_float_ok ext" "\<And>n. duration_ok (clock n)" "\<And>n. nanos (clock n) \<le> nanos latest"
    "default_path ext u = Done p" "valid_utf8 s"
  shows "\<exists>r. parse_cookie ext clock u s = Done r \<and> (\<forall>pc. r = Some pc \<longrightarrow> parsed_cookie_ok latest pc)"
  using assms by (rule parse_cookie_ok)

theorem parse_cookie_total_witness:
  "\<exists>r. parse_cookie reference_externals (\<lambda>n. Duration 0 0) (example_cookie_url [''a'', ''b'']) ''a=b; Path=/''
     = Done r \<and> (\<forall>pc. r = Some pc \<longrightarrow> parsed_cookie_ok (Duration 0 0) pc)"
proof -
  have "serialize_path (example_cookie_url [''a'', ''b'']) = Done ''/a/b''" "is_ascii_string ''/a/b''" by code_simp+
  from default_path_plain [OF simdutf_ok_reference this] obtain p where
    "default_path reference_externals (example_cookie_url [''a'', ''b'']) = Done p" by auto
  moreover have "valid_utf8 ''a=b; Path=/''" by (rule valid_utf8_ascii) code_simp
  ultimately show ?thesis
    using simdutf_ok_reference fast_float_ok_reference
    by (intro parse_cookie_total) (simp_all add: duration_ok_def is_i64_def)
qed

text \<open>C9: A date in the format of HTTP is read back exactly: for every civil date of the years 1601 to 9999,
  every time of day and any name of a weekday.\<close>

theorem parse_date_time_inverts_imf_fixdate:
  assumes "fast_float_ok ext" "w < 7" "1601 \<le> y" "y < 10000" "valid_date (int y, m, int d)" "h < 24" "mi < 60" "sec < 60"
  shows "parse_date_time ext (imf_fixdate w y m d h mi sec)
    = Done (Some (Duration (civil_seconds (int y, m, int d) h mi sec) 0))"
  using assms by (rule parse_date_time_imf_fixdate)

theorem parse_date_time_inverts_imf_fixdate_witness:
  "parse_date_time reference_externals ''Sun, 06 Nov 1994 08:49:37 GMT'' = Done (Some (Duration 784111777 0))"
proof -
  have "imf_fixdate 0 1994 11 6 8 49 37 = ''Sun, 06 Nov 1994 08:49:37 GMT''"
    "civil_seconds (1994, 11, 6) 8 49 37 = 784111777" "valid_date (1994, 11, 6)"
    by code_simp+
  with parse_date_time_inverts_imf_fixdate [OF fast_float_ok_reference, of 0 1994 11 6 8 49 37] show ?thesis by simp
qed

text \<open>C20: A \<^verbatim>\<open>Max-Age\<close> of digits, of any length, gives the current time plus that many seconds or 400 days,
  whichever is less, and zero or a negative number the earliest time.\<close>

theorem on_max_age_attribute_exact:
  assumes "fast_float_signed_ok ext" "duration_ok now" "list_all (\<lambda>c. is_ascii_digit (cp c)) s" "s \<noteq> []"
  shows "(\<exists>t. on_max_age_attribute ext now s pc = Done (pc\<lparr> expiry_time_from_max_age_attribute := Some t \<rparr>) \<and> duration_ok t
      \<and> nanos t = (if radix_value 10 s = 0 then nanos duration_min
          else min (nanos duration_max) (nanos now + min (int (radix_value 10 s)) 34560000 * 10 ^ 9)))
    \<and> on_max_age_attribute ext now (CHR ''-'' # s) pc
      = Done (pc\<lparr> expiry_time_from_max_age_attribute := Some duration_min \<rparr>)"
  using on_max_age_exact [OF assms] by blast

theorem on_max_age_attribute_exact_witness:
  "let pc = \<lparr> parsed_name = ''a'', parsed_value = ''b'', same_site_attribute = SameSite_Default,
      expiry_time_from_expires_attribute = None, expiry_time_from_max_age_attribute = None, parsed_domain = None,
      parsed_path = None, secure_attribute_present = False, http_only_attribute_present = False \<rparr>
   in \<exists>t. on_max_age_attribute reference_externals (Duration 1000 0) ''60'' pc
        = Done (pc\<lparr> expiry_time_from_max_age_attribute := Some t \<rparr>) \<and> nanos t = 1060 * 10 ^ 9"
proof -
  have "radix_value 10 ''60'' = 60" by code_simp
  then have "\<exists>t. on_max_age_attribute reference_externals (Duration 1000 0) ''60'' pc
      = Done (pc\<lparr> expiry_time_from_max_age_attribute := Some t \<rparr>) \<and> nanos t = 1060 * 10 ^ 9" for pc
    using on_max_age_attribute_exact [OF fast_float_signed_ok_reference, of "Duration 1000 0" "''60''" pc]
    by (auto simp: duration_ok_def is_i64_def nanos_def duration_max_def char_class)
  then show ?thesis unfolding Let_def by blast
qed

text \<open>C19: The two matching functions index their strings safely and decide what RFC 6265 asks: a host matches a
  domain that equals it or follows one of its dots, if it is no IPv4 address, and a path matches one of its
  directories.\<close>

theorem cookie_matching_exact:
  "domain_matches ext host domain = Done (host = domain
      \<or> (\<exists>p. host = p @ CHR ''.'' # domain) \<and> ipv4_from_string ext host = None)
   \<and> path_matches request path = Done (\<exists>t. request = path @ t
      \<and> (t = [] \<or> path \<noteq> [] \<and> last path = CHR ''/'' \<or> hd t = CHR ''/''))"
  by (simp add: domain_match_def path_match_def)





end
