(* ===== verification/AK_Hash_Table.thy ===== *)
theory AK_Hash_Table
  imports AK_Hash "HOL-Library.Multiset"
begin

text \<open>
  \<^verbatim>\<open>AK/HashTable.h\<close> and \<^verbatim>\<open>AK/HashMap.h\<close>, in the unordered form: Robin Hood hashing over an array of
  buckets.  A bucket that is free is \<open>None\<close>; a used one has the state byte, the stored hash and the slot
  of the source.  The capacity is the length of the array, and a null array is the empty list.  Sizes are
  numbers of objects in memory, far from the 64-bit bound; allocations succeed and are not rounded up,
  which is what \<^verbatim>\<open>AK/kmalloc.h\<close> does outside macOS.

  The probe loops are written \<^verbatim>\<open>for (;;)\<close>.  They visit the buckets one after the other and come round to
  the first one after as many steps as there are buckets; the model stops there with \<open>Endless_loop\<close>, and
  the lemmas show that this never happens in a table that the operations made.
\<close>

subsection \<open>Results\<close>

text \<open>What can go wrong: a failing \<^verbatim>\<open>VERIFY\<close>, a loop that does not end, a use of freed buckets.\<close>

datatype fault = Assertion_failed | Endless_loop | Use_after_free

type_synonym 'a result = "fault + 'a"

definition result_bind :: "'a result \<Rightarrow> ('a \<Rightarrow> 'b result) \<Rightarrow> 'b result" where
  "result_bind r f = (case r of Inl e \<Rightarrow> Inl e | Inr x \<Rightarrow> f x)"

lemma result_bind_simps [simp]: "result_bind (Inl e) f = Inl e" "result_bind (Inr x) f = f x"
  by (simp_all add: result_bind_def)

lemma result_bind_eq_Inr: "result_bind r f = Inr y \<longleftrightarrow> (\<exists>x. r = Inr x \<and> f x = Inr y)"
  by (cases r) auto

subsection \<open>Buckets\<close>

record 'a traits =
  traits_hash :: "'a \<Rightarrow> u32"
  traits_equals :: "'a \<Rightarrow> 'a \<Rightarrow> bool"
  may_have_slow_equality_check :: bool

record 'a bucket =
  bucket_state :: nat
  stored_hash :: u32
  slot :: 'a

record 'a hash_table =
  m_buckets :: "'a bucket option list"
  m_size :: nat

definition empty_table :: "'a hash_table" where
  "empty_table = \<lparr> m_buckets = [], m_size = 0 \<rparr>"

abbreviation m_capacity :: "'a hash_table \<Rightarrow> nat" where
  "m_capacity t \<equiv> length (m_buckets t)"

datatype hash_set_result = InsertedNewEntry | ReplacedExistingEntry | KeptExistingEntry

datatype existing_entry_behavior = Keep_Entry | Replace_Entry

text \<open>The stored hash is compared only where equality may be slow; elsewhere the source does not keep it.\<close>

definition hash_check :: "'a traits \<Rightarrow> 'a bucket \<Rightarrow> u32 \<Rightarrow> bool" where
  "hash_check tr b h = (if may_have_slow_equality_check tr then stored_hash b = h else True)"

definition next_bucket :: "nat \<Rightarrow> nat \<Rightarrow> nat" where
  "next_bucket capacity bucket_index = (if bucket_index + 1 = capacity then 0 else bucket_index + 1)"

definition bucket_state_for_probe_length :: "nat \<Rightarrow> nat" where
  "bucket_state_for_probe_length probe_length = (if probe_length > 253 then 255 else probe_length + 1)"

definition probe_distance :: "nat \<Rightarrow> nat \<Rightarrow> nat \<Rightarrow> nat" where
  "probe_distance capacity actual_bucket_index ideal_bucket_index =
     (if actual_bucket_index < ideal_bucket_index then capacity + actual_bucket_index - ideal_bucket_index
      else actual_bucket_index - ideal_bucket_index)"

definition used_bucket_probe_length :: "'a traits \<Rightarrow> nat \<Rightarrow> nat \<Rightarrow> 'a bucket \<Rightarrow> nat" where
  "used_bucket_probe_length tr capacity bucket_index b =
     (if bucket_state b = 255
      then probe_distance capacity bucket_index (unat (traits_hash tr (slot b)) mod capacity)
      else bucket_state b - 1)"

definition should_grow :: "'a hash_table \<Rightarrow> bool" where
  "should_grow t \<longleftrightarrow> (m_size t + 1) * 100 \<ge> m_capacity t * 80"

subsection \<open>Lookup\<close>

fun lookup_loop :: "'a traits \<Rightarrow> ('a \<Rightarrow> bool) \<Rightarrow> u32 \<Rightarrow> 'a bucket option list \<Rightarrow> nat \<Rightarrow> nat \<Rightarrow> nat option result" where
  "lookup_loop tr predicate hash bs 0 bucket_index = Inl Endless_loop"
| "lookup_loop tr predicate hash bs (Suc n) bucket_index =
     (case bs ! bucket_index of
        None \<Rightarrow> Inr None
      | Some b \<Rightarrow>
          if hash_check tr b hash \<and> predicate (slot b) then Inr (Some bucket_index)
          else lookup_loop tr predicate hash bs n (next_bucket (length bs) bucket_index))"

definition lookup_with_hash :: "'a traits \<Rightarrow> 'a hash_table \<Rightarrow> u32 \<Rightarrow> ('a \<Rightarrow> bool) \<Rightarrow> nat option result" where
  "lookup_with_hash tr t hash predicate =
     (if m_size t = 0 then Inr None
      else lookup_loop tr predicate hash (m_buckets t) (m_capacity t) (unat hash mod m_capacity t))"

definition table_find :: "'a traits \<Rightarrow> 'a hash_table \<Rightarrow> 'a \<Rightarrow> nat option result" where
  "table_find tr t value =
     (if m_size t = 0 then Inr None
      else lookup_with_hash tr t (traits_hash tr value) (\<lambda>entry. traits_equals tr entry value))"

text \<open>The values in the order of the iterator: that of the buckets.\<close>

definition used_slots :: "'a bucket option list \<Rightarrow> 'a list" where
  "used_slots bs = map (\<lambda>b. slot (the b)) (filter (\<lambda>b. b \<noteq> None) bs)"

definition table_values :: "'a hash_table \<Rightarrow> 'a list" where
  "table_values t = used_slots (m_buckets t)"

subsection \<open>Writing\<close>

text \<open>
  The loop that finds a place for a bucket whose place was taken, starting after \<open>bucket_index\<close>.
\<close>

fun place_displaced :: "'a traits \<Rightarrow> nat \<Rightarrow> 'a bucket option list \<Rightarrow> nat \<Rightarrow> nat \<Rightarrow> 'a bucket \<Rightarrow> 'a bucket option list result" where
  "place_displaced tr 0 bs bucket_index probe_length bucket_to_move = Inl Endless_loop"
| "place_displaced tr (Suc n) bs bucket_index probe_length bucket_to_move =
     (let bucket_index = next_bucket (length bs) bucket_index;
          probe_length = probe_length + 1;
          moved = Some (bucket_to_move\<lparr> bucket_state := bucket_state_for_probe_length probe_length \<rparr>)
      in case bs ! bucket_index of
           None \<Rightarrow> Inr (bs[bucket_index := moved])
         | Some b \<Rightarrow>
             let target_probe_length = used_bucket_probe_length tr (length bs) bucket_index b
             in if probe_length > target_probe_length
                then place_displaced tr n (bs[bucket_index := moved]) bucket_index target_probe_length b
                else place_displaced tr n bs bucket_index probe_length bucket_to_move)"

text \<open>
  \<^verbatim>\<open>lookup_for_writing\<close> returns a bucket whose slot the caller then fills; no other code reads it between.
  Here the new value goes into the bucket at once.
\<close>

fun lookup_for_writing ::
    "'a traits \<Rightarrow> ('a \<Rightarrow> bool) \<Rightarrow> u32 \<Rightarrow> 'a \<Rightarrow> existing_entry_behavior \<Rightarrow> nat \<Rightarrow> 'a bucket option list \<Rightarrow> nat \<Rightarrow> nat
     \<Rightarrow> (hash_set_result \<times> 'a bucket option list) result" where
  "lookup_for_writing tr predicate hash value existing_entry_behavior 0 bs bucket_index probe_length = Inl Endless_loop"
| "lookup_for_writing tr predicate hash value existing_entry_behavior (Suc n) bs bucket_index probe_length =
     (let new_bucket = Some \<lparr> bucket_state = bucket_state_for_probe_length probe_length, stored_hash = hash, slot = value \<rparr>
      in case bs ! bucket_index of
           None \<Rightarrow> Inr (InsertedNewEntry, bs[bucket_index := new_bucket])
         | Some b \<Rightarrow>
             if hash_check tr b hash \<and> predicate (slot b)
             then (if existing_entry_behavior = Replace_Entry
                   then Inr (ReplacedExistingEntry, bs[bucket_index := Some (b\<lparr> slot := value \<rparr>)])
                   else Inr (KeptExistingEntry, bs))
             else let target_probe_length = used_bucket_probe_length tr (length bs) bucket_index b
                  in if probe_length > target_probe_length
                     then result_bind (place_displaced tr n (bs[bucket_index := new_bucket]) bucket_index target_probe_length b)
                            (\<lambda>bs. Inr (InsertedNewEntry, bs))
                     else lookup_for_writing tr predicate hash value existing_entry_behavior n bs
                            (next_bucket (length bs) bucket_index) (probe_length + 1))"

definition write_value ::
    "'a traits \<Rightarrow> 'a hash_table \<Rightarrow> 'a \<Rightarrow> existing_entry_behavior \<Rightarrow> (hash_set_result \<times> 'a hash_table) result" where
  "write_value tr t value existing_entry_behavior =
     (let hash = traits_hash tr value
      in result_bind (lookup_for_writing tr (\<lambda>candidate. traits_equals tr candidate value) hash value
                        existing_entry_behavior (m_capacity t) (m_buckets t) (unat hash mod m_capacity t) 0)
           (\<lambda>(r, bs). Inr (r, \<lparr> m_buckets = bs, m_size = (if r = InsertedNewEntry then m_size t + 1 else m_size t) \<rparr>)))"

fun write_values :: "'a traits \<Rightarrow> 'a list \<Rightarrow> 'a hash_table \<Rightarrow> 'a hash_table result" where
  "write_values tr [] t = Inr t"
| "write_values tr (value # rest) t =
     result_bind (write_value tr t value Keep_Entry) (\<lambda>(r, t). write_values tr rest t)"

definition try_rehash :: "'a traits \<Rightarrow> 'a hash_table \<Rightarrow> nat \<Rightarrow> 'a hash_table result" where
  "try_rehash tr t new_capacity =
     (let new_capacity = max new_capacity (m_capacity t + 8)
      in if \<not> new_capacity \<ge> m_size t then Inl Assertion_failed
         else if m_buckets t = [] then Inr (t\<lparr> m_buckets := replicate new_capacity None \<rparr>)
         else write_values tr (table_values t) \<lparr> m_buckets = replicate new_capacity None, m_size = 0 \<rparr>)"

definition try_ensure_capacity :: "'a traits \<Rightarrow> 'a hash_table \<Rightarrow> nat \<Rightarrow> 'a hash_table result" where
  "try_ensure_capacity tr t capacity =
     (let required_capacity = capacity * 100 div 80 + 1
      in if required_capacity \<le> m_capacity t then Inr t else try_rehash tr t required_capacity)"

definition try_set ::
    "'a traits \<Rightarrow> 'a hash_table \<Rightarrow> 'a \<Rightarrow> existing_entry_behavior \<Rightarrow> (hash_set_result \<times> 'a hash_table) result" where
  "try_set tr t value existing_entry_behavior =
     result_bind (if should_grow t then try_rehash tr t (m_capacity t * (100 + 60) div 100) else Inr t)
       (\<lambda>t. write_value tr t value existing_entry_behavior)"

subsection \<open>Removing\<close>

fun shift_up :: "'a traits \<Rightarrow> nat \<Rightarrow> 'a bucket option list \<Rightarrow> nat \<Rightarrow> 'a bucket option list result" where
  "shift_up tr 0 bs shift_to_index = Inl Endless_loop"
| "shift_up tr (Suc n) bs shift_to_index =
     (let shift_from_index = next_bucket (length bs) shift_to_index
      in case bs ! shift_from_index of
           None \<Rightarrow> Inr (bs[shift_to_index := None])
         | Some b \<Rightarrow>
             let shift_from_probe_length = used_bucket_probe_length tr (length bs) shift_from_index b
             in if shift_from_probe_length = 0 then Inr (bs[shift_to_index := None])
                else shift_up tr n
                       (bs[shift_to_index :=
                             Some (b\<lparr> bucket_state := bucket_state_for_probe_length (shift_from_probe_length - 1) \<rparr>)])
                       shift_from_index)"

definition delete_bucket :: "'a traits \<Rightarrow> 'a hash_table \<Rightarrow> nat \<Rightarrow> 'a hash_table result" where
  "delete_bucket tr t bucket_index =
     (if m_buckets t ! bucket_index = None then Inl Assertion_failed
      else result_bind (shift_up tr (m_capacity t) (m_buckets t) bucket_index)
             (\<lambda>bs. Inr \<lparr> m_buckets = bs, m_size = m_size t - 1 \<rparr>))"

definition table_remove :: "'a traits \<Rightarrow> 'a hash_table \<Rightarrow> 'a \<Rightarrow> (bool \<times> 'a hash_table) result" where
  "table_remove tr t value =
     result_bind (table_find tr t value) (\<lambda>it. case it of
         Some bucket_index \<Rightarrow> result_bind (delete_bucket tr t bucket_index) (\<lambda>t. Inr (True, t))
       | None \<Rightarrow> Inr (False, t))"

text \<open>
  The loop of \<^verbatim>\<open>take_all_matching\<close>.  A step moves to the next bucket or removes one, so that capacity and
  size bound the number of steps.
\<close>

fun take_loop ::
    "'a traits \<Rightarrow> ('a \<Rightarrow> bool) \<Rightarrow> nat \<Rightarrow> 'a hash_table \<Rightarrow> nat \<Rightarrow> 'a list \<Rightarrow> ('a list \<times> 'a hash_table) result" where
  "take_loop tr predicate 0 t i values = Inl Endless_loop"
| "take_loop tr predicate (Suc n) t i values =
     (if \<not> i < m_capacity t then Inr (values, t)
      else case m_buckets t ! i of
             None \<Rightarrow> take_loop tr predicate n t (i + 1) values
           | Some b \<Rightarrow>
               if \<not> predicate (slot b) then take_loop tr predicate n t (i + 1) values
               else result_bind (delete_bucket tr t i) (\<lambda>t.
                      take_loop tr predicate n t (if m_buckets t ! i \<noteq> None then i else i + 1) (values @ [slot b])))"

definition take_all_matching :: "'a traits \<Rightarrow> 'a hash_table \<Rightarrow> ('a \<Rightarrow> bool) \<Rightarrow> ('a list \<times> 'a hash_table) result" where
  "take_all_matching tr t predicate = take_loop tr predicate (m_capacity t + m_size t + 1) t 0 []"

text \<open>\<^verbatim>\<open>remove_all_matching\<close> runs the same loop and keeps a flag in the place of the values.\<close>

definition remove_all_matching :: "'a traits \<Rightarrow> 'a hash_table \<Rightarrow> ('a \<Rightarrow> bool) \<Rightarrow> (bool \<times> 'a hash_table) result" where
  "remove_all_matching tr t predicate =
     result_bind (take_all_matching tr t predicate) (\<lambda>(values, t). Inr (values \<noteq> [], t))"

definition clear_with_capacity :: "'a hash_table \<Rightarrow> 'a hash_table" where
  "clear_with_capacity t =
     (if m_capacity t = 0 then t else \<lparr> m_buckets = replicate (m_capacity t) None, m_size = 0 \<rparr>)"

subsection \<open>Distances around the table\<close>

lemma next_bucket_less [simp]: "i < n \<Longrightarrow> next_bucket n i < n"
  by (auto simp: next_bucket_def)

lemma probe_distance_less [simp]: "\<lbrakk> i < n; j < n \<rbrakk> \<Longrightarrow> probe_distance n i j < n"
  by (auto simp: probe_distance_def)

lemma probe_distance_0 [simp]: "\<lbrakk> i < n; j < n \<rbrakk> \<Longrightarrow> probe_distance n i j = 0 \<longleftrightarrow> i = j"
  by (auto simp: probe_distance_def)

lemma probe_distance_self [simp]: "probe_distance n i i = 0"
  by (simp add: probe_distance_def)

lemma probe_distance_next:
  "\<lbrakk> i < n; j < n \<rbrakk> \<Longrightarrow> probe_distance n (next_bucket n i) j = (if next_bucket n i = j then 0 else Suc (probe_distance n i j))"
  by (auto simp: probe_distance_def next_bucket_def)

lemma probe_distance_from_next:
  "\<lbrakk> i < n; j < n; i \<noteq> j \<rbrakk> \<Longrightarrow> probe_distance n i j = Suc (probe_distance n i (next_bucket n j))"
  by (auto simp: probe_distance_def next_bucket_def)

lemma probe_distance_to_next: "i < n \<Longrightarrow> probe_distance n i (next_bucket n i) = n - 1"
  by (auto simp: probe_distance_def next_bucket_def)

lemma next_bucket_inject [simp]: "\<lbrakk> i < n; j < n \<rbrakk> \<Longrightarrow> next_bucket n i = next_bucket n j \<longleftrightarrow> i = j"
  by (auto simp: next_bucket_def split: if_splits)

lemma next_bucket_surj:
  assumes "j < n"
  obtains i where "i < n" "next_bucket n i = j"
proof (cases j)
  case 0
  with assms show ?thesis by (intro that [of "n - 1"]) (auto simp: next_bucket_def)
next
  case (Suc k)
  with assms show ?thesis by (intro that [of k]) (auto simp: next_bucket_def)
qed

lemma next_bucket_neq: "\<lbrakk> i < n; 2 \<le> n \<rbrakk> \<Longrightarrow> next_bucket n i \<noteq> i"
  by (auto simp: next_bucket_def)

subsection \<open>The layout of the buckets\<close>

definition ideal_index :: "'a traits \<Rightarrow> nat \<Rightarrow> 'a \<Rightarrow> nat" where
  "ideal_index tr capacity v = unat (traits_hash tr v) mod capacity"

definition probe_length_at :: "'a traits \<Rightarrow> nat \<Rightarrow> nat \<Rightarrow> 'a \<Rightarrow> nat" where
  "probe_length_at tr capacity i v = probe_distance capacity i (ideal_index tr capacity v)"

definition bucket_ok :: "'a traits \<Rightarrow> nat \<Rightarrow> nat \<Rightarrow> 'a bucket \<Rightarrow> bool" where
  "bucket_ok tr capacity i b \<longleftrightarrow> stored_hash b = traits_hash tr (slot b)
     \<and> bucket_state b = bucket_state_for_probe_length (probe_length_at tr capacity i (slot b))"

text \<open>
  The Robin Hood order: a bucket that is not at its ideal index follows one that is at least as far, less
  one, from its own.
\<close>

definition robin_hood :: "'a traits \<Rightarrow> 'a bucket option list \<Rightarrow> bool" where
  "robin_hood tr bs \<longleftrightarrow> (\<forall>i < length bs. \<forall>b. bs ! next_bucket (length bs) i = Some b
     \<longrightarrow> 0 < probe_length_at tr (length bs) (next_bucket (length bs) i) (slot b)
     \<longrightarrow> (\<exists>c. bs ! i = Some c \<and> probe_length_at tr (length bs) (next_bucket (length bs) i) (slot b)
            \<le> Suc (probe_length_at tr (length bs) i (slot c))))"

definition layout_ok :: "'a traits \<Rightarrow> 'a bucket option list \<Rightarrow> bool" where
  "layout_ok tr bs \<longleftrightarrow> 2 \<le> length bs
     \<and> (\<forall>i < length bs. \<forall>b. bs ! i = Some b \<longrightarrow> bucket_ok tr (length bs) i b) \<and> robin_hood tr bs"

lemma ideal_index_less [simp]: "0 < n \<Longrightarrow> ideal_index tr n v < n"
  by (simp add: ideal_index_def)

lemma probe_length_at_less [simp]: "i < n \<Longrightarrow> probe_length_at tr n i v < n"
  by (simp add: probe_length_at_def)

lemma used_bucket_probe_length_eq:
  "bucket_ok tr n i b \<Longrightarrow> used_bucket_probe_length tr n i b = probe_length_at tr n i (slot b)"
  by (auto simp: used_bucket_probe_length_def bucket_ok_def bucket_state_for_probe_length_def probe_length_at_def ideal_index_def)

lemma layout_probe_length:
  "\<lbrakk> layout_ok tr bs; i < length bs; bs ! i = Some b \<rbrakk>
    \<Longrightarrow> used_bucket_probe_length tr (length bs) i b = probe_length_at tr (length bs) i (slot b)"
  by (simp add: layout_ok_def used_bucket_probe_length_eq)

lemma hash_check_eq: "bucket_ok tr n i b \<Longrightarrow> hash_check tr b (traits_hash tr (slot b))"
  by (simp add: bucket_ok_def hash_check_def)

text \<open>Every bucket between the ideal index of a value and its bucket is used, by values no nearer to theirs.\<close>

lemma robin_hood_back:
  assumes "robin_hood tr bs" "i < length bs" "bs ! i = Some b"
  shows "\<lbrakk> j < length bs; probe_distance (length bs) i j = k; k \<le> probe_length_at tr (length bs) i (slot b) \<rbrakk>
    \<Longrightarrow> \<exists>c. bs ! j = Some c \<and> probe_length_at tr (length bs) i (slot b) \<le> probe_length_at tr (length bs) j (slot c) + k"
proof (induction k arbitrary: j)
  case 0
  then show ?case using assms by simp
next
  case (Suc k)
  let ?n = "length bs"
  have "i \<noteq> j" using Suc.prems by auto
  then have "probe_distance ?n i (next_bucket ?n j) = k"
    using probe_distance_from_next [of i ?n j] Suc.prems assms(2) by simp
  then obtain c where c: "bs ! next_bucket ?n j = Some c"
    "probe_length_at tr ?n i (slot b) \<le> probe_length_at tr ?n (next_bucket ?n j) (slot c) + k"
    using Suc.IH [of "next_bucket ?n j"] Suc.prems by auto
  then have "0 < probe_length_at tr ?n (next_bucket ?n j) (slot c)" using Suc.prems(3) by linarith
  then obtain d where "bs ! j = Some d"
    "probe_length_at tr ?n (next_bucket ?n j) (slot c) \<le> Suc (probe_length_at tr ?n j (slot d))"
    using assms(1) c(1) Suc.prems(1) by (auto simp: robin_hood_def)
  with c(2) show ?case by auto
qed

lemma robin_hoodI:
  assumes "\<And>i b. \<lbrakk> i < length bs; bs ! next_bucket (length bs) i = Some b;
      0 < probe_length_at tr (length bs) (next_bucket (length bs) i) (slot b) \<rbrakk>
    \<Longrightarrow> \<exists>c. bs ! i = Some c \<and> probe_length_at tr (length bs) (next_bucket (length bs) i) (slot b)
          \<le> Suc (probe_length_at tr (length bs) i (slot c))"
  shows "robin_hood tr bs"
  using assms by (auto simp: robin_hood_def)

lemma robin_hoodD:
  assumes "robin_hood tr bs" "i < length bs" "bs ! next_bucket (length bs) i = Some b"
    "0 < probe_length_at tr (length bs) (next_bucket (length bs) i) (slot b)"
  shows "\<exists>c. bs ! i = Some c \<and> probe_length_at tr (length bs) (next_bucket (length bs) i) (slot b)
          \<le> Suc (probe_length_at tr (length bs) i (slot c))"
  using assms by (auto simp: robin_hood_def)

text \<open>
  A bucket may be written where the bucket before it is far enough from its ideal index, if the new one is
  no nearer to its own than what it replaces.
\<close>

lemma robin_hood_update:
  assumes "robin_hood tr bs" "2 \<le> length bs" "i < length bs"
    and before: "\<And>j. \<lbrakk> j < length bs; next_bucket (length bs) j = i; 0 < probe_length_at tr (length bs) i (slot b) \<rbrakk>
      \<Longrightarrow> \<exists>c. bs ! j = Some c \<and> probe_length_at tr (length bs) i (slot b) \<le> Suc (probe_length_at tr (length bs) j (slot c))"
    and farther: "\<And>c. bs ! i = Some c \<Longrightarrow> probe_length_at tr (length bs) i (slot c) \<le> probe_length_at tr (length bs) i (slot b)"
  shows "robin_hood tr (bs[i := Some b])"
proof (rule robin_hoodI)
  let ?n = "length bs" and ?bs = "bs[i := Some b]"
  fix j c
  assume j: "j < length ?bs" and c: "?bs ! next_bucket (length ?bs) j = Some c"
    and pos: "0 < probe_length_at tr (length ?bs) (next_bucket (length ?bs) j) (slot c)"
  have neq: "next_bucket ?n j \<noteq> j" using j assms(2) by (simp add: next_bucket_neq)
  show "\<exists>d. ?bs ! j = Some d \<and> probe_length_at tr (length ?bs) (next_bucket (length ?bs) j) (slot c)
          \<le> Suc (probe_length_at tr (length ?bs) j (slot d))"
  proof (cases "next_bucket ?n j = i")
    case True
    then show ?thesis using before [of j] j c pos neq assms(3) by auto
  next
    case False
    then have "bs ! next_bucket ?n j = Some c" using c by simp
    then obtain d where d: "bs ! j = Some d"
      "probe_length_at tr ?n (next_bucket ?n j) (slot c) \<le> Suc (probe_length_at tr ?n j (slot d))"
      using robin_hoodD [OF assms(1), of j c] j pos by auto
    show ?thesis
    proof (cases "j = i")
      case True
      then show ?thesis using d farther [of d] assms(3) by auto
    next
      case False
      then show ?thesis using d by auto
    qed
  qed
qed

lemma layout_update:
  assumes "layout_ok tr bs" "i < length bs" "bucket_ok tr (length bs) i b"
    and "\<And>j. \<lbrakk> j < length bs; next_bucket (length bs) j = i; 0 < probe_length_at tr (length bs) i (slot b) \<rbrakk>
      \<Longrightarrow> \<exists>c. bs ! j = Some c \<and> probe_length_at tr (length bs) i (slot b) \<le> Suc (probe_length_at tr (length bs) j (slot c))"
    and "\<And>c. bs ! i = Some c \<Longrightarrow> probe_length_at tr (length bs) i (slot c) \<le> probe_length_at tr (length bs) i (slot b)"
  shows "layout_ok tr (bs[i := Some b])"
  using assms robin_hood_update [of tr bs i b] by (auto simp: layout_ok_def nth_list_update)

subsection \<open>The values as a multiset\<close>

definition elems :: "'a bucket option list \<Rightarrow> 'a multiset" where
  "elems bs = mset (used_slots bs)"

lemma used_slots_simps [simp]:
  "used_slots [] = []" "used_slots (None # bs) = used_slots bs" "used_slots (Some b # bs) = slot b # used_slots bs"
  "used_slots (xs @ ys) = used_slots xs @ used_slots ys"
  by (simp_all add: used_slots_def)

lemma used_slots_replicate [simp]: "used_slots (replicate n None) = []"
  by (induction n) simp_all

lemma elems_split:
  assumes "i < length bs"
  shows "elems (bs[i := x]) = (case x of None \<Rightarrow> {#} | Some b \<Rightarrow> {#slot b#}) + elems (take i bs) + elems (drop (Suc i) bs)"
  using assms by (subst upd_conv_take_nth_drop) (auto simp: elems_def split: option.splits)

lemma elems_update:
  assumes "i < length bs"
  shows "elems (bs[i := x]) + (case bs ! i of None \<Rightarrow> {#} | Some b \<Rightarrow> {#slot b#})
       = elems bs + (case x of None \<Rightarrow> {#} | Some b \<Rightarrow> {#slot b#})"
  using elems_split [OF assms, of x] elems_split [OF assms, of "bs ! i"] by (simp add: ac_simps)

lemma elems_insert: "\<lbrakk> i < length bs; bs ! i = None \<rbrakk> \<Longrightarrow> elems (bs[i := Some b]) = add_mset (slot b) (elems bs)"
  using elems_update [of i bs "Some b"] by simp

lemma elems_replace:
  "\<lbrakk> i < length bs; bs ! i = Some c \<rbrakk> \<Longrightarrow> add_mset (slot c) (elems (bs[i := Some b])) = add_mset (slot b) (elems bs)"
  using elems_update [of i bs "Some b"] by simp

lemma elems_clear: "\<lbrakk> i < length bs; bs ! i = Some c \<rbrakk> \<Longrightarrow> add_mset (slot c) (elems (bs[i := None])) = elems bs"
  using elems_update [of i bs None] by simp

lemma elems_memI: "\<lbrakk> i < length bs; bs ! i = Some b \<rbrakk> \<Longrightarrow> slot b \<in># elems bs"
  using elems_clear [of i bs b] by (metis union_single_eq_member)

lemma elems_memE:
  assumes "v \<in># elems bs"
  obtains i b where "i < length bs" "bs ! i = Some b" "slot b = v"
  using assms by (auto simp: elems_def used_slots_def in_set_conv_nth)

subsection \<open>Writing keeps the layout\<close>

lemma probe_distance_diff:
  "\<lbrakk> i < n; j < n; h < n; probe_distance n i h \<le> probe_distance n j h \<rbrakk>
    \<Longrightarrow> probe_distance n j i = probe_distance n j h - probe_distance n i h"
  by (auto simp: probe_distance_def split: if_splits)

lemma probe_advance:
  assumes "layout_ok tr bs" "i < length bs" "bs ! i = Some c" "f < length bs" "bs ! f = None"
    and "probe_length_at tr (length bs) i v \<le> probe_length_at tr (length bs) i (slot c)"
  shows "probe_length_at tr (length bs) (next_bucket (length bs) i) v = Suc (probe_length_at tr (length bs) i v)"
proof -
  let ?n = "length bs"
  have "next_bucket ?n i \<noteq> ideal_index tr ?n v"
  proof
    assume "next_bucket ?n i = ideal_index tr ?n v"
    then have "?n - 1 \<le> probe_length_at tr ?n i (slot c)"
      using assms(2,6) probe_distance_to_next [of i ?n] by (simp add: probe_length_at_def)
    moreover have "probe_distance ?n i f < ?n" using assms by simp
    ultimately have "probe_distance ?n i f \<le> probe_length_at tr ?n i (slot c)" by linarith
    then show False
      using robin_hood_back [of tr bs i c f] assms(1-5) by (auto simp: layout_ok_def)
  qed
  moreover have "0 < ?n" using assms(2) by linarith
  ultimately show ?thesis using assms(2) probe_distance_next [of i ?n] by (simp add: probe_length_at_def)
qed

lemma place_displaced_ok:
  "\<lbrakk> layout_ok tr bs; i < length bs; bs ! i = Some c; f < length bs; bs ! f = None;
     p = probe_length_at tr (length bs) i (slot b); p \<le> probe_length_at tr (length bs) i (slot c);
     stored_hash b = traits_hash tr (slot b); probe_distance (length bs) f i \<le> fuel \<rbrakk>
   \<Longrightarrow> \<exists>bs'. place_displaced tr fuel bs i p b = Inr bs' \<and> layout_ok tr bs' \<and> length bs' = length bs
        \<and> elems bs' = add_mset (slot b) (elems bs)"
proof (induction fuel arbitrary: bs i p b c)
  case 0
  then show ?case by auto
next
  case (Suc fuel)
  let ?n = "length bs" and ?i = "next_bucket (length bs) i"
  let ?moved = "b\<lparr> bucket_state := bucket_state_for_probe_length (p + 1) \<rparr>"
  have neq: "f \<noteq> i" using Suc.prems by auto
  have advance: "probe_length_at tr ?n ?i (slot b) = Suc p"
    using probe_advance [of tr bs i c f "slot b"] Suc.prems by simp
  have i: "?i < ?n" using Suc.prems by simp
  have fuel: "probe_distance ?n f ?i \<le> fuel"
    using probe_distance_from_next [of f ?n i] neq Suc.prems by simp
  have moved: "bucket_ok tr ?n ?i ?moved" using advance Suc.prems by (simp add: bucket_ok_def)
  have before: "\<exists>d. bs ! j = Some d \<and> probe_length_at tr ?n ?i (slot ?moved) \<le> Suc (probe_length_at tr ?n j (slot d))"
    if "j < ?n" "next_bucket ?n j = ?i" for j
    using that Suc.prems advance by auto
  show ?case
  proof (cases "bs ! ?i")
    case None
    then have "layout_ok tr (bs[?i := Some ?moved])"
      using layout_update [OF Suc.prems(1) i moved] before by simp
    with None i show ?thesis by (simp add: Let_def elems_insert)
  next
    case (Some d)
    have t: "used_bucket_probe_length tr ?n ?i d = probe_length_at tr ?n ?i (slot d)"
      using layout_probe_length Suc.prems(1) i Some by blast
    show ?thesis
    proof (cases "p + 1 > probe_length_at tr ?n ?i (slot d)")
      case True
      let ?bs = "bs[?i := Some ?moved]"
      have "layout_ok tr ?bs"
        using layout_update [OF Suc.prems(1) i moved] before Some True advance by simp
      moreover have "?bs ! f = None" "?bs ! ?i = Some ?moved"
        using Some Suc.prems(5) i by (auto simp: nth_list_update)
      moreover have "stored_hash d = traits_hash tr (slot d)"
        using Suc.prems(1) i Some by (simp add: layout_ok_def bucket_ok_def)
      ultimately obtain bs' where bs': "place_displaced tr fuel ?bs ?i (probe_length_at tr ?n ?i (slot d)) d = Inr bs'"
        "layout_ok tr bs'" "length bs' = ?n" "elems bs' = add_mset (slot d) (elems ?bs)"
        using Suc.IH [of ?bs ?i ?moved "probe_length_at tr ?n ?i (slot d)" d] Suc.prems(4) i fuel True advance by auto
      moreover have "add_mset (slot d) (elems ?bs) = add_mset (slot b) (elems bs)"
        using elems_replace [OF i Some, of ?moved] by simp
      ultimately show ?thesis using Some True t by (simp add: Let_def)
    next
      case False
      then obtain bs' where "place_displaced tr fuel bs ?i (p + 1) b = Inr bs'"
        "layout_ok tr bs'" "length bs' = ?n" "elems bs' = add_mset (slot b) (elems bs)"
        using Suc.IH [of bs ?i d "p + 1" b] Suc.prems i Some advance fuel by auto
      with False Some t show ?thesis by (simp add: Let_def)
    qed
  qed
qed

lemma layout_replace:
  assumes "layout_ok tr bs" "i < length bs" "bs ! i = Some b" "traits_hash tr v = traits_hash tr (slot b)"
  shows "layout_ok tr (bs[i := Some (b\<lparr> slot := v \<rparr>)])"
proof -
  let ?n = "length bs"
  have same: "probe_length_at tr ?n i v = probe_length_at tr ?n i (slot b)"
    by (simp add: probe_length_at_def ideal_index_def assms(4))
  have "bucket_ok tr ?n i b" using assms(1,2,3) by (simp add: layout_ok_def)
  then have ok: "bucket_ok tr ?n i (b\<lparr> slot := v \<rparr>)" using assms(4) same by (simp add: bucket_ok_def)
  have rh: "robin_hood tr bs" using assms(1) by (simp add: layout_ok_def)
  have before: "\<exists>c. bs ! j = Some c \<and> probe_length_at tr ?n i (slot b) \<le> Suc (probe_length_at tr ?n j (slot c))"
    if "j < ?n" "next_bucket ?n j = i" "0 < probe_length_at tr ?n i (slot b)" for j
    using robin_hoodD [OF rh that(1), of b] that(2,3) assms(3) by simp
  show ?thesis
    by (rule layout_update [OF assms(1,2) ok]) (simp_all add: same before assms(3))
qed

text \<open>A value that the probing has not met before a free bucket, or before one nearer to its ideal index, is not in the table.\<close>

lemma probing_misses:
  assumes "layout_ok tr bs" "i < length bs" "x \<in># elems bs" "traits_hash tr x = traits_hash tr v"
    and visited: "\<And>j b. \<lbrakk> j < length bs; bs ! j = Some b; probe_length_at tr (length bs) j v < probe_length_at tr (length bs) i v \<rbrakk>
      \<Longrightarrow> slot b \<noteq> x"
  shows "\<exists>b. bs ! i = Some b \<and> probe_length_at tr (length bs) i v \<le> probe_length_at tr (length bs) i (slot b)"
proof -
  let ?n = "length bs"
  obtain j b where j: "j < ?n" "bs ! j = Some b" "slot b = x" using assms(3) by (rule elems_memE)
  have same: "probe_length_at tr ?n k x = probe_length_at tr ?n k v" for k
    by (simp add: probe_length_at_def ideal_index_def assms(4))
  have le: "probe_length_at tr ?n i v \<le> probe_length_at tr ?n j v" using visited [OF j(1,2)] j(3) by force
  have ideal: "ideal_index tr ?n v < ?n" using assms(2) by (intro ideal_index_less) linarith
  have "probe_distance ?n j i = probe_length_at tr ?n j v - probe_length_at tr ?n i v"
    using probe_distance_diff [OF assms(2) j(1) ideal] le by (simp add: probe_length_at_def)
  with robin_hood_back [of tr bs j b i] assms(1,2) j same le show ?thesis by (auto simp: layout_ok_def)
qed

text \<open>
  The search for a place: \<open>found\<close> is where a value with the predicate is, if there is one.
\<close>

lemma lookup_for_writing_ok:
  assumes layout: "layout_ok tr bs" and f: "f < length bs" "bs ! f = None"
    and hash: "traits_hash tr v = h" "\<And>x. \<lbrakk> x \<in># elems bs; predicate x \<rbrakk> \<Longrightarrow> traits_hash tr x = h"
  shows "\<lbrakk> i < length bs; p = probe_length_at tr (length bs) i v; probe_distance (length bs) f i < fuel;
      \<And>j. \<lbrakk> j < length bs; next_bucket (length bs) j = i; 0 < p \<rbrakk>
        \<Longrightarrow> \<exists>c. bs ! j = Some c \<and> p \<le> Suc (probe_length_at tr (length bs) j (slot c));
      \<And>j b. \<lbrakk> j < length bs; bs ! j = Some b; probe_length_at tr (length bs) j v < p \<rbrakk> \<Longrightarrow> \<not> predicate (slot b) \<rbrakk>
    \<Longrightarrow> (\<exists>j b. j < length bs \<and> bs ! j = Some b \<and> predicate (slot b)
            \<and> lookup_for_writing tr predicate h v behavior fuel bs i p =
                Inr (if behavior = Replace_Entry then (ReplacedExistingEntry, bs[j := Some (b\<lparr> slot := v \<rparr>)])
                     else (KeptExistingEntry, bs)))
        \<or> (\<forall>x \<in># elems bs. \<not> predicate x)
          \<and> (\<exists>bs'. lookup_for_writing tr predicate h v behavior fuel bs i p = Inr (InsertedNewEntry, bs')
               \<and> layout_ok tr bs' \<and> length bs' = length bs \<and> elems bs' = add_mset v (elems bs))"
proof (induction fuel arbitrary: i p)
  case 0
  then show ?case by simp
next
  case (Suc fuel)
  let ?n = "length bs"
  let ?new = "\<lparr> bucket_state = bucket_state_for_probe_length p, stored_hash = h, slot = v \<rparr>"
  note i = Suc.prems(1) and p = Suc.prems(2)
  have new: "bucket_ok tr ?n i ?new" using p hash(1) by (simp add: bucket_ok_def)
  have before: "\<exists>c. bs ! j = Some c \<and> probe_length_at tr ?n i (slot ?new) \<le> Suc (probe_length_at tr ?n j (slot c))"
    if "j < ?n" "next_bucket ?n j = i" "0 < probe_length_at tr ?n i (slot ?new)" for j
    using Suc.prems(4) [of j] that p by simp
  have misses: "\<exists>b. bs ! i = Some b \<and> p \<le> probe_length_at tr ?n i (slot b)" if "x \<in># elems bs" "predicate x" for x
    using probing_misses [OF layout i that(1), of v] Suc.prems(5) that hash p by metis
  show ?case
  proof (cases "bs ! i")
    case None
    then have "\<forall>x \<in># elems bs. \<not> predicate x" using misses by fastforce
    moreover have "layout_ok tr (bs[i := Some ?new])"
      using layout_update [OF layout i new before] None by simp
    ultimately show ?thesis using None i by (simp add: elems_insert)
  next
    case (Some b)
    have b: "bucket_ok tr ?n i b" "slot b \<in># elems bs"
      using layout i Some by (simp_all add: layout_ok_def elems_memI)
    have t: "used_bucket_probe_length tr ?n i b = probe_length_at tr ?n i (slot b)"
      using b(1) by (rule used_bucket_probe_length_eq)
    have check: "hash_check tr b h \<and> predicate (slot b) \<longleftrightarrow> predicate (slot b)"
      using hash(2) [OF b(2)] hash_check_eq [OF b(1)] by auto
    consider "predicate (slot b)" | "\<not> predicate (slot b)" "p > probe_length_at tr ?n i (slot b)"
      | "\<not> predicate (slot b)" "p \<le> probe_length_at tr ?n i (slot b)" by force
    then show ?thesis
    proof cases
      case 1
      then have "lookup_for_writing tr predicate h v behavior (Suc fuel) bs i p =
          Inr (if behavior = Replace_Entry then (ReplacedExistingEntry, bs[i := Some (b\<lparr> slot := v \<rparr>)])
               else (KeptExistingEntry, bs))" using Some check by simp
      with 1 i Some show ?thesis by blast
    next
      case 2
      let ?bs = "bs[i := Some ?new]"
      have "layout_ok tr ?bs"
        by (rule layout_update [OF layout i new]) (use before Some 2(2) p in force)+
      moreover have "?bs ! i = Some ?new" "?bs ! f = None" using i f Some by (auto simp: nth_list_update)
      moreover have "stored_hash b = traits_hash tr (slot b)" using b(1) by (simp add: bucket_ok_def)
      ultimately obtain bs' where bs': "place_displaced tr fuel ?bs i (probe_length_at tr ?n i (slot b)) b = Inr bs'"
        "layout_ok tr bs'" "length bs' = ?n" "elems bs' = add_mset (slot b) (elems ?bs)"
        using place_displaced_ok [of tr ?bs i ?new f "probe_length_at tr ?n i (slot b)" b fuel] i f p 2(2) Suc.prems(3) by auto
      have "elems bs' = add_mset v (elems bs)" using bs'(4) elems_replace [OF i Some, of ?new] by simp
      moreover have "\<forall>x \<in># elems bs. \<not> predicate x" using misses Some 2(2) by fastforce
      moreover have "lookup_for_writing tr predicate h v behavior (Suc fuel) bs i p = Inr (InsertedNewEntry, bs')"
        using Some check 2 t bs'(1) by simp
      ultimately show ?thesis using bs' by blast
    next
      case 3
      let ?i = "next_bucket ?n i"
      have neq: "f \<noteq> i" using f Some by auto
      have advance: "p + 1 = probe_length_at tr ?n ?i v"
        using probe_advance [OF layout i Some f, of v] 3 p by simp
      have "probe_distance ?n f ?i < fuel"
        using probe_distance_from_next [OF f(1) i neq] Suc.prems(3) by simp
      moreover have "\<exists>c. bs ! j = Some c \<and> p + 1 \<le> Suc (probe_length_at tr ?n j (slot c))"
        if "j < ?n" "next_bucket ?n j = ?i" for j using that i Some 3(2) by simp
      moreover have "\<not> predicate (slot c)"
        if "j < ?n" "bs ! j = Some c" "probe_length_at tr ?n j v < p + 1" for j c
      proof (cases "j = i")
        case True
        then show ?thesis using that Some 3 by simp
      next
        case False
        have ideal: "ideal_index tr ?n v < ?n" using i by (intro ideal_index_less) linarith
        have "probe_length_at tr ?n j v \<noteq> p"
          using probe_distance_diff [OF i that(1) ideal] False i that(1) p by (auto simp: probe_length_at_def)
        then show ?thesis using Suc.prems(5) that by simp
      qed
      moreover have "lookup_for_writing tr predicate h v behavior (Suc fuel) bs i p
          = lookup_for_writing tr predicate h v behavior fuel bs ?i (p + 1)"
        using Some check 3 t by simp
      ultimately show ?thesis using Suc.IH [of ?i "p + 1"] i advance by simp
    qed
  qed
qed

lemma lookup_loop_ok:
  assumes layout: "layout_ok tr bs" and f: "f < length bs" "bs ! f = None"
    and hash: "traits_hash tr v = h" "\<And>x. \<lbrakk> x \<in># elems bs; predicate x \<rbrakk> \<Longrightarrow> traits_hash tr x = h"
  shows "\<lbrakk> i < length bs; probe_distance (length bs) f i < fuel;
      \<And>j b. \<lbrakk> j < length bs; bs ! j = Some b; probe_length_at tr (length bs) j v < probe_length_at tr (length bs) i v \<rbrakk>
        \<Longrightarrow> \<not> predicate (slot b) \<rbrakk>
    \<Longrightarrow> (\<exists>j b. j < length bs \<and> bs ! j = Some b \<and> predicate (slot b) \<and> lookup_loop tr predicate h bs fuel i = Inr (Some j))
        \<or> (\<forall>x \<in># elems bs. \<not> predicate x) \<and> lookup_loop tr predicate h bs fuel i = Inr None"
proof (induction fuel arbitrary: i)
  case 0
  then show ?case by simp
next
  case (Suc fuel)
  let ?n = "length bs"
  note i = Suc.prems(1)
  show ?case
  proof (cases "bs ! i")
    case None
    have "\<exists>b. bs ! i = Some b" if "x \<in># elems bs" "predicate x" for x
      using probing_misses [OF layout i that(1), of v] Suc.prems(3) that hash by metis
    with None show ?thesis by auto
  next
    case (Some b)
    have b: "bucket_ok tr ?n i b" "slot b \<in># elems bs"
      using layout i Some by (simp_all add: layout_ok_def elems_memI)
    have check: "hash_check tr b h \<and> predicate (slot b) \<longleftrightarrow> predicate (slot b)"
      using hash(2) [OF b(2)] hash_check_eq [OF b(1)] by auto
    show ?thesis
    proof (cases "predicate (slot b)")
      case True
      with Some check i show ?thesis by auto
    next
      case False
      let ?i = "next_bucket ?n i"
      have neq: "f \<noteq> i" using f Some by auto
      have ideal: "ideal_index tr ?n v < ?n" using i by (intro ideal_index_less) linarith
      have le: "probe_length_at tr ?n ?i v \<le> Suc (probe_length_at tr ?n i v)"
        using probe_distance_next [OF i ideal] by (simp add: probe_length_at_def)
      have "probe_distance ?n f ?i < fuel"
        using probe_distance_from_next [OF f(1) i neq] Suc.prems(2) by simp
      moreover have "\<not> predicate (slot c)"
        if "j < ?n" "bs ! j = Some c" "probe_length_at tr ?n j v < probe_length_at tr ?n ?i v" for j c
      proof (cases "j = i")
        case True
        then show ?thesis using that Some False by simp
      next
        case j: False
        have "probe_length_at tr ?n j v \<noteq> probe_length_at tr ?n i v"
          using probe_distance_diff [OF i that(1) ideal] j i that(1) by (auto simp: probe_length_at_def)
        then show ?thesis using Suc.prems(3) [of j c] that le by simp
      qed
      ultimately show ?thesis using Suc.IH [of ?i] i Some check False by simp
    qed
  qed
qed

subsection \<open>Removing keeps the layout\<close>

text \<open>
  While buckets are shifted, one bucket is a hole, whatever it holds.  It stands for a bucket with probe
  length \<open>r\<close>.
\<close>

definition hole_ok :: "'a traits \<Rightarrow> 'a bucket option list \<Rightarrow> nat \<Rightarrow> nat \<Rightarrow> bool" where
  "hole_ok tr bs i r \<longleftrightarrow> 2 \<le> length bs \<and> i < length bs
     \<and> (\<forall>j < length bs. \<forall>b. j \<noteq> i \<longrightarrow> bs ! j = Some b \<longrightarrow> bucket_ok tr (length bs) j b)
     \<and> (\<forall>j < length bs. \<forall>b. j \<noteq> i \<longrightarrow> next_bucket (length bs) j \<noteq> i \<longrightarrow> bs ! next_bucket (length bs) j = Some b
         \<longrightarrow> 0 < probe_length_at tr (length bs) (next_bucket (length bs) j) (slot b)
         \<longrightarrow> (\<exists>c. bs ! j = Some c \<and> probe_length_at tr (length bs) (next_bucket (length bs) j) (slot b)
                \<le> Suc (probe_length_at tr (length bs) j (slot c))))
     \<and> (\<forall>j < length bs. next_bucket (length bs) j = i \<longrightarrow> 0 < r
         \<longrightarrow> (\<exists>c. bs ! j = Some c \<and> r \<le> Suc (probe_length_at tr (length bs) j (slot c))))
     \<and> (\<forall>b. bs ! next_bucket (length bs) i = Some b
         \<longrightarrow> 0 < probe_length_at tr (length bs) (next_bucket (length bs) i) (slot b)
         \<longrightarrow> probe_length_at tr (length bs) (next_bucket (length bs) i) (slot b) \<le> Suc r)"

lemma hole_okD:
  assumes "hole_ok tr bs i r"
  shows "2 \<le> length bs" "i < length bs"
    and "\<And>j b. \<lbrakk> j < length bs; j \<noteq> i; bs ! j = Some b \<rbrakk> \<Longrightarrow> bucket_ok tr (length bs) j b"
    and "\<And>j b. \<lbrakk> j < length bs; j \<noteq> i; next_bucket (length bs) j \<noteq> i; bs ! next_bucket (length bs) j = Some b;
        0 < probe_length_at tr (length bs) (next_bucket (length bs) j) (slot b) \<rbrakk>
      \<Longrightarrow> \<exists>c. bs ! j = Some c \<and> probe_length_at tr (length bs) (next_bucket (length bs) j) (slot b)
            \<le> Suc (probe_length_at tr (length bs) j (slot c))"
    and "\<And>j. \<lbrakk> j < length bs; next_bucket (length bs) j = i; 0 < r \<rbrakk>
      \<Longrightarrow> \<exists>c. bs ! j = Some c \<and> r \<le> Suc (probe_length_at tr (length bs) j (slot c))"
    and "\<And>b. \<lbrakk> bs ! next_bucket (length bs) i = Some b;
        0 < probe_length_at tr (length bs) (next_bucket (length bs) i) (slot b) \<rbrakk>
      \<Longrightarrow> probe_length_at tr (length bs) (next_bucket (length bs) i) (slot b) \<le> Suc r"
  using assms unfolding hole_ok_def by blast+

lemma hole_of_layout:
  assumes "layout_ok tr bs" "i < length bs" "bs ! i = Some b"
  shows "hole_ok tr bs i (probe_length_at tr (length bs) i (slot b))"
proof -
  have rh: "robin_hood tr bs" using assms(1) by (simp add: layout_ok_def)
  show ?thesis
    unfolding hole_ok_def
  proof (intro conjI allI impI)
    show "\<exists>c. bs ! j = Some c \<and> probe_length_at tr (length bs) (next_bucket (length bs) j) (slot d)
        \<le> Suc (probe_length_at tr (length bs) j (slot c))"
      if "j < length bs" "bs ! next_bucket (length bs) j = Some d"
        "0 < probe_length_at tr (length bs) (next_bucket (length bs) j) (slot d)" for j d
      using robin_hoodD [OF rh] that by blast
    show "\<exists>c. bs ! j = Some c \<and> probe_length_at tr (length bs) i (slot b) \<le> Suc (probe_length_at tr (length bs) j (slot c))"
      if "j < length bs" "next_bucket (length bs) j = i" "0 < probe_length_at tr (length bs) i (slot b)" for j
      using robin_hoodD [OF rh that(1), of b] that(2,3) assms(3) by simp
    show "probe_length_at tr (length bs) (next_bucket (length bs) i) (slot d) \<le> Suc (probe_length_at tr (length bs) i (slot b))"
      if "bs ! next_bucket (length bs) i = Some d" "0 < probe_length_at tr (length bs) (next_bucket (length bs) i) (slot d)" for d
      using robin_hoodD [OF rh assms(2) that] assms(3) by simp
  qed (use assms in \<open>simp_all add: layout_ok_def\<close>)
qed

lemma layout_of_hole:
  assumes "hole_ok tr bs i r"
    and stop: "\<And>b. bs ! next_bucket (length bs) i = Some b \<Longrightarrow> probe_length_at tr (length bs) (next_bucket (length bs) i) (slot b) = 0"
  shows "layout_ok tr (bs[i := None])"
  unfolding layout_ok_def
proof (intro conjI allI impI)
  note hole = hole_okD [OF assms(1)]
  let ?n = "length bs" and ?bs = "bs[i := None]"
  show "2 \<le> length ?bs" using hole(1) by simp
  show "bucket_ok tr (length ?bs) j b" if "j < length ?bs" "?bs ! j = Some b" for j b
    using that hole(2,3) by (auto simp: nth_list_update split: if_splits)
  show "robin_hood tr ?bs"
  proof (rule robin_hoodI)
    fix j b
    assume j: "j < length ?bs" and b: "?bs ! next_bucket (length ?bs) j = Some b"
      and pos: "0 < probe_length_at tr (length ?bs) (next_bucket (length ?bs) j) (slot b)"
    have next_j: "next_bucket ?n j \<noteq> i" "bs ! next_bucket ?n j = Some b"
      using b j hole(2) by (auto simp: nth_list_update split: if_splits)
    moreover have "j \<noteq> i" using stop [of b] next_j(2) pos by auto
    ultimately show "\<exists>c. ?bs ! j = Some c \<and> probe_length_at tr (length ?bs) (next_bucket (length ?bs) j) (slot b)
        \<le> Suc (probe_length_at tr (length ?bs) j (slot c))"
      using hole(4) [of j b] j pos by auto
  qed
qed

lemma probe_length_at_next:
  "i < n \<Longrightarrow> 0 < probe_length_at tr n (next_bucket n i) v
    \<Longrightarrow> probe_length_at tr n (next_bucket n i) v = Suc (probe_length_at tr n i v)"
  using probe_distance_next [of i n "ideal_index tr n v"] by (auto simp: probe_length_at_def split: if_splits)

text \<open>Shifting a bucket into the hole moves the hole to where it was.\<close>

lemma hole_step:
  assumes hole: "hole_ok tr bs i r"
    and b: "bs ! next_bucket (length bs) i = Some b" "slot b' = slot b" "bucket_ok tr (length bs) i b'"
    and pos: "0 < probe_length_at tr (length bs) (next_bucket (length bs) i) (slot b)"
  shows "hole_ok tr (bs[i := Some b']) (next_bucket (length bs) i)
    (probe_length_at tr (length bs) (next_bucket (length bs) i) (slot b))"
  unfolding hole_ok_def length_list_update
proof (intro conjI allI impI)
  note hole = hole_okD [OF hole]
  let ?n = "length bs" and ?bs = "bs[i := Some b']" and ?i = "next_bucket (length bs) i"
  let ?q = "probe_length_at tr ?n ?i (slot b)"
  have neq: "?i \<noteq> i" using hole(1,2) by (simp add: next_bucket_neq)
  have q: "?q = Suc (probe_length_at tr ?n i (slot b))" using probe_length_at_next [OF hole(2) pos] .
  show "2 \<le> ?n" "?i < ?n" using hole(1,2) by simp_all
  show "bucket_ok tr ?n j c" if "j < ?n" "j \<noteq> ?i" "?bs ! j = Some c" for j c
    using that hole(2,3) b(3) by (auto simp: nth_list_update split: if_splits)
  show "\<exists>d. ?bs ! j = Some d \<and> probe_length_at tr ?n (next_bucket ?n j) (slot c) \<le> Suc (probe_length_at tr ?n j (slot d))"
    if "j < ?n" "j \<noteq> ?i" "next_bucket ?n j \<noteq> ?i" "?bs ! next_bucket ?n j = Some c"
      "0 < probe_length_at tr ?n (next_bucket ?n j) (slot c)" for j c
  proof -
    have j: "j \<noteq> i" using that(3) by auto
    show ?thesis
    proof (cases "next_bucket ?n j = i")
      case True
      then have c: "slot c = slot b" using that(4) hole(2) b(2) by simp
      have "?q \<le> Suc r" using hole(6) [OF b(1) pos] .
      moreover from this have "0 < r" using that(5) True c q by simp
      ultimately show ?thesis using hole(5) [OF that(1) True] j True c q by auto
    next
      case False
      then show ?thesis using hole(4) [of j c] that j by auto
    qed
  qed
  show "\<exists>c. ?bs ! j = Some c \<and> ?q \<le> Suc (probe_length_at tr ?n j (slot c))" if "j < ?n" "next_bucket ?n j = ?i" for j
    using that hole(2) q b(2) by auto
  show "probe_length_at tr ?n (next_bucket ?n ?i) (slot c) \<le> Suc ?q"
    if "?bs ! next_bucket ?n ?i = Some c" "0 < probe_length_at tr ?n (next_bucket ?n ?i) (slot c)" for c
  proof (cases "next_bucket ?n ?i = i")
    case True
    then show ?thesis using that hole(2) q b(2) by simp
  next
    case False
    then show ?thesis using hole(4) [of ?i c] that neq hole(2) b(1) by auto
  qed
qed

lemma shifted:
  assumes "k < n" "i < n" "f < n" "f \<noteq> i" "2 \<le> n" "bs ! next_bucket n i = Some b" "slot b' = slot b" "length bs = n"
    and "k \<noteq> next_bucket n i \<and> (\<exists>d. bs[i := Some b'] ! k = Some d \<and> slot d = slot c)
      \<or> probe_distance n k (next_bucket n i) < probe_distance n f (next_bucket n i)
        \<and> (\<exists>d. bs[i := Some b'] ! next_bucket n k = Some d \<and> slot d = slot c)"
  shows "k \<noteq> i \<and> (\<exists>d. bs ! k = Some d \<and> slot d = slot c)
    \<or> probe_distance n k i < probe_distance n f i \<and> (\<exists>d. bs ! next_bucket n k = Some d \<and> slot d = slot c)"
proof -
  have f: "probe_distance n f i = Suc (probe_distance n f (next_bucket n i))"
    using probe_distance_from_next assms(2,3,4) by blast
  have neq: "next_bucket n k \<noteq> i" if "probe_distance n k (next_bucket n i) < probe_distance n f (next_bucket n i)"
  proof
    assume k: "next_bucket n k = i"
    then have "probe_distance n k i = n - 1" using probe_distance_to_next [OF assms(1)] by simp
    moreover have "k \<noteq> i" using k assms(2,5) next_bucket_neq by blast
    ultimately have "Suc (probe_distance n k (next_bucket n i)) = n - 1"
      using probe_distance_from_next [OF assms(1,2)] by simp
    moreover have "probe_distance n f i < n" using assms(2,3) by simp
    ultimately show False using f that by linarith
  qed
  show ?thesis
  proof (cases "k = i")
    case True
    then show ?thesis using assms next_bucket_neq [OF assms(2,5)] by (auto simp: f)
  next
    case False
    then have "probe_distance n k i = Suc (probe_distance n k (next_bucket n i))"
      using probe_distance_from_next assms(1,2) by blast
    with assms(9) neq False f show ?thesis by auto
  qed
qed

text \<open>
  The shifting ends before the first free bucket \<open>f\<close>.  A value in the result was in the same bucket before
  or, for a bucket between the hole and \<open>f\<close>, in the next one.
\<close>

lemma shift_up_ok:
  "\<lbrakk> hole_ok tr bs i r; f < length bs; f \<noteq> i; bs ! f = None; probe_distance (length bs) f i \<le> fuel \<rbrakk>
   \<Longrightarrow> \<exists>bs'. shift_up tr fuel bs i = Inr bs' \<and> layout_ok tr bs' \<and> length bs' = length bs
        \<and> elems bs' = elems (bs[i := None])
        \<and> (\<forall>k < length bs. \<forall>c. bs' ! k = Some c \<longrightarrow>
              k \<noteq> i \<and> (\<exists>d. bs ! k = Some d \<and> slot d = slot c)
            \<or> probe_distance (length bs) k i < probe_distance (length bs) f i
              \<and> (\<exists>d. bs ! next_bucket (length bs) k = Some d \<and> slot d = slot c))"
proof (induction fuel arbitrary: bs i r)
  case 0
  then show ?case using hole_okD(2) [OF 0(1)] by simp
next
  case (Suc fuel)
  let ?n = "length bs" and ?i = "next_bucket (length bs) i"
  note hole = hole_okD [OF Suc.prems(1)]
  have i: "?i < ?n" "?i \<noteq> i" using hole(1,2) by (simp_all add: next_bucket_neq)
  have stops: ?case if eq: "shift_up tr (Suc fuel) bs i = Inr (bs[i := None])"
      and "\<And>b. bs ! ?i = Some b \<Longrightarrow> probe_length_at tr ?n ?i (slot b) = 0"
  proof -
    have "layout_ok tr (bs[i := None])" using layout_of_hole [OF Suc.prems(1)] that(2) by blast
    moreover have "k \<noteq> i \<and> bs ! k = Some c" if "bs[i := None] ! k = Some c" for k c
      using that hole(2) by (cases "k = i") auto
    ultimately show ?thesis unfolding eq by auto
  qed
  show ?case
  proof (cases "bs ! ?i")
    case None
    then show ?thesis by (intro stops) simp_all
  next
    case (Some b)
    have q: "used_bucket_probe_length tr ?n ?i b = probe_length_at tr ?n ?i (slot b)"
      using used_bucket_probe_length_eq [OF hole(3) [OF i Some]] .
    show ?thesis
    proof (cases "probe_length_at tr ?n ?i (slot b) = 0")
      case True
      then show ?thesis using Some q by (intro stops) simp_all
    next
      case False
      let ?b = "b\<lparr> bucket_state := bucket_state_for_probe_length (probe_length_at tr ?n ?i (slot b) - 1) \<rparr>"
      let ?bs = "bs[i := Some ?b]"
      have fi: "f \<noteq> ?i" using Some Suc.prems(4) by auto
      have dist: "probe_distance ?n f i = Suc (probe_distance ?n f ?i)"
        using probe_distance_from_next [of f ?n i] Suc.prems hole(2) by simp
      have "bucket_ok tr ?n i ?b"
        using hole(3) [OF i Some] probe_length_at_next [OF hole(2), of tr "slot b"] False by (simp add: bucket_ok_def)
      then have shifted_hole: "hole_ok tr ?bs ?i (probe_length_at tr ?n ?i (slot b))"
        using hole_step [OF Suc.prems(1) Some, of ?b] False by simp
      have side: "f < length ?bs" "?bs ! f = None" "probe_distance (length ?bs) f ?i \<le> fuel"
        using Suc.prems(2,3,4,5) dist by simp_all
      obtain bs' where bs': "shift_up tr fuel ?bs ?i = Inr bs'" "layout_ok tr bs'" "length bs' = ?n"
        "elems bs' = elems (?bs[?i := None])"
        and moved: "\<And>k c. \<lbrakk> k < ?n; bs' ! k = Some c \<rbrakk> \<Longrightarrow>
            k \<noteq> ?i \<and> (\<exists>d. ?bs ! k = Some d \<and> slot d = slot c)
          \<or> probe_distance ?n k ?i < probe_distance ?n f ?i \<and> (\<exists>d. ?bs ! next_bucket ?n k = Some d \<and> slot d = slot c)"
        using Suc.IH [OF shifted_hole side(1) fi side(2,3)] unfolding length_list_update by blast
      have "add_mset (slot b) (elems (?bs[?i := None])) = elems ?bs"
        using elems_clear [of ?i ?bs b] i Some by simp
      moreover have "elems ?bs = add_mset (slot b) (elems (bs[i := None]))"
        using elems_insert [of i "bs[i := None]" ?b] hole(2) by simp
      ultimately have "elems bs' = elems (bs[i := None])" using bs'(4) by simp
      moreover have "shift_up tr (Suc fuel) bs i = Inr bs'" using Some q False bs'(1) by simp
      moreover have "k \<noteq> i \<and> (\<exists>d. bs ! k = Some d \<and> slot d = slot c)
          \<or> probe_distance ?n k i < probe_distance ?n f i \<and> (\<exists>d. bs ! next_bucket ?n k = Some d \<and> slot d = slot c)"
        if "k < ?n" "bs' ! k = Some c" for k c
        by (rule shifted [OF that(1) hole(2) Suc.prems(2,3) hole(1) Some _ refl moved [OF that]]) simp
      ultimately show ?thesis using bs'(2,3) by blast
    qed
  qed
qed

subsection \<open>Tables\<close>

text \<open>No two values of a table are equal, the size is their number, and a table with buckets has a free one.\<close>

definition unequal :: "'a traits \<Rightarrow> 'a multiset \<Rightarrow> bool" where
  "unequal tr M \<longleftrightarrow> (\<forall>x y. {#x, y#} \<subseteq># M \<longrightarrow> \<not> traits_equals tr x y)"

definition table_elems :: "'a hash_table \<Rightarrow> 'a multiset" where
  "table_elems t = elems (m_buckets t)"

definition table_ok :: "'a traits \<Rightarrow> 'a hash_table \<Rightarrow> bool" where
  "table_ok tr t \<longleftrightarrow> m_size t = size (table_elems t) \<and> unequal tr (table_elems t)
     \<and> (m_buckets t = [] \<or> layout_ok tr (m_buckets t) \<and> m_size t < m_capacity t)"

text \<open>What the operations do to the multiset of the values.\<close>

definition set_spec :: "'a traits \<Rightarrow> existing_entry_behavior \<Rightarrow> 'a \<Rightarrow> 'a multiset \<Rightarrow> 'a multiset" where
  "set_spec tr behavior v M =
     (if behavior = Keep_Entry \<and> (\<exists>x \<in># M. traits_equals tr x v) then M
      else add_mset v {#x \<in># M. \<not> traits_equals tr x v#})"

definition set_result :: "'a traits \<Rightarrow> existing_entry_behavior \<Rightarrow> 'a \<Rightarrow> 'a multiset \<Rightarrow> hash_set_result" where
  "set_result tr behavior v M =
     (if \<not> (\<exists>x \<in># M. traits_equals tr x v) then InsertedNewEntry
      else if behavior = Replace_Entry then ReplacedExistingEntry else KeptExistingEntry)"

lemma table_eta [simp]: "\<lparr> m_buckets = m_buckets t, m_size = m_size t \<rparr> = t"
  by simp

lemma size_elems: "size (elems bs) = length (filter (\<lambda>b. b \<noteq> None) bs)"
  by (simp only: elems_def used_slots_def size_mset length_map)

lemma free_bucket:
  assumes "size (elems bs) < length bs"
  obtains f where "f < length bs" "bs ! f = None"
proof -
  have "filter (\<lambda>b. b \<noteq> None) bs \<noteq> bs" using assms by (auto simp: size_elems)
  then have "\<exists>b \<in> set bs. b = None" by (auto simp: filter_id_conv)
  with that show ?thesis by (metis in_set_conv_nth)
qed

lemma table_elems_values: "mset (table_values t) = table_elems t"
  by (simp add: table_values_def table_elems_def elems_def)

lemma elems_replicate [simp]: "elems (replicate n None) = {#}"
  by (simp add: elems_def)

lemma table_elems_empty [simp]:
  "table_elems empty_table = {#}" "table_elems \<lparr> m_buckets = replicate n None, m_size = k \<rparr> = {#}"
  by (simp_all add: table_elems_def empty_table_def elems_def)

lemma layout_replicate: "2 \<le> n \<Longrightarrow> layout_ok tr (replicate n None)"
  by (simp add: layout_ok_def robin_hood_def)

lemma unequal_empty [simp]: "unequal tr {#}"
  by (simp add: unequal_def)

lemma unequal_mono: "\<lbrakk> unequal tr M; N \<subseteq># M \<rbrakk> \<Longrightarrow> unequal tr N"
  unfolding unequal_def by (meson subset_mset.order_trans)

lemma table_ok_empty: "table_ok tr empty_table"
  by (simp add: table_ok_def) (simp add: empty_table_def)

lemma table_ok_fresh: "2 \<le> n \<Longrightarrow> table_ok tr \<lparr> m_buckets = replicate n None, m_size = 0 \<rparr>"
  by (simp add: table_ok_def layout_replicate)

text \<open>
  What a container asks of its traits: equality is an equivalence and equal values hash alike.
\<close>

locale hash_container = hash_traits "traits_equals tr" "traits_hash tr" for tr :: "'a traits" +
  assumes equals_refl: "traits_equals tr x x"
    and equals_sym: "traits_equals tr x y \<Longrightarrow> traits_equals tr y x"
    and equals_trans: "\<lbrakk> traits_equals tr x y; traits_equals tr y z \<rbrakk> \<Longrightarrow> traits_equals tr x z"
begin

lemma unequal_add: "unequal tr (add_mset v M) \<longleftrightarrow> unequal tr M \<and> (\<forall>x \<in># M. \<not> traits_equals tr x v)"
proof
  assume *: "unequal tr (add_mset v M)"
  have "\<not> traits_equals tr x v" if "x \<in># M" for x
  proof -
    have "{#x, v#} \<subseteq># add_mset v M" using that by (simp add: add_mset_commute)
    with * show ?thesis by (simp add: unequal_def)
  qed
  with * show "unequal tr M \<and> (\<forall>x \<in># M. \<not> traits_equals tr x v)"
    using unequal_mono [of tr "add_mset v M" M] by simp
next
  assume *: "unequal tr M \<and> (\<forall>x \<in># M. \<not> traits_equals tr x v)"
  show "unequal tr (add_mset v M)"
    unfolding unequal_def
  proof (intro allI impI)
    fix x y
    assume sub: "{#x, y#} \<subseteq># add_mset v M"
    have "x \<in># add_mset v M" "y \<in># add_mset v M - {#x#}"
      using sub by (simp_all add: insert_subset_eq_iff)
    then consider "{#x, y#} \<subseteq># M" | "x = v" "y \<in># M" | "y = v" "x \<in># M"
      by (cases "x = v"; cases "y = v") (auto simp: insert_subset_eq_iff)
    then show "\<not> traits_equals tr x y"
      using * equals_sym by cases (auto simp: unequal_def)
  qed
qed

lemma unequal_filter:
  assumes "unequal tr (add_mset x N)" "traits_equals tr x v"
  shows "{#y \<in># add_mset x N. \<not> traits_equals tr y v#} = N" "\<forall>y \<in># N. \<not> traits_equals tr y v"
proof -
  show *: "\<forall>y \<in># N. \<not> traits_equals tr y v"
    using assms equals_trans equals_sym unfolding unequal_add by blast
  then have "{#y \<in># N. \<not> traits_equals tr y v#} = N" by (simp add: filter_mset_eq_conv)
  then show "{#y \<in># add_mset x N. \<not> traits_equals tr y v#} = N" using assms(2) by simp
qed

lemma unequal_no_match: "\<forall>y \<in># M. \<not> traits_equals tr y v \<Longrightarrow> {#y \<in># M. \<not> traits_equals tr y v#} = M"
  by (simp add: filter_mset_eq_conv)

lemma unequal_set_spec: "unequal tr M \<Longrightarrow> unequal tr (set_spec tr behavior v M)"
  by (auto simp: set_spec_def unequal_add intro: unequal_mono)

lemma write_value_ok:
  assumes "table_ok tr t" "m_size t + 1 < m_capacity t"
  shows "\<exists>t'. write_value tr t v behavior = Inr (set_result tr behavior v (table_elems t), t') \<and> table_ok tr t'
    \<and> m_capacity t' = m_capacity t \<and> table_elems t' = set_spec tr behavior v (table_elems t)"
proof -
  let ?bs = "m_buckets t" and ?n = "m_capacity t" and ?M = "table_elems t"
  let ?same = "\<lambda>c. traits_equals tr c v"
  have layout: "layout_ok tr ?bs" and size: "m_size t = size ?M" and un: "unequal tr ?M"
    using assms by (auto simp: table_ok_def)
  then obtain f where f: "f < ?n" "?bs ! f = None"
    using free_bucket [of ?bs] assms(2) by (auto simp: table_elems_def)
  let ?i = "ideal_index tr ?n v"
  have i: "?i < ?n" using assms(2) by (intro ideal_index_less) linarith
  have p: "0 = probe_length_at tr ?n ?i v" by (simp add: probe_length_at_def)
  have start: "unat (traits_hash tr v) mod ?n = ?i" by (simp add: ideal_index_def)
  note writing = lookup_for_writing_ok [OF layout f refl, where v = v and predicate = ?same and i = ?i and p = 0 and fuel = ?n and behavior = behavior]
  consider (found) j b where "j < ?n" "?bs ! j = Some b" "?same (slot b)"
      "lookup_for_writing tr ?same (traits_hash tr v) v behavior ?n ?bs ?i 0
        = Inr (if behavior = Replace_Entry then (ReplacedExistingEntry, ?bs[j := Some (b\<lparr> slot := v \<rparr>)])
               else (KeptExistingEntry, ?bs))"
    | (inserted) bs' where "\<forall>x \<in># ?M. \<not> ?same x"
      "lookup_for_writing tr ?same (traits_hash tr v) v behavior ?n ?bs ?i 0 = Inr (InsertedNewEntry, bs')"
      "layout_ok tr bs'" "length bs' = ?n" "elems bs' = add_mset v ?M"
    using writing i p f equals_hash unfolding table_elems_def by auto
  then show ?thesis
  proof cases
    case found
    have mem: "\<exists>x \<in># ?M. ?same x" using elems_memI found by (auto simp: table_elems_def)
    show ?thesis
    proof (cases "behavior = Replace_Entry")
      case True
      let ?t = "\<lparr> m_buckets = ?bs[j := Some (b\<lparr> slot := v \<rparr>)], m_size = m_size t \<rparr>"
      obtain N where N: "?M = add_mset (slot b) N"
        using elems_memI [OF found(1,2)] by (auto simp: table_elems_def dest: multi_member_split)
      have "add_mset (slot b) (table_elems ?t) = add_mset v ?M"
        using elems_replace [OF found(1,2), of "b\<lparr> slot := v \<rparr>"] by (simp add: table_elems_def)
      then have e: "table_elems ?t = set_spec tr behavior v ?M"
        using N unequal_filter [of "slot b" N v] un found(3) True by (simp add: set_spec_def add_mset_commute)
      then have "size (table_elems ?t) = m_size t"
        using N unequal_filter [of "slot b" N v] un found(3) True size by (simp add: set_spec_def)
      moreover have "layout_ok tr (m_buckets ?t)"
        using layout_replace [OF layout found(1,2)] equals_hash [OF found(3)] by simp
      ultimately have "table_ok tr ?t"
        using e un unequal_set_spec assms(2) by (simp add: table_ok_def)
      with e True mem found(4) start show ?thesis
        by (auto simp: write_value_def set_result_def)
    next
      case False
      then have "behavior = Keep_Entry" by (cases behavior) auto
      with mem found(4) start assms show ?thesis
        by (auto simp: write_value_def set_result_def set_spec_def)
    qed
  next
    case inserted
    let ?t = "\<lparr> m_buckets = bs', m_size = m_size t + 1 \<rparr>"
    have e: "table_elems ?t = set_spec tr behavior v ?M"
      using inserted unequal_no_match [of ?M v] by (auto simp: table_elems_def set_spec_def)
    have "size (table_elems ?t) = m_size t + 1" using inserted(5) size by (simp add: table_elems_def)
    then have "table_ok tr ?t"
      using inserted(3,4) e unequal_set_spec [OF un] assms(2) by (simp add: table_ok_def)
    with e inserted start show ?thesis by (auto simp: write_value_def set_result_def)
  qed
qed

end

lemma next_before_hole:
  "\<lbrakk> k < i; i < n; f < n; probe_distance n k i < probe_distance n f i \<rbrakk> \<Longrightarrow> next_bucket n k < i"
  by (auto simp: probe_distance_def next_bucket_def split: if_splits)

context hash_container
begin

lemma write_values_ok:
  "\<lbrakk> table_ok tr t; m_size t + length vs < m_capacity t; unequal tr (table_elems t + mset vs) \<rbrakk>
   \<Longrightarrow> \<exists>t'. write_values tr vs t = Inr t' \<and> table_ok tr t' \<and> m_capacity t' = m_capacity t
        \<and> table_elems t' = table_elems t + mset vs"
proof (induction vs arbitrary: t)
  case (Cons v vs)
  have "unequal tr (add_mset v (table_elems t))"
    using Cons.prems(3) by (rule unequal_mono) simp
  then have new: "\<forall>x \<in># table_elems t. \<not> traits_equals tr x v" by (simp add: unequal_add)
  obtain t' where t': "write_value tr t v Keep_Entry = Inr (set_result tr Keep_Entry v (table_elems t), t')"
    "table_ok tr t'" "m_capacity t' = m_capacity t" "table_elems t' = set_spec tr Keep_Entry v (table_elems t)"
    using write_value_ok [OF Cons.prems(1), of v Keep_Entry] Cons.prems(2) by auto
  then have e: "table_elems t' = add_mset v (table_elems t)"
    using new unequal_no_match [OF new] by (auto simp: set_spec_def)
  then have "m_size t' = m_size t + 1" using t'(2) Cons.prems(1) by (simp add: table_ok_def)
  then show ?case using Cons.IH [OF t'(2)] Cons.prems(2,3) t'(1,2,3) e by auto
qed simp

lemma try_rehash_ok:
  assumes "table_ok tr t"
  shows "\<exists>t'. try_rehash tr t n = Inr t' \<and> table_ok tr t' \<and> table_elems t' = table_elems t
    \<and> m_size t' = m_size t \<and> m_capacity t' = max n (m_capacity t + 8)"
proof -
  let ?n = "max n (m_capacity t + 8)"
  let ?fresh = "\<lparr> m_buckets = replicate ?n None, m_size = 0 \<rparr> :: 'a hash_table"
  have size: "m_size t = size (table_elems t)" and un: "unequal tr (table_elems t)"
    and le: "m_size t \<le> m_capacity t" and count: "length (table_values t) = m_size t"
    using assms table_elems_values [of t] by (auto simp: table_ok_def table_elems_def elems_def simp flip: size_mset)
  show ?thesis
  proof (cases "m_buckets t = []")
    case True
    then have "table_elems t = {#}" by (simp add: table_elems_def elems_def)
    then show ?thesis
      using True size layout_replicate [of ?n tr] by (auto simp: try_rehash_def Let_def table_ok_def) (simp add: table_elems_def)+
  next
    case False
    have "table_ok tr ?fresh" by (rule table_ok_fresh) simp
    moreover have "m_size ?fresh + length (table_values t) < m_capacity ?fresh" using le count by simp
    moreover have "unequal tr (table_elems ?fresh + mset (table_values t))" using un by (simp add: table_elems_values)
    ultimately obtain t' where t': "write_values tr (table_values t) ?fresh = Inr t'" "table_ok tr t'"
      "m_capacity t' = m_capacity ?fresh" "table_elems t' = table_elems ?fresh + mset (table_values t)"
      using write_values_ok by blast
    then have "table_elems t' = table_elems t" by (simp add: table_elems_values)
    with t' False le size show ?thesis by (auto simp: try_rehash_def Let_def table_ok_def)
  qed
qed

lemma try_ensure_capacity_ok:
  assumes "table_ok tr t"
  shows "\<exists>t'. try_ensure_capacity tr t n = Inr t' \<and> table_ok tr t' \<and> table_elems t' = table_elems t"
  using assms try_rehash_ok [OF assms, of "n * 100 div 80 + 1"] by (auto simp: try_ensure_capacity_def Let_def)

lemma try_set_ok:
  assumes "table_ok tr t"
  shows "\<exists>t'. try_set tr t v behavior = Inr (set_result tr behavior v (table_elems t), t') \<and> table_ok tr t'
    \<and> table_elems t' = set_spec tr behavior v (table_elems t)
    \<and> (\<not> should_grow t \<longrightarrow> m_capacity t' = m_capacity t)"
proof (cases "should_grow t")
  case True
  obtain t' where t': "try_rehash tr t (m_capacity t * (100 + 60) div 100) = Inr t'" "table_ok tr t'"
    "table_elems t' = table_elems t" "m_size t' = m_size t" "m_capacity t' \<ge> m_capacity t + 8"
    using try_rehash_ok [OF assms, of "m_capacity t * (100 + 60) div 100"] by auto
  have "m_size t \<le> m_capacity t" using assms by (auto simp: table_ok_def table_elems_def elems_def)
  with t' write_value_ok [of t' v behavior] True show ?thesis by (auto simp: try_set_def)
next
  case False
  then have "m_size t + 1 < m_capacity t" by (auto simp: should_grow_def)
  with write_value_ok [OF assms, of v behavior] False show ?thesis by (auto simp: try_set_def)
qed

lemma lookup_with_hash_ok:
  assumes "table_ok tr t" and "\<And>x. \<lbrakk> x \<in># table_elems t; predicate x \<rbrakk> \<Longrightarrow> traits_hash tr x = traits_hash tr v"
  shows "(\<exists>i b. i < m_capacity t \<and> m_buckets t ! i = Some b \<and> predicate (slot b)
        \<and> lookup_with_hash tr t (traits_hash tr v) predicate = Inr (Some i))
      \<or> (\<forall>x \<in># table_elems t. \<not> predicate x) \<and> lookup_with_hash tr t (traits_hash tr v) predicate = Inr None"
proof (cases "m_size t = 0")
  case True
  then show ?thesis using assms(1) by (simp add: lookup_with_hash_def table_ok_def)
next
  case False
  let ?bs = "m_buckets t" and ?n = "m_capacity t"
  have layout: "layout_ok tr ?bs" and lt: "m_size t < ?n" and size: "m_size t = size (elems ?bs)"
    using assms(1) False by (auto simp: table_ok_def table_elems_def elems_def)
  obtain f where f: "f < ?n" "?bs ! f = None" using free_bucket [of ?bs] lt size by auto
  let ?i = "ideal_index tr ?n v"
  have i: "?i < ?n" using lt by (intro ideal_index_less) linarith
  have "probe_length_at tr ?n ?i v = 0" by (simp add: probe_length_at_def)
  then show ?thesis
    using lookup_loop_ok [OF layout f refl, where v = v and predicate = predicate and i = ?i and fuel = ?n]
      assms(2) False i f by (simp add: lookup_with_hash_def ideal_index_def table_elems_def)
qed

lemma table_find_ok:
  assumes "table_ok tr t"
  shows "(\<exists>i b. i < m_capacity t \<and> m_buckets t ! i = Some b \<and> traits_equals tr (slot b) v
        \<and> table_find tr t v = Inr (Some i))
      \<or> (\<forall>x \<in># table_elems t. \<not> traits_equals tr x v) \<and> table_find tr t v = Inr None"
proof -
  have "table_find tr t v = lookup_with_hash tr t (traits_hash tr v) (\<lambda>entry. traits_equals tr entry v)"
    by (simp add: table_find_def lookup_with_hash_def)
  with lookup_with_hash_ok [OF assms, of "\<lambda>entry. traits_equals tr entry v" v] equals_hash show ?thesis by simp
qed

lemma delete_bucket_ok:
  assumes "table_ok tr t" "i < m_capacity t" "m_buckets t ! i = Some b"
  shows "\<exists>t'. delete_bucket tr t i = Inr t' \<and> table_ok tr t' \<and> m_capacity t' = m_capacity t
    \<and> table_elems t = add_mset (slot b) (table_elems t') \<and> m_size t = m_size t' + 1
    \<and> (\<forall>k < i. \<forall>c. m_buckets t' ! k = Some c \<longrightarrow> (\<exists>j < i. \<exists>d. m_buckets t ! j = Some d \<and> slot d = slot c))"
proof -
  let ?bs = "m_buckets t" and ?n = "m_capacity t"
  have layout: "layout_ok tr ?bs" and lt: "m_size t < ?n" and size: "m_size t = size (elems ?bs)"
    using assms(1,2) by (auto simp: table_ok_def table_elems_def)
  obtain f where f: "f < ?n" "?bs ! f = None" using free_bucket [of ?bs] lt size by auto
  then have fi: "f \<noteq> i" using assms(3) by auto
  have "probe_distance ?n f i \<le> ?n" using probe_distance_less [OF f(1) assms(2)] by simp
  then obtain bs' where bs': "shift_up tr ?n ?bs i = Inr bs'" "layout_ok tr bs'" "length bs' = ?n"
    "elems bs' = elems (?bs[i := None])"
    and moved: "\<And>k c. \<lbrakk> k < ?n; bs' ! k = Some c \<rbrakk> \<Longrightarrow> k \<noteq> i \<and> (\<exists>d. ?bs ! k = Some d \<and> slot d = slot c)
      \<or> probe_distance ?n k i < probe_distance ?n f i \<and> (\<exists>d. ?bs ! next_bucket ?n k = Some d \<and> slot d = slot c)"
    using shift_up_ok [OF hole_of_layout [OF layout assms(2,3)] f(1) fi f(2)] by blast
  have e: "elems ?bs = add_mset (slot b) (elems bs')" using elems_clear [OF assms(2,3)] bs'(4) by simp
  have before: "\<exists>j < i. \<exists>d. ?bs ! j = Some d \<and> slot d = slot c" if k: "k < i" "bs' ! k = Some c" for k c
  proof -
    have "k < ?n" using k(1) assms(2) by simp
    from moved [OF this k(2)] show ?thesis
    proof (elim disjE conjE)
      assume "\<exists>d. ?bs ! k = Some d \<and> slot d = slot c"
      with k(1) show ?thesis by blast
    next
      assume "probe_distance ?n k i < probe_distance ?n f i" "\<exists>d. ?bs ! next_bucket ?n k = Some d \<and> slot d = slot c"
      with next_before_hole [OF k(1) assms(2) f(1)] show ?thesis by blast
    qed
  qed
  have "delete_bucket tr t i = Inr \<lparr> m_buckets = bs', m_size = m_size t - 1 \<rparr>"
    using assms(3) bs'(1) by (simp add: delete_bucket_def)
  moreover have "table_ok tr \<lparr> m_buckets = bs', m_size = m_size t - 1 \<rparr>"
    using assms(1) bs'(2,3) e size lt by (simp add: table_ok_def table_elems_def unequal_add)
  ultimately show ?thesis using bs'(3) e size before
    by (intro exI [of _ "\<lparr> m_buckets = bs', m_size = m_size t - 1 \<rparr>"]) (simp add: table_elems_def)
qed

lemma table_remove_ok:
  assumes "table_ok tr t"
  shows "\<exists>t'. table_remove tr t v = Inr (\<exists>x \<in># table_elems t. traits_equals tr x v, t') \<and> table_ok tr t'
    \<and> table_elems t' = {#x \<in># table_elems t. \<not> traits_equals tr x v#}"
proof -
  consider (found) i b where "i < m_capacity t" "m_buckets t ! i = Some b" "traits_equals tr (slot b) v" "table_find tr t v = Inr (Some i)"
    | (missing) "\<forall>x \<in># table_elems t. \<not> traits_equals tr x v" "table_find tr t v = Inr None"
    using table_find_ok [OF assms, of v] by blast
  then show ?thesis
  proof cases
    case found
    obtain t' where t': "delete_bucket tr t i = Inr t'" "table_ok tr t'" "table_elems t = add_mset (slot b) (table_elems t')"
      using delete_bucket_ok [OF assms found(1,2)] by blast
    moreover have "unequal tr (add_mset (slot b) (table_elems t'))" using assms t'(3) by (simp add: table_ok_def)
    ultimately show ?thesis
      using found(3,4) unequal_filter(1) [of "slot b" "table_elems t'" v] by (auto simp: table_remove_def)
  next
    case missing
    then show ?thesis using assms unequal_no_match by (auto simp: table_remove_def)
  qed
qed

lemma take_loop_ok:
  "\<lbrakk> table_ok tr t; i \<le> m_capacity t; \<And>k b. \<lbrakk> k < i; m_buckets t ! k = Some b \<rbrakk> \<Longrightarrow> \<not> predicate (slot b);
     m_capacity t - i + m_size t < fuel \<rbrakk>
   \<Longrightarrow> \<exists>vs t'. take_loop tr predicate fuel t i acc = Inr (acc @ vs, t') \<and> table_ok tr t'
        \<and> mset vs = {#x \<in># table_elems t. predicate x#} \<and> table_elems t' = {#x \<in># table_elems t. \<not> predicate x#}"
proof (induction fuel arbitrary: t i acc)
  case (Suc fuel)
  show ?case
  proof (cases "i < m_capacity t")
    case False
    then have none: "\<forall>x \<in># table_elems t. \<not> predicate x"
      using Suc.prems(2,3) by (auto simp: table_elems_def elim!: elems_memE)
    then have "{#x \<in># table_elems t. predicate x#} = {#}" "{#x \<in># table_elems t. \<not> predicate x#} = table_elems t"
      by (auto simp: filter_mset_eq_conv)
    with False Suc.prems(1) show ?thesis by auto
  next
    case True
    show ?thesis
    proof (cases "\<exists>b. m_buckets t ! i = Some b \<and> predicate (slot b)")
      case False
      then have "take_loop tr predicate (Suc fuel) t i acc = take_loop tr predicate fuel t (i + 1) acc"
        using True by (auto split: option.split)
      moreover have "\<not> predicate (slot b)" if "k < i + 1" "m_buckets t ! k = Some b" for k b
        using that False Suc.prems(3) by (cases "k = i") (auto simp: less_Suc_eq)
      ultimately show ?thesis using Suc.IH [of t "i + 1" acc] Suc.prems(1,4) True by auto
    next
      case found: True
      then obtain b where b: "m_buckets t ! i = Some b" "predicate (slot b)" by blast
      obtain t' where t': "delete_bucket tr t i = Inr t'" "table_ok tr t'" "m_capacity t' = m_capacity t"
        "table_elems t = add_mset (slot b) (table_elems t')" "m_size t = m_size t' + 1"
        and moved: "\<And>k c. \<lbrakk> k < i; m_buckets t' ! k = Some c \<rbrakk> \<Longrightarrow> \<exists>j < i. \<exists>d. m_buckets t ! j = Some d \<and> slot d = slot c"
        using delete_bucket_ok [OF Suc.prems(1) True b(1)] by blast
      let ?i = "if m_buckets t' ! i \<noteq> None then i else i + 1"
      have before: "\<not> predicate (slot c)" if "k < ?i" "m_buckets t' ! k = Some c" for k c
      proof -
        have "k < i" using that by (cases "k = i") (auto split: if_splits)
        then show ?thesis using moved [of k c] that(2) Suc.prems(3) by metis
      qed
      have bounds: "?i \<le> m_capacity t'" "m_capacity t' - ?i + m_size t' < fuel"
        using True t'(3,5) Suc.prems(4) by auto
      have "\<exists>vs t''. take_loop tr predicate fuel t' ?i (acc @ [slot b]) = Inr ((acc @ [slot b]) @ vs, t'') \<and> table_ok tr t''
          \<and> mset vs = {#x \<in># table_elems t'. predicate x#} \<and> table_elems t'' = {#x \<in># table_elems t'. \<not> predicate x#}"
        by (rule Suc.IH [OF t'(2) bounds(1) _ bounds(2)]) (rule before)
      then obtain vs t'' where "take_loop tr predicate fuel t' ?i (acc @ [slot b]) = Inr ((acc @ [slot b]) @ vs, t'')"
        "table_ok tr t''" "mset vs = {#x \<in># table_elems t'. predicate x#}" "table_elems t'' = {#x \<in># table_elems t'. \<not> predicate x#}"
        by blast
      moreover have "take_loop tr predicate (Suc fuel) t i acc = take_loop tr predicate fuel t' ?i (acc @ [slot b])"
        using True b t'(1) by simp
      ultimately show ?thesis using t'(4) b(2)
        by (intro exI [of _ "slot b # vs"] exI [of _ t'']) simp
    qed
  qed
qed simp

lemma take_all_matching_ok:
  assumes "table_ok tr t"
  shows "\<exists>vs t'. take_all_matching tr t predicate = Inr (vs, t') \<and> table_ok tr t'
    \<and> mset vs = {#x \<in># table_elems t. predicate x#} \<and> table_elems t' = {#x \<in># table_elems t. \<not> predicate x#}"
  using take_loop_ok [OF assms, of 0 predicate "m_capacity t + m_size t + 1" "[]"] by (simp add: take_all_matching_def)

end

end
