(* ===== verification/AK_Hash_Map.thy ===== *)
theory AK_Hash_Map
  imports AK_Hash_Table
begin

text \<open>
  \<^verbatim>\<open>AK/HashMap.h\<close>: a hash table of entries, each a key with a value, hashed and compared by the key.  The
  locale \<open>hash_map_keys\<close> is what a client relies on, for keys that are compared with \<^verbatim>\<open>==\<close>: every operation
  returns and does to \<open>entry_map\<close> what its name says.
\<close>

type_synonym ('k, 'v) hash_map = "('k \<times> 'v) hash_table"

definition entry_traits :: "'k traits \<Rightarrow> ('k \<times> 'v) traits" where
  "entry_traits key_traits = \<lparr> traits_hash = (\<lambda>entry. traits_hash key_traits (fst entry)),
     traits_equals = (\<lambda>a b. traits_equals key_traits (fst a) (fst b)),
     may_have_slow_equality_check = may_have_slow_equality_check key_traits \<rparr>"

definition map_find :: "'k traits \<Rightarrow> ('k, 'v) hash_map \<Rightarrow> 'k \<Rightarrow> nat option result" where
  "map_find key_traits m key =
     (if m_size m = 0 then Inr None
      else lookup_with_hash (entry_traits key_traits) m (traits_hash key_traits key)
             (\<lambda>entry. traits_equals key_traits (fst entry) key))"

definition map_get :: "'k traits \<Rightarrow> ('k, 'v) hash_map \<Rightarrow> 'k \<Rightarrow> 'v option result" where
  "map_get key_traits m key =
     result_bind (map_find key_traits m key) (\<lambda>it. case it of
         None \<Rightarrow> Inr None | Some i \<Rightarrow> Inr (Some (snd (slot (the (m_buckets m ! i))))))"

definition map_contains :: "'k traits \<Rightarrow> ('k, 'v) hash_map \<Rightarrow> 'k \<Rightarrow> bool result" where
  "map_contains key_traits m key = result_bind (map_find key_traits m key) (\<lambda>it. Inr (it \<noteq> None))"

definition map_set ::
    "'k traits \<Rightarrow> ('k, 'v) hash_map \<Rightarrow> 'k \<Rightarrow> 'v \<Rightarrow> existing_entry_behavior \<Rightarrow> (hash_set_result \<times> ('k, 'v) hash_map) result" where
  "map_set key_traits m key v existing_entry_behavior =
     try_set (entry_traits key_traits) m (key, v) existing_entry_behavior"

fun map_update :: "'k traits \<Rightarrow> ('k, 'v) hash_map \<Rightarrow> ('k \<times> 'v) list \<Rightarrow> ('k, 'v) hash_map result" where
  "map_update key_traits m [] = Inr m"
| "map_update key_traits m ((key, v) # other) =
     result_bind (map_set key_traits m key v Replace_Entry) (\<lambda>(r, m). map_update key_traits m other)"

definition map_remove :: "'k traits \<Rightarrow> ('k, 'v) hash_map \<Rightarrow> 'k \<Rightarrow> (bool \<times> ('k, 'v) hash_map) result" where
  "map_remove key_traits m key =
     result_bind (map_find key_traits m key) (\<lambda>it. case it of
         Some i \<Rightarrow> result_bind (delete_bucket (entry_traits key_traits) m i) (\<lambda>m. Inr (True, m))
       | None \<Rightarrow> Inr (False, m))"

definition map_take :: "'k traits \<Rightarrow> ('k, 'v) hash_map \<Rightarrow> 'k \<Rightarrow> ('v option \<times> ('k, 'v) hash_map) result" where
  "map_take key_traits m key =
     result_bind (map_find key_traits m key) (\<lambda>it. case it of
         Some i \<Rightarrow> let v = snd (slot (the (m_buckets m ! i)))
                   in result_bind (delete_bucket (entry_traits key_traits) m i) (\<lambda>m. Inr (Some v, m))
       | None \<Rightarrow> Inr (None, m))"

definition map_take_all_matching ::
    "'k traits \<Rightarrow> ('k, 'v) hash_map \<Rightarrow> ('k \<Rightarrow> 'v \<Rightarrow> bool) \<Rightarrow> (('k \<times> 'v) list \<times> ('k, 'v) hash_map) result" where
  "map_take_all_matching key_traits m predicate =
     take_all_matching (entry_traits key_traits) m (\<lambda>entry. predicate (fst entry) (snd entry))"

definition map_remove_all_matching ::
    "'k traits \<Rightarrow> ('k, 'v) hash_map \<Rightarrow> ('k \<Rightarrow> 'v \<Rightarrow> bool) \<Rightarrow> (bool \<times> ('k, 'v) hash_map) result" where
  "map_remove_all_matching key_traits m predicate =
     remove_all_matching (entry_traits key_traits) m (\<lambda>entry. predicate (fst entry) (snd entry))"

definition map_keys :: "('k, 'v) hash_map \<Rightarrow> 'k list" where
  "map_keys m = map fst (table_values m)"

definition map_clone :: "'k traits \<Rightarrow> ('k, 'v) hash_map \<Rightarrow> ('k, 'v) hash_map result" where
  "map_clone key_traits m =
     result_bind (try_ensure_capacity (entry_traits key_traits) empty_table (m_size m)) (\<lambda>clone.
       map_update key_traits clone (table_values m))"

fun entries_equal :: "'k traits \<Rightarrow> ('v \<Rightarrow> 'v \<Rightarrow> bool) \<Rightarrow> ('k, 'v) hash_map \<Rightarrow> ('k \<times> 'v) list \<Rightarrow> bool result" where
  "entries_equal key_traits value_equals other [] = Inr True"
| "entries_equal key_traits value_equals other ((key, v) # rest) =
     result_bind (map_get key_traits other key) (\<lambda>found. case found of
         None \<Rightarrow> Inr False
       | Some w \<Rightarrow> if \<not> value_equals v w then Inr False else entries_equal key_traits value_equals other rest)"

definition map_equals :: "'k traits \<Rightarrow> ('v \<Rightarrow> 'v \<Rightarrow> bool) \<Rightarrow> ('k, 'v) hash_map \<Rightarrow> ('k, 'v) hash_map \<Rightarrow> bool result" where
  "map_equals key_traits value_equals m other =
     (if m_size m \<noteq> m_size other then Inr False
      else if m_size m = 0 then Inr True
      else entries_equal key_traits value_equals other (table_values m))"

text \<open>
  A loop \<^verbatim>\<open>for (auto& it : map)\<close> whose body changes the value of the entry and a state.
\<close>

fun for_each_bucket :: "('k \<Rightarrow> 'v \<Rightarrow> 's \<Rightarrow> 'v \<times> 's) \<Rightarrow> ('k \<times> 'v) bucket option list \<Rightarrow> 's
    \<Rightarrow> ('k \<times> 'v) bucket option list \<times> 's" where
  "for_each_bucket body [] s = ([], s)"
| "for_each_bucket body (None # bs) s = (let (bs, s) = for_each_bucket body bs s in (None # bs, s))"
| "for_each_bucket body (Some b # bs) s =
     (let (v, s) = body (fst (slot b)) (snd (slot b)) s;
          (bs, s) = for_each_bucket body bs s
      in (Some (b\<lparr> slot := (fst (slot b), v) \<rparr>) # bs, s))"

definition for_each_entry :: "('k \<Rightarrow> 'v \<Rightarrow> 's \<Rightarrow> 'v \<times> 's) \<Rightarrow> ('k, 'v) hash_map \<Rightarrow> 's \<Rightarrow> ('k, 'v) hash_map \<times> 's" where
  "for_each_entry body m s = (let (bs, s) = for_each_bucket body (m_buckets m) s in (m\<lparr> m_buckets := bs \<rparr>, s))"

subsection \<open>The map of the entries\<close>

definition entry_map :: "('k, 'v) hash_map \<Rightarrow> 'k \<rightharpoonup> 'v" where
  "entry_map m = map_of (table_values m)"

lemma map_eqI: "(\<And>k v. m k = Some v \<longleftrightarrow> n k = Some v) \<Longrightarrow> m = n"
  by (rule ext) (metis option.exhaust)

locale hash_map_keys =
  fixes key_traits :: "'k traits" and tr :: "('k \<times> 'v) traits"
  assumes key_equals: "traits_equals key_traits = (=)" and tr: "tr = entry_traits key_traits"
begin

lemma tr_simps [simp]:
  "traits_hash tr e = traits_hash key_traits (fst e)" "traits_equals tr e e' \<longleftrightarrow> fst e = fst e'"
  by (simp_all add: tr entry_traits_def key_equals)

end

sublocale hash_map_keys \<subseteq> hash_container tr
  by unfold_locales simp_all

context hash_map_keys
begin

lemma unequal_distinct: "unequal tr (mset es) \<longleftrightarrow> distinct (map fst es)"
  by (induction es) (force simp: unequal_add)+

lemma distinct_entries: "table_ok tr m \<Longrightarrow> distinct (map fst (table_values m))"
  using unequal_distinct [of "table_values m"] by (simp add: table_ok_def table_elems_values)

lemma entry_map_iff: "table_ok tr m \<Longrightarrow> entry_map m k = Some v \<longleftrightarrow> (k, v) \<in># table_elems m"
  using distinct_entries [of m] by (simp add: entry_map_def flip: table_elems_values)

lemma entry_map_None: "table_ok tr m \<Longrightarrow> entry_map m k = None \<longleftrightarrow> (\<forall>e \<in># table_elems m. fst e \<noteq> k)"
  by (auto simp: entry_map_def map_of_eq_None_iff simp flip: table_elems_values)

lemma entry_map_empty [simp]: "entry_map empty_table = Map.empty"
  by (simp add: entry_map_def table_values_def empty_table_def)

lemma finite_entry_map: "finite (dom (entry_map m))"
  by (simp add: entry_map_def finite_dom_map_of)

lemma size_entry_map: "table_ok tr m \<Longrightarrow> m_size m = card (dom (entry_map m))"
proof -
  assume ok: "table_ok tr m"
  have "m_size m = length (table_values m)" using ok by (simp add: table_ok_def size_mset flip: table_elems_values)
  also have "\<dots> = card (set (map fst (table_values m)))" using distinct_card [OF distinct_entries [OF ok]] by simp
  finally show ?thesis by (simp add: entry_map_def dom_map_of_conv_image_fst)
qed

lemma map_find_ok:
  assumes "table_ok tr m"
  shows "(\<exists>i b v. i < m_capacity m \<and> m_buckets m ! i = Some b \<and> slot b = (key, v) \<and> entry_map m key = Some v
        \<and> map_find key_traits m key = Inr (Some i))
      \<or> entry_map m key = None \<and> map_find key_traits m key = Inr None"
proof -
  have "map_find key_traits m key = lookup_with_hash tr m (traits_hash tr (key, undefined)) (\<lambda>e. fst e = key)"
    by (simp add: map_find_def lookup_with_hash_def key_equals flip: tr)
  then show ?thesis
    using lookup_with_hash_ok [OF assms, of "\<lambda>e. fst e = key" "(key, undefined)"]
      elems_memI [of _ "m_buckets m"] entry_map_iff [OF assms] entry_map_None [OF assms, of key]
    by (simp add: table_elems_def) (metis prod.collapse)
qed

lemma map_get_ok: "table_ok tr m \<Longrightarrow> map_get key_traits m key = Inr (entry_map m key)"
  using map_find_ok [of m key] by (auto simp: map_get_def)

lemma map_contains_ok: "table_ok tr m \<Longrightarrow> map_contains key_traits m key = Inr (key \<in> dom (entry_map m))"
  using map_find_ok [of m key] by (auto simp: map_contains_def)

lemma map_set_ok:
  assumes "table_ok tr m"
  shows "\<exists>m'. map_set key_traits m key v Replace_Entry
      = Inr (if entry_map m key = None then InsertedNewEntry else ReplacedExistingEntry, m')
    \<and> table_ok tr m' \<and> entry_map m' = (entry_map m)(key \<mapsto> v)
    \<and> (\<not> should_grow m \<longrightarrow> m_capacity m' = m_capacity m)"
proof -
  obtain m' where m': "try_set tr m (key, v) Replace_Entry = Inr (set_result tr Replace_Entry (key, v) (table_elems m), m')"
    "table_ok tr m'" "table_elems m' = set_spec tr Replace_Entry (key, v) (table_elems m)"
    "\<not> should_grow m \<longrightarrow> m_capacity m' = m_capacity m"
    using try_set_ok [OF assms] by blast
  have "entry_map m' = (entry_map m)(key \<mapsto> v)"
    by (rule map_eqI) (auto simp: entry_map_iff m'(2,3) assms set_spec_def)
  moreover have "set_result tr Replace_Entry (key, v) (table_elems m)
      = (if entry_map m key = None then InsertedNewEntry else ReplacedExistingEntry)"
    by (auto simp: set_result_def entry_map_None [OF assms])
  ultimately show ?thesis using m' by (simp add: map_set_def tr)
qed

lemma map_set_keep_ok:
  assumes "table_ok tr m"
  shows "\<exists>r m'. map_set key_traits m key v Keep_Entry = Inr (r, m') \<and> table_ok tr m'
    \<and> entry_map m' = (if entry_map m key = None then (entry_map m)(key \<mapsto> v) else entry_map m)"
proof -
  obtain r m' where m': "try_set tr m (key, v) Keep_Entry = Inr (r, m')"
    "table_ok tr m'" "table_elems m' = set_spec tr Keep_Entry (key, v) (table_elems m)"
    using try_set_ok [OF assms] by blast
  have "entry_map m' = (if entry_map m key = None then (entry_map m)(key \<mapsto> v) else entry_map m)"
    by (rule map_eqI) (auto simp: entry_map_iff entry_map_None m'(2,3) assms set_spec_def)
  with m' show ?thesis by (simp add: map_set_def tr)
qed

end

context hash_map_keys
begin

lemma map_update_ok:
  "\<lbrakk> table_ok tr m; distinct (map fst es) \<rbrakk>
    \<Longrightarrow> \<exists>m'. map_update key_traits m es = Inr m' \<and> table_ok tr m' \<and> entry_map m' = entry_map m ++ map_of es"
proof (induction es arbitrary: m)
  case (Cons e es)
  obtain m' r where m': "table_ok tr m'" "entry_map m' = (entry_map m)(fst e \<mapsto> snd e)"
    "map_set key_traits m (fst e) (snd e) Replace_Entry = Inr (r, m')"
    using map_set_ok [OF Cons.prems(1), of "fst e" "snd e"] by blast
  have "(entry_map m)(fst e \<mapsto> snd e) ++ map_of es = (entry_map m ++ map_of es)(fst e \<mapsto> snd e)"
    using Cons.prems(2) by (intro map_add_upd_left) (simp add: dom_map_of_conv_image_fst)
  then have eq: "entry_map m' ++ map_of es = entry_map m ++ map_of (e # es)"
    unfolding m'(2) by (cases e) (simp only: map_of.simps map_add_upd fst_conv snd_conv)
  have upd: "map_update key_traits m (e # es) = map_update key_traits m' es" using m'(3) by (cases e) simp
  have "\<exists>m''. map_update key_traits m' es = Inr m'' \<and> table_ok tr m'' \<and> entry_map m'' = entry_map m' ++ map_of es"
    using Cons.IH [OF m'(1)] Cons.prems(2) by simp
  then show ?case unfolding eq upd .
qed simp

lemma delete_found:
  assumes "table_ok tr m" "i < m_capacity m" "m_buckets m ! i = Some b" "slot b = (key, v)"
  shows "\<exists>m'. delete_bucket tr m i = Inr m' \<and> table_ok tr m' \<and> entry_map m' = (entry_map m)(key := None)"
proof -
  obtain m' where m': "delete_bucket tr m i = Inr m'" "table_ok tr m'" "table_elems m = add_mset (key, v) (table_elems m')"
    using delete_bucket_ok [OF assms(1-3)] assms(4) by auto
  have "unequal tr (add_mset (key, v) (table_elems m'))" using assms(1) m'(3) by (simp add: table_ok_def)
  then have "entry_map m' = (entry_map m)(key := None)"
    by (intro map_eqI) (auto simp: entry_map_iff assms(1) m'(2,3) unequal_add)
  with m' show ?thesis by blast
qed

lemma map_remove_ok:
  assumes "table_ok tr m"
  shows "\<exists>m'. map_remove key_traits m key = Inr (key \<in> dom (entry_map m), m') \<and> table_ok tr m'
    \<and> entry_map m' = (entry_map m)(key := None)"
  using map_find_ok [OF assms, of key]
proof (elim disjE exE conjE)
  fix i b v
  assume *: "i < m_capacity m" "m_buckets m ! i = Some b" "slot b = (key, v)" "entry_map m key = Some v"
    "map_find key_traits m key = Inr (Some i)"
  from delete_found [OF assms *(1,2,3)] *(4,5) show ?thesis by (auto simp: map_remove_def simp flip: tr)
next
  assume "entry_map m key = None" "map_find key_traits m key = Inr None"
  with assms show ?thesis by (auto simp: map_remove_def fun_upd_idem)
qed

lemma map_take_ok:
  assumes "table_ok tr m"
  shows "\<exists>m'. map_take key_traits m key = Inr (entry_map m key, m') \<and> table_ok tr m'
    \<and> entry_map m' = (entry_map m)(key := None)"
  using map_find_ok [OF assms, of key]
proof (elim disjE exE conjE)
  fix i b v
  assume *: "i < m_capacity m" "m_buckets m ! i = Some b" "slot b = (key, v)" "entry_map m key = Some v"
    "map_find key_traits m key = Inr (Some i)"
  from delete_found [OF assms *(1,2,3)] * show ?thesis by (auto simp: map_take_def simp flip: tr)
next
  assume "entry_map m key = None" "map_find key_traits m key = Inr None"
  with assms show ?thesis by (auto simp: map_take_def fun_upd_idem)
qed

lemma map_take_all_matching_ok:
  assumes "table_ok tr m"
  shows "\<exists>es m'. map_take_all_matching key_traits m predicate = Inr (es, m') \<and> table_ok tr m'
    \<and> mset es = {#e \<in># table_elems m. predicate (fst e) (snd e)#}
    \<and> entry_map m' = (\<lambda>k. case entry_map m k of None \<Rightarrow> None | Some v \<Rightarrow> if predicate k v then None else Some v)"
proof -
  obtain es m' where m': "take_all_matching tr m (\<lambda>e. predicate (fst e) (snd e)) = Inr (es, m')" "table_ok tr m'"
    "mset es = {#e \<in># table_elems m. predicate (fst e) (snd e)#}"
    "table_elems m' = {#e \<in># table_elems m. \<not> predicate (fst e) (snd e)#}"
    using take_all_matching_ok [OF assms] by blast
  have "entry_map m' = (\<lambda>k. case entry_map m k of None \<Rightarrow> None | Some v \<Rightarrow> if predicate k v then None else Some v)"
  proof (rule map_eqI)
    fix k v
    have "entry_map m' k = Some v \<longleftrightarrow> entry_map m k = Some v \<and> \<not> predicate k v"
      using m'(4) entry_map_iff [OF m'(2)] entry_map_iff [OF assms] by simp
    then show "entry_map m' k = Some v
        \<longleftrightarrow> (case entry_map m k of None \<Rightarrow> None | Some v \<Rightarrow> if predicate k v then None else Some v) = Some v"
      by (auto split: option.splits)
  qed
  with m' show ?thesis by (auto simp: map_take_all_matching_def simp flip: tr)
qed

lemma map_remove_all_matching_ok:
  assumes "table_ok tr m"
  shows "\<exists>r m'. map_remove_all_matching key_traits m predicate = Inr (r, m') \<and> table_ok tr m'
    \<and> entry_map m' = (\<lambda>k. case entry_map m k of None \<Rightarrow> None | Some v \<Rightarrow> if predicate k v then None else Some v)"
  using map_take_all_matching_ok [OF assms, of predicate]
  by (auto simp: map_remove_all_matching_def remove_all_matching_def map_take_all_matching_def)

lemma map_clone_ok:
  assumes "table_ok tr m"
  shows "\<exists>m'. map_clone key_traits m = Inr m' \<and> table_ok tr m' \<and> entry_map m' = entry_map m"
proof -
  obtain c where c: "try_ensure_capacity tr empty_table (m_size m) = Inr c" "table_ok tr c" "table_elems c = {#}"
    using try_ensure_capacity_ok [OF table_ok_empty] by auto
  then have "entry_map c = Map.empty" by (intro map_eqI) (simp add: entry_map_iff)
  then show ?thesis
    using map_update_ok [OF c(2) distinct_entries [OF assms]] c(1) by (auto simp: map_clone_def entry_map_def simp flip: tr)
qed

lemma entries_equal_ok:
  "table_ok tr m \<Longrightarrow> entries_equal key_traits (=) m es = Inr (\<forall>(k, v) \<in> set es. entry_map m k = Some v)"
  by (induction es) (auto simp: map_get_ok split: option.split)

lemma map_equals_ok:
  assumes "table_ok tr m" "table_ok tr m'"
  shows "map_equals key_traits (=) m m' = Inr (entry_map m = entry_map m')"
proof -
  have sub: "(\<forall>(k, v) \<in> set (table_values m). entry_map m' k = Some v) \<longleftrightarrow> entry_map m \<subseteq>\<^sub>m entry_map m'"
  proof -
    have "(k, v) \<in> set (table_values m) \<longleftrightarrow> entry_map m k = Some v" for k v
      using entry_map_iff [OF assms(1), of k v] table_elems_values [of m] by (metis set_mset_mset)
    then have "(\<forall>(k, v) \<in> set (table_values m). entry_map m' k = Some v)
        \<longleftrightarrow> (\<forall>k v. entry_map m k = Some v \<longrightarrow> entry_map m' k = Some v)"
      unfolding Ball_def split_paired_All prod.case by simp
    also have "\<dots> \<longleftrightarrow> entry_map m \<subseteq>\<^sub>m entry_map m'" by (auto simp: map_le_def dom_def)
    finally show ?thesis .
  qed
  have le_eq: "entry_map m = entry_map m'" if le: "entry_map m \<subseteq>\<^sub>m entry_map m'" and size: "m_size m = m_size m'"
  proof -
    have "dom (entry_map m) = dom (entry_map m')"
      using card_subset_eq [OF finite_entry_map map_le_implies_dom_le [OF le]] size
        size_entry_map [OF assms(1)] size_entry_map [OF assms(2)] by simp
    then have "entry_map m' \<subseteq>\<^sub>m entry_map m" using le by (simp add: map_le_def)
    with le show ?thesis by (rule map_le_antisym)
  qed
  have size: "m_size m = m_size m'" if "entry_map m = entry_map m'"
    using that size_entry_map [OF assms(1)] size_entry_map [OF assms(2)] by simp
  have empty: "entry_map k = Map.empty" if "table_ok tr k" "m_size k = 0" for k
    using that size_entry_map [OF that(1)] finite_entry_map [of k] by simp
  consider "m_size m \<noteq> m_size m'" | "m_size m = m_size m'" "m_size m = 0" | "m_size m = m_size m'" "m_size m \<noteq> 0" by blast
  then show ?thesis
  proof cases
    case 1
    then have "entry_map m \<noteq> entry_map m'" using size by blast
    with 1 show ?thesis by (simp add: map_equals_def)
  next
    case 2
    then show ?thesis using empty assms by (simp add: map_equals_def)
  next
    case 3
    then have "(entry_map m \<subseteq>\<^sub>m entry_map m') = (entry_map m = entry_map m')" using le_eq by auto
    with 3 show ?thesis by (simp only: map_equals_def entries_equal_ok [OF assms(2)] sub if_False if_True simp_thms)
  qed
qed

end

subsection \<open>Loops over the entries\<close>

text \<open>The same loop over a list of entries.\<close>

fun for_each_list :: "('k \<Rightarrow> 'v \<Rightarrow> 's \<Rightarrow> 'v \<times> 's) \<Rightarrow> ('k \<times> 'v) list \<Rightarrow> 's \<Rightarrow> ('k \<times> 'v) list \<times> 's" where
  "for_each_list body [] s = ([], s)"
| "for_each_list body ((k, v) # es) s =
     (let (v, s) = body k v s; (es, s) = for_each_list body es s in ((k, v) # es, s))"

lemma for_each_list_keys: "map fst (fst (for_each_list body es s)) = map fst es"
  by (induction body es s rule: for_each_list.induct) (auto simp: Let_def split: prod.splits)

lemma for_each_bucket_eq:
  "used_slots (fst (for_each_bucket body bs s)) = fst (for_each_list body (used_slots bs) s)
   \<and> snd (for_each_bucket body bs s) = snd (for_each_list body (used_slots bs) s)"
proof (induction body bs s rule: for_each_bucket.induct)
  case (3 body b bs s)
  then show ?case by (cases "slot b") (auto simp: Let_def split: prod.splits)
qed (auto simp: Let_def split: prod.splits)

lemma for_each_bucket_keys:
  "list_all2 (rel_option (\<lambda>b c. fst (slot b) = fst (slot c) \<and> bucket_state b = bucket_state c \<and> stored_hash b = stored_hash c))
     (fst (for_each_bucket body bs s)) bs"
  by (induction body bs s rule: for_each_bucket.induct) (auto simp: Let_def split: prod.splits)

text \<open>The layout depends only on the hashes.\<close>

lemma layout_same_hash:
  assumes "layout_ok tr bs"
    and "list_all2 (rel_option (\<lambda>b c. traits_hash tr (slot b) = traits_hash tr (slot c)
      \<and> bucket_state b = bucket_state c \<and> stored_hash b = stored_hash c)) bs' bs"
  shows "layout_ok tr bs'"
proof -
  have len: "length bs' = length bs" using assms(2) by (rule list_all2_lengthD)
  have same: "rel_option (\<lambda>b c. traits_hash tr (slot b) = traits_hash tr (slot c)
      \<and> bucket_state b = bucket_state c \<and> stored_hash b = stored_hash c) (bs' ! i) (bs ! i)" if "i < length bs" for i
    using assms(2) that len by (simp add: list_all2_conv_all_nth)
  have probe: "probe_length_at tr n i (slot b) = probe_length_at tr n i (slot c)"
    if "traits_hash tr (slot b) = traits_hash tr (slot c)" for n i b c
    using that by (simp add: probe_length_at_def ideal_index_def)
  have "bucket_ok tr (length bs) i b" if i: "i < length bs" "bs' ! i = Some b" for i b
  proof -
    obtain c where c: "bs ! i = Some c" "traits_hash tr (slot b) = traits_hash tr (slot c)"
      "bucket_state b = bucket_state c" "stored_hash b = stored_hash c"
      using same [OF i(1)] i(2) by (auto simp: option_rel_Some1)
    then have "bucket_ok tr (length bs) i c" using assms(1) i(1) by (simp add: layout_ok_def)
    then show ?thesis using c probe [OF c(2)] by (simp add: bucket_ok_def)
  qed
  moreover have "robin_hood tr bs'"
  proof (rule robin_hoodI)
    fix i b
    assume i: "i < length bs'" and b: "bs' ! next_bucket (length bs') i = Some b"
      and pos: "0 < probe_length_at tr (length bs') (next_bucket (length bs') i) (slot b)"
    obtain b' where b': "bs ! next_bucket (length bs) i = Some b'" "traits_hash tr (slot b) = traits_hash tr (slot b')"
      using same [of "next_bucket (length bs) i"] i b len by (auto simp: option_rel_Some1)
    then obtain c where c: "bs ! i = Some c" "probe_length_at tr (length bs) (next_bucket (length bs) i) (slot b)
        \<le> Suc (probe_length_at tr (length bs) i (slot c))"
      using robin_hoodD [of tr bs i b'] assms(1) i pos len probe [OF b'(2)] by (auto simp: layout_ok_def)
    then obtain c' where c': "bs' ! i = Some c'" "traits_hash tr (slot c') = traits_hash tr (slot c)"
      using same [of i] i len by (auto simp: option_rel_Some2)
    with c(2) len probe [OF c'(2)] show "\<exists>c. bs' ! i = Some c \<and> probe_length_at tr (length bs') (next_bucket (length bs') i) (slot b)
        \<le> Suc (probe_length_at tr (length bs') i (slot c))" by auto
  qed
  ultimately show ?thesis using assms(1) len by (simp add: layout_ok_def)
qed

context hash_map_keys
begin

lemma for_each_entry_ok:
  assumes "table_ok tr m"
  shows "table_ok tr (fst (for_each_entry body m s))"
    and "table_values (fst (for_each_entry body m s)) = fst (for_each_list body (table_values m) s)"
    and "snd (for_each_entry body m s) = snd (for_each_list body (table_values m) s)"
    and "m_size (fst (for_each_entry body m s)) = m_size m"
    and "m_capacity (fst (for_each_entry body m s)) = m_capacity m"
proof -
  let ?r = "for_each_bucket body (m_buckets m) s"
  let ?m = "m\<lparr> m_buckets := fst ?r \<rparr>"
  have m: "for_each_entry body m s = (?m, snd ?r)" by (simp add: for_each_entry_def split_def Let_def)
  have rel: "list_all2 (rel_option (\<lambda>b c. traits_hash tr (slot b) = traits_hash tr (slot c)
      \<and> bucket_state b = bucket_state c \<and> stored_hash b = stored_hash c)) (fst ?r) (m_buckets m)"
    by (rule list_all2_mono [OF for_each_bucket_keys]) (auto elim!: option.rel_mono_strong)
  then have len: "length (fst ?r) = m_capacity m" by (rule list_all2_lengthD)
  show vals: "table_values (fst (for_each_entry body m s)) = fst (for_each_list body (table_values m) s)"
    and "snd (for_each_entry body m s) = snd (for_each_list body (table_values m) s)"
    using for_each_bucket_eq [of body "m_buckets m" s] by (simp_all add: m table_values_def)
  show "m_size (fst (for_each_entry body m s)) = m_size m"
    "m_capacity (fst (for_each_entry body m s)) = m_capacity m" by (simp_all add: m len)
  have keys: "map fst (table_values ?m) = map fst (table_values m)"
    using vals for_each_list_keys [of body "table_values m" s] by (simp add: m)
  then have "size (table_elems ?m) = size (table_elems m)"
    by (metis length_map size_mset table_elems_values)
  moreover have "unequal tr (table_elems ?m)"
    using unequal_distinct [of "table_values ?m"] keys distinct_entries [OF assms] by (simp add: table_elems_values)
  moreover have "m_buckets m = [] \<Longrightarrow> fst ?r = []" by simp
  ultimately show "table_ok tr (fst (for_each_entry body m s))"
    using assms layout_same_hash [OF _ rel] len by (auto simp: m table_ok_def)
qed

end

subsection \<open>Writing in place\<close>

lemma lookup_for_writing_replaced:
  "\<lbrakk> lookup_for_writing tr predicate h v behavior n bs i p = Inr (ReplacedExistingEntry, bs'); i < length bs \<rbrakk>
   \<Longrightarrow> \<exists>j b. j < length bs \<and> bs ! j = Some b \<and> predicate (slot b) \<and> bs' = bs[j := Some (b\<lparr> slot := v \<rparr>)]"
proof (induction n arbitrary: i p)
  case (Suc n)
  show ?case
  proof (cases "bs ! i")
    case None
    with Suc.prems show ?thesis by (simp add: Let_def)
  next
    case (Some b)
    show ?thesis
    proof (cases "hash_check tr b h \<and> predicate (slot b)")
      case True
      with Some Suc.prems show ?thesis by (auto split: if_splits)
    next
      case False
      then have "lookup_for_writing tr predicate h v behavior n bs (next_bucket (length bs) i) (p + 1) = Inr (ReplacedExistingEntry, bs')"
        using Suc.prems(1) Some by (auto simp: Let_def result_bind_eq_Inr split: if_splits)
      from Suc.IH [OF this] Suc.prems(2) show ?thesis by simp
    qed
  qed
qed simp

context hash_container
begin

lemma equal_slots_same_bucket:
  assumes "table_ok tr t" "i < m_capacity t" "m_buckets t ! i = Some b" "j < m_capacity t" "m_buckets t ! j = Some c"
    "traits_equals tr (slot b) (slot c)"
  shows "i = j"
proof (rule ccontr)
  assume "i \<noteq> j"
  then have "slot c \<in># elems ((m_buckets t)[i := None])" using assms(4,5) by (intro elems_memI [of j]) simp_all
  moreover have "unequal tr (add_mset (slot b) (elems ((m_buckets t)[i := None])))"
    using elems_clear [OF assms(2,3)] assms(1) by (simp add: table_ok_def table_elems_def)
  ultimately show False using assms(6) equals_sym by (auto simp: unequal_add)
qed

lemma try_set_capacity:
  assumes "table_ok tr t" "try_set tr t v behavior = Inr (r, t')"
  shows "m_capacity t' = (if should_grow t then max (m_capacity t * 160 div 100) (m_capacity t + 8) else m_capacity t)"
proof (cases "should_grow t")
  case True
  obtain u where u: "try_rehash tr t (m_capacity t * 160 div 100) = Inr u" "table_ok tr u" "m_size u = m_size t"
    "m_capacity u = max (m_capacity t * 160 div 100) (m_capacity t + 8)"
    using try_rehash_ok [OF assms(1)] by blast
  have "m_size t \<le> m_capacity t" using assms(1) by (auto simp: table_ok_def table_elems_def elems_def)
  then have "m_size u + 1 < m_capacity u" using u(3,4) by linarith
  from write_value_ok [OF u(2) this, of v behavior] u True assms(2) show ?thesis by (auto simp: try_set_def)
next
  case False
  with try_set_ok [OF assms(1), of v behavior] assms(2) show ?thesis by auto
qed

text \<open>Where a value is there already and the table does not grow, it is replaced in its bucket.\<close>

lemma try_set_in_place:
  assumes "table_ok tr t" "\<not> should_grow t" "i < m_capacity t" "m_buckets t ! i = Some b" "traits_equals tr (slot b) v"
  shows "try_set tr t v Replace_Entry = Inr (ReplacedExistingEntry, t\<lparr> m_buckets := (m_buckets t)[i := Some (b\<lparr> slot := v \<rparr>)] \<rparr>)"
proof -
  have "slot b \<in># table_elems t" using elems_memI [OF assms(3,4)] by (simp add: table_elems_def)
  then have "set_result tr Replace_Entry v (table_elems t) = ReplacedExistingEntry"
    using assms(5) by (auto simp: set_result_def)
  then obtain t' where t': "try_set tr t v Replace_Entry = Inr (ReplacedExistingEntry, t')"
    using try_set_ok [OF assms(1), of v Replace_Entry] by auto
  have pos: "0 < m_capacity t" using assms(3) by linarith
  from t' obtain bs' where bs': "lookup_for_writing tr (\<lambda>c. traits_equals tr c v) (traits_hash tr v) v Replace_Entry
      (m_capacity t) (m_buckets t) (unat (traits_hash tr v) mod m_capacity t) 0 = Inr (ReplacedExistingEntry, bs')"
    "t' = t\<lparr> m_buckets := bs' \<rparr>"
    using assms(2) by (auto simp: try_set_def write_value_def Let_def result_bind_eq_Inr)
  obtain j c where j: "j < m_capacity t" "m_buckets t ! j = Some c" "traits_equals tr (slot c) v"
    "bs' = (m_buckets t)[j := Some (c\<lparr> slot := v \<rparr>)]"
    using lookup_for_writing_replaced [OF bs'(1)] pos by auto
  have "i = j" using equal_slots_same_bucket [OF assms(1,3,4) j(1,2)] assms(5) j(3) equals_sym equals_trans by blast
  with j assms(4) bs'(2) t' show ?thesis by simp
qed

end

context hash_map_keys
begin

lemma set_slot_ok:
  assumes "table_ok tr m" "i < m_capacity m" "m_buckets m ! i = Some b" "slot b = (key, v)"
    and m'_def: "m' = m\<lparr> m_buckets := (m_buckets m)[i := Some (b\<lparr> slot := (key, w) \<rparr>)] \<rparr>"
  shows "table_ok tr m'" "entry_map m' = (entry_map m)(key \<mapsto> w)"
proof -
  obtain N where N: "table_elems m = add_mset (key, v) N"
    using elems_clear [OF assms(2,3)] assms(4) by (metis table_elems_def)
  have e: "table_elems m' = add_mset (key, w) N"
    using elems_replace [OF assms(2,3), of "b\<lparr> slot := (key, w) \<rparr>"] N assms(4) by (simp add: m'_def table_elems_def)
  have un: "unequal tr (add_mset (key, v) N)" using assms(1) N by (simp add: table_ok_def)
  have "layout_ok tr (m_buckets m)" "m_size m < m_capacity m" using assms(1,2) by (auto simp: table_ok_def)
  moreover from this have "layout_ok tr (m_buckets m')"
    using layout_replace [of tr "m_buckets m" i b "(key, w)"] assms(2-4) by (simp add: m'_def)
  ultimately show ok: "table_ok tr m'"
    using assms(1) un by (simp add: table_ok_def e N unequal_add) (simp add: m'_def)
  show "entry_map m' = (entry_map m)(key \<mapsto> w)"
    using un by (intro map_eqI) (auto simp: entry_map_iff [OF ok] entry_map_iff [OF assms(1)] e N unequal_add)
qed

lemma map_set_in_place:
  assumes "table_ok tr m" "\<not> should_grow m" "i < m_capacity m" "m_buckets m ! i = Some b" "fst (slot b) = key"
  shows "map_set key_traits m key v Replace_Entry
    = Inr (ReplacedExistingEntry, m\<lparr> m_buckets := (m_buckets m)[i := Some (b\<lparr> slot := (key, v) \<rparr>)] \<rparr>)"
  using try_set_in_place [OF assms(1-4), of "(key, v)"] assms(5) by (simp add: map_set_def flip: tr)

lemma map_set_capacity:
  "\<lbrakk> table_ok tr m; map_set key_traits m key v behavior = Inr (r, m') \<rbrakk>
    \<Longrightarrow> m_capacity m' = (if should_grow m then max (m_capacity m * 160 div 100) (m_capacity m + 8) else m_capacity m)"
  using try_set_capacity [of m "(key, v)" behavior r m'] by (simp add: map_set_def tr)

end

subsection \<open>Keys\<close>

definition string_traits :: "byte_string traits" where
  "string_traits = \<lparr> traits_hash = string_hash_of, traits_equals = (=), may_have_slow_equality_check = True \<rparr>"

definition case_insensitive_traits :: "byte_string traits" where
  "case_insensitive_traits = \<lparr> traits_hash = case_insensitive_view_hash, traits_equals = equals_ignoring_ascii_case,
     may_have_slow_equality_check = True \<rparr>"

interpretation string_map: hash_map_keys string_traits "entry_traits string_traits"
  by unfold_locales (simp_all add: string_traits_def)

interpretation case_insensitive_table: hash_container case_insensitive_traits
  by unfold_locales
    (auto simp: case_insensitive_traits_def equals_ignoring_ascii_case_lowercase intro: case_insensitive_views.equals_hash)

subsection \<open>Sequences of operations\<close>

datatype ('k, 'v) map_op =
  Op_Set 'k 'v
| Op_Remove 'k
| Op_Remove_All_Matching "'k \<Rightarrow> 'v \<Rightarrow> bool"
| Op_Ensure_Capacity nat
| Op_Clear

fun run_map_op :: "'k traits \<Rightarrow> ('k, 'v) map_op \<Rightarrow> ('k, 'v) hash_map \<Rightarrow> ('k, 'v) hash_map result" where
  "run_map_op key_traits (Op_Set k v) m = result_bind (map_set key_traits m k v Replace_Entry) (\<lambda>(r, m). Inr m)"
| "run_map_op key_traits (Op_Remove k) m = result_bind (map_remove key_traits m k) (\<lambda>(r, m). Inr m)"
| "run_map_op key_traits (Op_Remove_All_Matching predicate) m =
     result_bind (map_remove_all_matching key_traits m predicate) (\<lambda>(r, m). Inr m)"
| "run_map_op key_traits (Op_Ensure_Capacity n) m = try_ensure_capacity (entry_traits key_traits) m n"
| "run_map_op key_traits Op_Clear m = Inr (clear_with_capacity m)"

fun run_map_ops :: "'k traits \<Rightarrow> ('k, 'v) map_op list \<Rightarrow> ('k, 'v) hash_map \<Rightarrow> ('k, 'v) hash_map result" where
  "run_map_ops key_traits [] m = Inr m"
| "run_map_ops key_traits (op # ops) m = result_bind (run_map_op key_traits op m) (run_map_ops key_traits ops)"

text \<open>The operations on finite maps.\<close>

fun map_op_spec :: "('k, 'v) map_op \<Rightarrow> ('k \<rightharpoonup> 'v) \<Rightarrow> 'k \<rightharpoonup> 'v" where
  "map_op_spec (Op_Set k v) f = f(k \<mapsto> v)"
| "map_op_spec (Op_Remove k) f = f(k := None)"
| "map_op_spec (Op_Remove_All_Matching predicate) f =
     (\<lambda>k. case f k of None \<Rightarrow> None | Some v \<Rightarrow> if predicate k v then None else Some v)"
| "map_op_spec (Op_Ensure_Capacity n) f = f"
| "map_op_spec Op_Clear f = Map.empty"

lemma clear_with_capacity_ok: "table_ok tr t \<Longrightarrow> table_ok tr (clear_with_capacity t) \<and> table_elems (clear_with_capacity t) = {#}"
  by (auto simp: clear_with_capacity_def table_ok_def layout_ok_def robin_hood_def table_elems_def elems_def)

context hash_map_keys
begin

lemma run_map_op_ok:
  assumes "table_ok tr m"
  shows "\<exists>m'. run_map_op key_traits op m = Inr m' \<and> table_ok tr m' \<and> entry_map m' = map_op_spec op (entry_map m)"
proof (cases op)
  case (Op_Set k v)
  then show ?thesis using map_set_ok [OF assms, of k v] by auto
next
  case (Op_Remove k)
  then show ?thesis using map_remove_ok [OF assms, of k] by auto
next
  case (Op_Remove_All_Matching predicate)
  then show ?thesis using map_remove_all_matching_ok [OF assms, of predicate] by auto
next
  case (Op_Ensure_Capacity n)
  obtain m' where m': "try_ensure_capacity tr m n = Inr m'" "table_ok tr m'" "table_elems m' = table_elems m"
    using try_ensure_capacity_ok [OF assms] by blast
  then have "entry_map m' = entry_map m" by (intro map_eqI) (simp add: entry_map_iff assms)
  with m' Op_Ensure_Capacity show ?thesis by (simp flip: tr)
next
  case Op_Clear
  moreover have "entry_map (clear_with_capacity m) = Map.empty"
    using clear_with_capacity_ok [OF assms] by (intro map_eqI) (simp add: entry_map_iff)
  ultimately show ?thesis using clear_with_capacity_ok [OF assms] by simp
qed

lemma run_map_ops_ok:
  "table_ok tr m \<Longrightarrow> \<exists>m'. run_map_ops key_traits ops m = Inr m' \<and> table_ok tr m'
    \<and> entry_map m' = fold map_op_spec ops (entry_map m)"
proof (induction ops arbitrary: m)
  case (Cons op ops)
  obtain m' where "run_map_op key_traits op m = Inr m'" "table_ok tr m'" "entry_map m' = map_op_spec op (entry_map m)"
    using run_map_op_ok [OF Cons.prems, of op] by blast
  with Cons.IH [of m'] show ?case by simp
qed simp

lemma map_keys_ok: "table_ok tr m \<Longrightarrow> distinct (map_keys m) \<and> set (map_keys m) = dom (entry_map m)"
  using distinct_entries [of m] by (simp add: map_keys_def entry_map_def dom_map_of_conv_image_fst)

end

text \<open>The same for the table itself, whose values are sets up to the equality of the traits.\<close>

datatype 'a table_op = Table_Set 'a existing_entry_behavior | Table_Remove 'a | Table_Take_All_Matching "'a \<Rightarrow> bool"

fun run_table_op :: "'a traits \<Rightarrow> 'a table_op \<Rightarrow> 'a hash_table \<Rightarrow> 'a hash_table result" where
  "run_table_op tr (Table_Set v behavior) t = result_bind (try_set tr t v behavior) (\<lambda>(r, t). Inr t)"
| "run_table_op tr (Table_Remove v) t = result_bind (table_remove tr t v) (\<lambda>(r, t). Inr t)"
| "run_table_op tr (Table_Take_All_Matching predicate) t =
     result_bind (take_all_matching tr t predicate) (\<lambda>(taken, t). Inr t)"

fun run_table_ops :: "'a traits \<Rightarrow> 'a table_op list \<Rightarrow> 'a hash_table \<Rightarrow> 'a hash_table result" where
  "run_table_ops tr [] t = Inr t"
| "run_table_ops tr (op # ops) t = result_bind (run_table_op tr op t) (run_table_ops tr ops)"

fun table_op_spec :: "'a traits \<Rightarrow> 'a table_op \<Rightarrow> 'a multiset \<Rightarrow> 'a multiset" where
  "table_op_spec tr (Table_Set v behavior) M = set_spec tr behavior v M"
| "table_op_spec tr (Table_Remove v) M = {#x \<in># M. \<not> traits_equals tr x v#}"
| "table_op_spec tr (Table_Take_All_Matching predicate) M = {#x \<in># M. \<not> predicate x#}"

context hash_container
begin

lemma run_table_op_ok:
  assumes "table_ok tr t"
  shows "\<exists>t'. run_table_op tr op t = Inr t' \<and> table_ok tr t' \<and> table_elems t' = table_op_spec tr op (table_elems t)"
proof (cases op)
  case (Table_Set v behavior)
  then show ?thesis using try_set_ok [OF assms, of v behavior] by auto
next
  case (Table_Remove v)
  then show ?thesis using table_remove_ok [OF assms, of v] by auto
next
  case (Table_Take_All_Matching predicate)
  then show ?thesis using take_all_matching_ok [OF assms, of predicate] by auto
qed

lemma run_table_ops_ok:
  "table_ok tr t \<Longrightarrow> \<exists>t'. run_table_ops tr ops t = Inr t' \<and> table_ok tr t'
    \<and> table_elems t' = fold (table_op_spec tr) ops (table_elems t)"
proof (induction ops arbitrary: t)
  case (Cons op ops)
  obtain t' where "run_table_op tr op t = Inr t'" "table_ok tr t'" "table_elems t' = table_op_spec tr op (table_elems t)"
    using run_table_op_ok [OF Cons.prems, of op] by blast
  with Cons.IH [of t'] show ?case by simp
qed simp

lemma table_find_iff: "table_ok tr t \<Longrightarrow> \<exists>r. table_find tr t v = Inr r \<and> (r \<noteq> None \<longleftrightarrow> (\<exists>x \<in># table_elems t. traits_equals tr x v))"
proof -
  assume "table_ok tr t"
  from table_find_ok [OF this, of v] show ?thesis
  proof (elim disjE exE conjE)
    fix i b
    assume *: "i < m_capacity t" "m_buckets t ! i = Some b" "traits_equals tr (slot b) v" "table_find tr t v = Inr (Some i)"
    have "slot b \<in># table_elems t" using elems_memI [OF *(1,2)] by (simp add: table_elems_def)
    with *(3,4) show ?thesis by auto
  next
    assume "\<forall>x \<in># table_elems t. \<not> traits_equals tr x v" "table_find tr t v = Inr None"
    then show ?thesis by auto
  qed
qed

end

subsection \<open>Properties\<close>

text \<open>C4: A hash map implements a finite map: for keys compared by equality and any hash function, any sequence
  of operations on an empty map returns, without a failing assertion or an endless probe, and the lookups,
  the number of entries and the keys are then those of the finite map that the same operations give.\<close>

theorem hash_map_implements_map:
  assumes "traits_equals key_traits = (=)"
  shows "\<exists>m. run_map_ops key_traits ops empty_table = Inr m
    \<and> (\<forall>k. map_get key_traits m k = Inr (fold map_op_spec ops Map.empty k))
    \<and> m_size m = card (dom (fold map_op_spec ops Map.empty))
    \<and> distinct (map_keys m) \<and> set (map_keys m) = dom (fold map_op_spec ops Map.empty)"
proof -
  have keys: "hash_map_keys key_traits (entry_traits key_traits)" using assms by (simp add: hash_map_keys_def)
  from hash_map_keys.run_map_ops_ok [OF keys table_ok_empty] obtain m where m:
    "run_map_ops key_traits ops empty_table = Inr m" "table_ok (entry_traits key_traits) m"
    "entry_map m = fold map_op_spec ops Map.empty" by (auto simp: hash_map_keys.entry_map_empty [OF keys])
  then show ?thesis
    using hash_map_keys.map_get_ok [OF keys m(2)] hash_map_keys.size_entry_map [OF keys m(2)]
      hash_map_keys.map_keys_ok [OF keys m(2)] by auto
qed

theorem hash_map_implements_map_witness:
  "\<exists>m. run_map_ops string_traits [Op_Set ''a'' 1, Op_Set ''b'' (2 :: nat), Op_Remove ''a'', Op_Set ''b'' 3] empty_table = Inr m
     \<and> map_get string_traits m ''b'' = Inr (Some 3) \<and> map_get string_traits m ''a'' = Inr None"
proof -
  have "traits_equals string_traits = (=)" by (simp add: string_traits_def)
  from hash_map_implements_map [OF this, of "[Op_Set ''a'' 1, Op_Set ''b'' 2, Op_Remove ''a'', Op_Set ''b'' 3]"]
  obtain m where "run_map_ops string_traits [Op_Set ''a'' 1, Op_Set ''b'' (2 :: nat), Op_Remove ''a'', Op_Set ''b'' 3] empty_table = Inr m"
    "\<forall>k. map_get string_traits m k = Inr (fold map_op_spec [Op_Set ''a'' 1, Op_Set ''b'' 2, Op_Remove ''a'', Op_Set ''b'' 3] Map.empty k)"
    by blast
  moreover from this(2) have "map_get string_traits m ''b'' = Inr (Some 3)" "map_get string_traits m ''a'' = Inr None"
    by simp_all
  ultimately show ?thesis by blast
qed

text \<open>C5: Every operation of a hash table ends: whenever equality is an equivalence that the hash respects, a
  sequence of insertions, removals and filterings of an empty table returns, and a lookup after it returns
  and finds a value exactly if an equal one was kept.\<close>

theorem hash_table_operations_return:
  assumes "hash_container tr"
  shows "\<exists>t r. run_table_ops tr ops empty_table = Inr t \<and> table_find tr t v = Inr r
    \<and> (r \<noteq> None) = (\<exists>x. x \<in># fold (table_op_spec tr) ops {#} \<and> traits_equals tr x v)"
proof -
  from hash_container.run_table_ops_ok [OF assms table_ok_empty] obtain t where t:
    "run_table_ops tr ops empty_table = Inr t" "table_ok tr t" "table_elems t = fold (table_op_spec tr) ops {#}" by auto
  with hash_container.table_find_iff [OF assms t(2), of v] show ?thesis by auto
qed

theorem hash_table_operations_return_witness:
  "\<exists>t r. run_table_ops case_insensitive_traits [Table_Set ''Host'' Keep_Entry] empty_table = Inr t
     \<and> table_find case_insensitive_traits t ''HOST'' = Inr r \<and> r \<noteq> None"
proof -
  have "equals_ignoring_ascii_case ''Host'' ''HOST''" by code_simp
  then show ?thesis
    using hash_table_operations_return [OF case_insensitive_table.hash_container_axioms,
        of "[Table_Set ''Host'' Keep_Entry]" "''HOST''"]
    by (auto simp: set_spec_def case_insensitive_traits_def)
qed

end
