(* ===== verification/URL_Public_Suffix.thy ===== *)
theory URL_Public_Suffix
  imports URL_Host "HOL-Library.List_Lexorder" "HOL-Library.Char_ord"
begin

text \<open>
  The public suffix lookup that \<^verbatim>\<open>Meta/generate_public_suffix_data.py\<close> generates, over the table it
  builds, and \<^verbatim>\<open>AK/BinarySearch.h\<close>, which it calls.  The text of the generated functions is in the script; the
  list of rules they search is downloaded and is an argument here.  The hypotheses on the public suffix
  list that the host theorems have are proved of this code, for every table.
\<close>

subsection \<open>Binary search\<close>

definition default_comparator :: "'a::linorder \<Rightarrow> 'a \<Rightarrow> int" where
  "default_comparator lhs rhs = (if lhs > rhs then 1 else if lhs < rhs then -1 else 0)"

function binary_search_loop :: "'a::linorder list \<Rightarrow> 'a \<Rightarrow> nat \<Rightarrow> nat \<Rightarrow> nat option" where
  "binary_search_loop haystack needle low high =
     (if \<not> low \<le> high then None
      else let middle = low + (high - low) div 2;
               comparison = default_comparator needle (haystack ! middle)
           in if comparison < 0
              then (if middle \<noteq> 0 then binary_search_loop haystack needle low (middle - 1) else None)
              else if comparison > 0 then binary_search_loop haystack needle (middle + 1) high
              else Some middle)"
  by auto
termination
  by (relation "measure (\<lambda>(haystack, needle, low, high). Suc high - low)") (auto simp: Let_def)

declare binary_search_loop.simps [simp del]

definition binary_search :: "'a::linorder list \<Rightarrow> 'a \<Rightarrow> nat option" where
  "binary_search haystack needle =
     (if length haystack = 0 then None else binary_search_loop haystack needle 0 (length haystack - 1))"

subsection \<open>The table and the lookups\<close>

fun join_parts :: "char \<Rightarrow> byte_string list \<Rightarrow> byte_string" where
  "join_parts sep [] = []"
| "join_parts sep [p] = p"
| "join_parts sep (p # q # ps) = p @ sep # join_parts sep (q # ps)"

text \<open>A rule with its labels in reverse order, and the sorted table of the rules that are not comments or empty.\<close>

definition reverse_labels :: "byte_string \<Rightarrow> byte_string" where
  "reverse_labels line = join_parts CHR ''.'' (rev (split_parts CHR ''.'' line))"

text \<open>Python's \<^verbatim>\<open>str.strip\<close>, on the UTF-8 bytes of the line.\<close>

definition python_spaces :: "byte_string list" where
  "python_spaces = map code_point_to_utf8
     ([9..<14] @ [28..<33] @ [133, 160, 5760] @ [8192..<8203] @ [8232, 8233, 8239, 8287, 12288])"

fun strip_start :: "byte_string list \<Rightarrow> byte_string \<Rightarrow> byte_string" where
  "strip_start spaces [] = []"
| "strip_start spaces (c # cs) =
     (case find (\<lambda>space. starts_with (c # cs) space) spaces of
        None \<Rightarrow> c # cs
      | Some space \<Rightarrow> strip_start spaces (drop (length space - 1) cs))"

definition python_strip :: "byte_string \<Rightarrow> byte_string" where
  "python_strip line = rev (strip_start (map rev python_spaces) (rev (strip_start python_spaces line)))"

definition public_suffix_table :: "byte_string list \<Rightarrow> byte_string list" where
  "public_suffix_table lines =
     sort (map reverse_labels (filter (\<lambda>line. \<not> (starts_with line ''//'' \<or> line = [])) (map python_strip lines)))"

definition is_public_suffix_in :: "byte_string list \<Rightarrow> byte_string \<Rightarrow> bool" where
  "is_public_suffix_in s_public_suffixes host \<longleftrightarrow> binary_search s_public_suffixes host \<noteq> None"

fun collect_suffix :: "byte_string list \<Rightarrow> byte_string \<Rightarrow> byte_string list \<Rightarrow> byte_string" where
  "collect_suffix table overall [] = overall"
| "collect_suffix table overall (part # parts) =
     (if is_public_suffix_in table (overall @ part) then collect_suffix table (overall @ part @ ''.'') parts
      else if is_public_suffix_in table (overall @ ''.'') then collect_suffix table (overall @ part @ ''.'') parts
      else overall)"

definition get_public_suffix_in :: "externals \<Rightarrow> byte_string list \<Rightarrow> byte_string \<Rightarrow> byte_string option exec" where
  "get_public_suffix_in ext table string =
     (let overall = collect_suffix table [] (rev (split_view string CHR ''.'' False));
          result = join_parts CHR ''.'' (rev (split_view overall CHR ''.'' False))
      in if result = [] then Done None
         else case must_from_utf8 ext result of Done r \<Rightarrow> Done (Some r) | Verify_failed \<Rightarrow> Verify_failed)"

text \<open>
  The third-party functions with these lookups in the place of the public suffix list.  A host that reaches
  the lookup is ASCII, and then \<^verbatim>\<open>to_string\<close> does not fail (\<open>get_public_suffix_in_ascii\<close> below).
\<close>

definition with_public_suffixes :: "byte_string list \<Rightarrow> externals \<Rightarrow> externals" where
  "with_public_suffixes table ext =
     ext\<lparr> get_public_suffix := (\<lambda>s. case get_public_suffix_in ext table s of Done r \<Rightarrow> r | Verify_failed \<Rightarrow> None),
          is_public_suffix := is_public_suffix_in table \<rparr>"

subsection \<open>The search finds what a sorted table holds\<close>

lemma binary_search_loop_empty: "high < low \<Longrightarrow> binary_search_loop xs x low high = None"
  by (subst binary_search_loop.simps) simp

lemma binary_search_loop_step:
  assumes "low \<le> high" "middle = low + (high - low) div 2"
  shows "binary_search_loop xs x low high =
    (if x < xs ! middle then (if middle \<noteq> 0 then binary_search_loop xs x low (middle - 1) else None)
     else if xs ! middle < x then binary_search_loop xs x (middle + 1) high else Some middle)"
  using assms(1) unfolding assms(2) by (subst binary_search_loop.simps) (auto simp: Let_def default_comparator_def)

text \<open>The loop returns an index of the needle when there is one between the bounds, and only then.\<close>

lemma binary_search_loop_exact:
  assumes "sorted xs" "high < length xs"
  shows "case binary_search_loop xs x low high of
           Some i \<Rightarrow> low \<le> i \<and> i \<le> high \<and> xs ! i = x
         | None \<Rightarrow> (\<forall>i. low \<le> i \<longrightarrow> i \<le> high \<longrightarrow> xs ! i \<noteq> x)"
  using assms(2)
proof (induction "Suc high - low" arbitrary: low high rule: less_induct)
  case less
  show ?case
  proof (cases "low \<le> high")
    case False
    then show ?thesis by (simp add: binary_search_loop_empty)
  next
    case True
    define middle where "middle = low + (high - low) div 2"
    have middle: "low \<le> middle" "middle \<le> high" using True by (auto simp: middle_def)
    note step = binary_search_loop_step [OF True middle_def, of xs x]
    have below: "xs ! i \<le> xs ! middle" if "i \<le> middle" for i
      using assms(1) that middle(2) less.prems by (simp add: sorted_nth_mono)
    have above: "xs ! middle \<le> xs ! i" if "middle \<le> i" "i \<le> high" for i
      using assms(1) that less.prems by (simp add: sorted_nth_mono)
    consider "x < xs ! middle" "middle = 0" | "x < xs ! middle" "middle \<noteq> 0" | "xs ! middle < x" | "x = xs ! middle"
      by force
    then show ?thesis
    proof cases
      case 1
      then have "xs ! i \<noteq> x" if "i \<le> high" for i using above [of i] that by auto
      then show ?thesis using step 1 by simp
    next
      case 2
      have IH: "case binary_search_loop xs x low (middle - 1) of
           Some i \<Rightarrow> low \<le> i \<and> i \<le> middle - 1 \<and> xs ! i = x
         | None \<Rightarrow> (\<forall>i. low \<le> i \<longrightarrow> i \<le> middle - 1 \<longrightarrow> xs ! i \<noteq> x)"
        by (rule less.hyps) (use 2 middle less.prems in arith)+
      have "xs ! i \<noteq> x" if "binary_search_loop xs x low (middle - 1) = None" "low \<le> i" "i \<le> high" for i
        using above [of i] IH that 2 by (cases "middle \<le> i") auto
      then show ?thesis using step 2 IH middle by (cases "binary_search_loop xs x low (middle - 1)") auto
    next
      case 3
      have IH: "case binary_search_loop xs x (middle + 1) high of
           Some i \<Rightarrow> middle + 1 \<le> i \<and> i \<le> high \<and> xs ! i = x
         | None \<Rightarrow> (\<forall>i. middle + 1 \<le> i \<longrightarrow> i \<le> high \<longrightarrow> xs ! i \<noteq> x)"
        by (rule less.hyps) (use 3 middle less.prems in arith)+
      have "xs ! i \<noteq> x" if "binary_search_loop xs x (middle + 1) high = None" "low \<le> i" "i \<le> high" for i
        using below [of i] IH that 3 by (cases "i \<le> middle") auto
      then show ?thesis using step 3 IH middle by (cases "binary_search_loop xs x (middle + 1) high") auto
    next
      case 4
      then show ?thesis using step middle by simp
    qed
  qed
qed

lemma binary_search_exact:
  assumes "sorted xs"
  shows "case binary_search xs x of Some i \<Rightarrow> i < length xs \<and> xs ! i = x | None \<Rightarrow> x \<notin> set xs"
proof (cases "xs = []")
  case False
  then have "length xs - 1 < length xs" by simp
  from binary_search_loop_exact [OF assms this, where x = x and low = 0] False show ?thesis
    by (auto simp: binary_search_def in_set_conv_nth less_Suc_eq_le [symmetric] split: option.splits)
qed (simp add: binary_search_def)

lemma is_public_suffix_in_iff: "sorted table \<Longrightarrow> is_public_suffix_in table host \<longleftrightarrow> host \<in> set table"
  using binary_search_exact [of table host]
  by (auto simp: is_public_suffix_in_def in_set_conv_nth split: option.splits)

lemma sorted_public_suffix_table [simp]: "sorted (public_suffix_table lines)"
  by (simp add: public_suffix_table_def)

subsection \<open>What the lookup of a suffix returns\<close>

lemma split_parts_no_sep: "p \<in> set (split_parts sep s) \<Longrightarrow> sep \<notin> set p"
proof (induction s arbitrary: p)
  case (Cons c s)
  then show ?case by (cases "split_parts sep s") (auto split: if_splits)
qed simp

lemma split_parts_subset: "p \<in> set (split_parts sep s) \<Longrightarrow> set p \<subseteq> set s"
proof (induction s arbitrary: p)
  case (Cons c s)
  then show ?case by (cases "split_parts sep s") (fastforce split: if_splits)+
qed simp

lemma split_view_parts:
  "p \<in> set (split_view s sep False) \<Longrightarrow> p \<noteq> [] \<and> sep \<notin> set p \<and> set p \<subseteq> set s"
  using split_parts_no_sep [of p sep s] split_parts_subset [of p sep s] by (auto simp: split_view_def split: if_splits)

lemma set_join_parts: "set (join_parts sep ps) \<subseteq> insert sep (\<Union> (set ` set ps))"
  by (induction sep ps rule: join_parts.induct) auto

lemma join_parts_eq_Nil: "\<forall>p \<in> set ps. p \<noteq> [] \<Longrightarrow> join_parts sep ps = [] \<longleftrightarrow> ps = []"
  by (cases "(sep, ps)" rule: join_parts.cases) auto

lemma last_join_parts:
  "ps \<noteq> [] \<Longrightarrow> \<forall>p \<in> set ps. p \<noteq> [] \<Longrightarrow> last (join_parts sep ps) = last (last ps)"
proof (induction sep ps rule: join_parts.induct)
  case (3 sep p q ps)
  then have "join_parts sep (q # ps) \<noteq> []" by (subst join_parts_eq_Nil) auto
  with 3 show ?case by simp
qed simp_all

lemma set_collect_suffix:
  "set (collect_suffix table overall parts) \<subseteq> set overall \<union> {CHR ''.''} \<union> \<Union> (set ` set parts)"
  by (induction table overall parts rule: collect_suffix.induct) (auto split: if_splits)

text \<open>The labels of the result: parts of the host between dots.\<close>

definition suffix_parts :: "byte_string list \<Rightarrow> byte_string \<Rightarrow> byte_string list" where
  "suffix_parts table s =
     rev (split_view (collect_suffix table [] (rev (split_view s CHR ''.'' False))) CHR ''.'' False)"

lemma get_public_suffix_in_parts:
  "get_public_suffix_in ext table s =
     (if suffix_parts table s = [] then Done None
      else case must_from_utf8 ext (join_parts CHR ''.'' (suffix_parts table s)) of
             Done r \<Rightarrow> Done (Some r) | Verify_failed \<Rightarrow> Verify_failed)"
proof -
  have "\<forall>p \<in> set (suffix_parts table s). p \<noteq> []" using split_view_parts by (auto simp: suffix_parts_def)
  then show ?thesis using join_parts_eq_Nil [of "suffix_parts table s" "CHR ''.''"]
    by (simp add: get_public_suffix_in_def Let_def suffix_parts_def)
qed

lemma suffix_parts_ok: "p \<in> set (suffix_parts table s) \<Longrightarrow> p \<noteq> [] \<and> CHR ''.'' \<notin> set p \<and> set p \<subseteq> insert CHR ''.'' (set s)"
proof -
  assume p: "p \<in> set (suffix_parts table s)"
  let ?overall = "collect_suffix table [] (rev (split_view s CHR ''.'' False))"
  have "set ?overall \<subseteq> insert CHR ''.'' (\<Union> (set ` set (rev (split_view s CHR ''.'' False))))"
    using set_collect_suffix [of table "[]" "rev (split_view s CHR ''.'' False)"] by simp
  also have "\<dots> \<subseteq> insert CHR ''.'' (set s)" using split_view_parts [of _ s] by fastforce
  finally show ?thesis using p split_view_parts [of p ?overall] by (auto simp: suffix_parts_def)
qed

lemma join_suffix_parts:
  assumes "suffix_parts table s \<noteq> []"
  defines "r \<equiv> join_parts CHR ''.'' (suffix_parts table s)"
  shows "r \<noteq> []" "last r \<noteq> CHR ''.''" "set r \<subseteq> insert CHR ''.'' (set s)"
proof -
  show "r \<noteq> []" using assms suffix_parts_ok by (simp add: join_parts_eq_Nil)
  have "last r = last (last (suffix_parts table s))" "last (suffix_parts table s) \<in> set (suffix_parts table s)"
    using assms suffix_parts_ok by (auto simp: last_join_parts)
  then show "last r \<noteq> CHR ''.''" using suffix_parts_ok by (metis last_in_set)
  show "set r \<subseteq> insert CHR ''.'' (set s)"
    unfolding r_def using suffix_parts_ok by (intro order_trans [OF set_join_parts]) blast
qed

lemma get_public_suffix_in_ascii:
  assumes "simdutf_ok ext" "is_ascii_string s"
  shows "\<exists>r. get_public_suffix_in ext table s = Done r"
proof (cases "suffix_parts table s = []")
  case False
  have "is_ascii_string (join_parts CHR ''.'' (suffix_parts table s))"
    using join_suffix_parts(3) [OF False] assms(2) by (fastforce simp: is_ascii_string_def list_all_iff is_ascii_def)
  then show ?thesis
    using False ascii_is_utf8 [OF assms(1)] by (simp add: get_public_suffix_in_parts must_from_utf8_def)
qed (simp add: get_public_suffix_in_parts)

lemma get_public_suffix_in_Some:
  assumes "get_public_suffix_in ext table s = Done (Some r)"
  shows "r \<noteq> [] \<and> last r \<noteq> CHR ''.'' \<and> set r \<subseteq> insert CHR ''.'' (set s)"
proof -
  have "suffix_parts table s \<noteq> []" "r = join_parts CHR ''.'' (suffix_parts table s)"
    using assms by (auto simp: get_public_suffix_in_parts must_from_utf8_def split: if_splits exec.splits)
  then show ?thesis using join_suffix_parts by metis
qed

lemma psl_ok_with_public_suffixes: "psl_ok (with_public_suffixes table ext)"
proof -
  have "p \<noteq> [] \<and> last p \<noteq> CHR ''.'' \<and> (is_ascii_string s \<longrightarrow> is_ascii_string p)"
    if "get_public_suffix_in ext table s = Done (Some p)" for s p
    using get_public_suffix_in_Some [OF that] by (fastforce simp: is_ascii_string_def list_all_iff is_ascii_def)
  then show ?thesis by (auto simp: psl_ok_def with_public_suffixes_def split: exec.splits)
qed

definition is_rule :: "byte_string \<Rightarrow> bool" where
  "is_rule line \<longleftrightarrow> \<not> (starts_with line ''//'' \<or> line = [])"

lemma set_public_suffix_table:
  "set (public_suffix_table lines) = reverse_labels ` {line \<in> python_strip ` set lines. is_rule line}"
  by (auto simp: public_suffix_table_def is_rule_def)

lemma sorted_example_table: "sorted [''com'', ''uk'', ''uk.co'']"
  by code_simp

lemma python_spaces_ends:
  "list_all (\<lambda>space. space \<noteq> [] \<and> (cp (hd space) \<le> 32 \<or> cp (hd space) \<ge> 128)) python_spaces"
  "list_all (\<lambda>space. space \<noteq> [] \<and> (cp (hd space) \<le> 32 \<or> cp (hd space) \<ge> 128)) (map rev python_spaces)"
  by (simp_all add: python_spaces_def upt_rec_numeral code_point_to_utf8_def numeral_3_eq_3 [symmetric])

lemma strip_start_plain:
  assumes "list_all (\<lambda>space. space \<noteq> [] \<and> (cp (hd space) \<le> 32 \<or> cp (hd space) \<ge> 128)) spaces"
    and "s \<noteq> []" "32 < cp (hd s)" "cp (hd s) < 128"
  shows "strip_start spaces s = s"
proof -
  obtain c cs where s: "s = c # cs" using assms(2) by (cases s) auto
  have "\<not> starts_with s space" if "space \<in> set spaces" for space
    using assms that by (cases space) (auto simp: s starts_with_def list_all_iff split: if_splits)
  then have "find (\<lambda>space. starts_with s space) spaces = None" by (auto simp: find_None_iff)
  then show ?thesis by (simp add: s)
qed

lemma python_strip_plain:
  assumes "s \<noteq> []" "32 < cp (hd s)" "cp (hd s) < 128" "32 < cp (last s)" "cp (last s) < 128"
  shows "python_strip s = s"
  using assms python_spaces_ends by (simp add: python_strip_def strip_start_plain hd_rev)

lemma example_table: "public_suffix_table [''// United Kingdom'', ''uk'', ''co.uk'', ''com''] = [''com'', ''uk'', ''uk.co'']"
proof -
  have "map python_strip [''// United Kingdom'', ''uk'', ''co.uk'', ''com''] = [''// United Kingdom'', ''uk'', ''co.uk'', ''com'']"
    by (simp add: python_strip_plain)
  moreover have "sort (map reverse_labels (filter (\<lambda>line. \<not> (starts_with line ''//'' \<or> line = []))
      [''// United Kingdom'', ''uk'', ''co.uk'', ''com''])) = [''com'', ''uk'', ''uk.co'']" by code_simp
  ultimately show ?thesis by (simp only: public_suffix_table_def)
qed

subsection \<open>Properties\<close>

text \<open>C11: Binary search is membership: on a sorted container it ends, the element it returns is inside the
  container and equal to the needle, and it returns nothing only when the needle is not there.\<close>

theorem binary_search_is_membership:
  assumes "sorted haystack"
  shows "(binary_search haystack needle \<noteq> None \<longleftrightarrow> needle \<in> set haystack)
    \<and> (binary_search haystack needle = Some i \<longrightarrow> i < length haystack \<and> haystack ! i = needle)"
  using binary_search_exact [OF assms, of needle] by (auto simp: in_set_conv_nth split: option.splits)

theorem binary_search_is_membership_witness:
  "binary_search [1, 3, 4 :: nat] 4 \<noteq> None \<and> binary_search [1, 3, 4 :: nat] 2 = None"
  using binary_search_is_membership [of "[1, 3, 4 :: nat]" 4] binary_search_is_membership [of "[1, 3, 4 :: nat]" 2] by simp

text \<open>C13: The generated lookup keeps what the host code relies on, for any table whatever: on an ASCII host it
  returns, and a suffix it finds is not empty, has no final dot and is ASCII.\<close>

theorem get_public_suffix_contract:
  assumes "simdutf_ok ext"
  shows "psl_ok (with_public_suffixes table ext)
    \<and> (is_ascii_string host \<longrightarrow>
         get_public_suffix_in ext table host = Done (get_public_suffix (with_public_suffixes table ext) host))"
  using psl_ok_with_public_suffixes get_public_suffix_in_ascii [OF assms, of host table]
  by (auto simp: with_public_suffixes_def)

theorem get_public_suffix_contract_witness:
  "get_public_suffix_in reference_externals [''com'', ''uk'', ''uk.co''] ''a.co.uk''
     = Done (get_public_suffix (with_public_suffixes [''com'', ''uk'', ''uk.co''] reference_externals) ''a.co.uk'')"
proof -
  have "is_ascii_string ''a.co.uk''" by code_simp
  then show ?thesis using get_public_suffix_contract [OF simdutf_ok_reference] by blast
qed


end
