(* ===== verification/Web_Cookie_Jar.thy ===== *)
theory Web_Cookie_Jar
  imports Web_Cookie AK_Hash_Map URL_Public_Suffix
begin

text \<open>
  \<^verbatim>\<open>Libraries/LibWebView/CookieJar.cpp\<close>: the store of cookies in memory, the steps that accept a cookie and
  those that select the cookies of a request.  The two hash maps are those of \<open>AK_Hash_Map\<close>.  Each reading
  of the clock is an argument, in the order of the readings; what the clients are told of changed cookies is
  a log, one entry for each call of \<^verbatim>\<open>notify_cookies_changed\<close>.
\<close>

subsection \<open>The storage\<close>

record cookie_key =
  key_name :: byte_string
  key_domain :: byte_string
  key_path :: byte_string

definition cookie_key_hash :: "cookie_key \<Rightarrow> u32" where
  "cookie_key_hash key =
     (let hash = 0;
          hash = pair_int_hash hash (string_hash_of (key_name key));
          hash = pair_int_hash hash (string_hash_of (key_domain key));
          hash = pair_int_hash hash (string_hash_of (key_path key))
      in hash)"

definition cookie_key_traits :: "cookie_key traits" where
  "cookie_key_traits = \<lparr> traits_hash = cookie_key_hash, traits_equals = (=), may_have_slow_equality_check = True \<rparr>"

type_synonym cookie_map = "(cookie_key, cookie) hash_map"

record transient_storage =
  m_cookies :: cookie_map
  m_dirty_cookies :: cookie_map
  notifications :: "cookie list list"

definition empty_storage :: transient_storage where
  "empty_storage = \<lparr> m_cookies = empty_table, m_dirty_cookies = empty_table, notifications = [] \<rparr>"

definition storage_key :: "cookie \<Rightarrow> cookie_key" where
  "storage_key c = \<lparr> key_name = cookie_name c, key_domain = cookie_domain c, key_path = cookie_path c \<rparr>"

text \<open>A failing \<^verbatim>\<open>VERIFY\<close> of the code that is called.\<close>

fun of_exec :: "'a exec \<Rightarrow> 'a result" where
  "of_exec (Done x) = Inr x"
| "of_exec Verify_failed = Inl Assertion_failed"

definition notify_cookies_changed :: "cookie list \<Rightarrow> transient_storage \<Rightarrow> transient_storage" where
  "notify_cookies_changed cookies st = st\<lparr> notifications := notifications st @ [cookies] \<rparr>"

definition storage_set_cookie :: "cookie_key \<Rightarrow> cookie \<Rightarrow> unix_date_time \<Rightarrow> transient_storage \<Rightarrow> transient_storage result" where
  "storage_set_cookie key cookie now st =
     result_bind (if expiry_time cookie < now
                  then result_bind (map_contains cookie_key_traits (m_cookies st) key) (\<lambda>found. Inr (\<not> found))
                  else Inr False) (\<lambda>skip.
       if skip then Inr st
       else result_bind (map_set cookie_key_traits (m_cookies st) key cookie Replace_Entry) (\<lambda>(r, cookies).
              let st = st\<lparr> m_cookies := cookies \<rparr>;
                  st = (if expiry_time cookie \<ge> now then notify_cookies_changed [cookie] st else st)
              in result_bind (map_set cookie_key_traits (m_dirty_cookies st) key cookie Replace_Entry) (\<lambda>(r, dirty).
                   Inr (st\<lparr> m_dirty_cookies := dirty \<rparr>))))"

definition storage_get_cookie :: "cookie_key \<Rightarrow> transient_storage \<Rightarrow> cookie option result" where
  "storage_get_cookie key st = map_get cookie_key_traits (m_cookies st) key"

text \<open>The offset is subtracted from the expiry of the cookies that are not saved yet.\<close>

definition subtract_expiry :: "duration \<Rightarrow> cookie_key \<Rightarrow> cookie \<Rightarrow> unit result \<Rightarrow> cookie \<times> unit result" where
  "subtract_expiry offset key cookie r =
     (if r \<noteq> Inr () then (cookie, r)
      else case duration_minus (expiry_time cookie) offset of
             Done t \<Rightarrow> (cookie\<lparr> expiry_time := t \<rparr>, Inr ())
           | Verify_failed \<Rightarrow> (cookie, Inl Assertion_failed))"

definition apply_offset :: "unix_date_time \<Rightarrow> duration option \<Rightarrow> transient_storage \<Rightarrow> (unix_date_time \<times> transient_storage) result" where
  "apply_offset now offset st =
     (case offset of
        None \<Rightarrow> Inr (now, st)
      | Some offset \<Rightarrow>
          result_bind (of_exec (duration_plus now offset)) (\<lambda>now.
            let (dirty, r) = for_each_entry (subtract_expiry offset) (m_dirty_cookies st) (Inr ())
            in result_bind r (\<lambda>u. Inr (now, st\<lparr> m_dirty_cookies := dirty \<rparr>))))"

definition purge_expired_cookies ::
    "unix_date_time \<Rightarrow> duration option \<Rightarrow> transient_storage \<Rightarrow> (unix_date_time \<times> transient_storage) result" where
  "purge_expired_cookies now offset st =
     result_bind (apply_offset now offset st) (\<lambda>(now, st).
       result_bind (map_take_all_matching cookie_key_traits (m_cookies st) (\<lambda>key cookie. expiry_time cookie < now))
         (\<lambda>(removed_entries, cookies).
            let st = st\<lparr> m_cookies := cookies \<rparr>
            in Inr (now, if removed_entries \<noteq> [] then notify_cookies_changed (map snd removed_entries) st else st)))"

definition storage_set_cookies :: "cookie_map \<Rightarrow> unix_date_time \<Rightarrow> transient_storage \<Rightarrow> transient_storage result" where
  "storage_set_cookies cookies now st =
     result_bind (purge_expired_cookies now None (st\<lparr> m_cookies := cookies \<rparr>)) (\<lambda>(now, st). Inr st)"

text \<open>
  The loop of \<^verbatim>\<open>expire_and_purge_cookies_accessed_since\<close> over the buckets, at index \<open>i\<close> with \<open>n\<close> buckets to
  go.  Its body sets an entry of the map that it iterates over.  Where that moved the entries to a new
  array, the iterator points into the freed one: it may only find that it is at its end, and reads freed
  memory otherwise.
\<close>

fun expire_loop ::
    "unix_date_time \<Rightarrow> (nat \<Rightarrow> unix_date_time) \<Rightarrow> nat \<Rightarrow> nat \<Rightarrow> transient_storage \<Rightarrow> transient_storage result" where
  "expire_loop since clock 0 i st = Inr st"
| "expire_loop since clock (Suc n) i st =
     (case m_buckets (m_cookies st) ! i of
        None \<Rightarrow> expire_loop since clock n (i + 1) st
      | Some b \<Rightarrow>
          let key = fst (slot b); v = snd (slot b)
          in if last_access_time v \<ge> since
             then let v = v\<lparr> expiry_time := duration_min \<rparr>;
                      cookies = (m_cookies st)\<lparr> m_buckets := (m_buckets (m_cookies st))[i := Some (b\<lparr> slot := (key, v) \<rparr>)] \<rparr>
                  in result_bind (storage_set_cookie key v (clock i) (st\<lparr> m_cookies := cookies \<rparr>)) (\<lambda>st.
                       if m_capacity (m_cookies st) = m_capacity cookies then expire_loop since clock n (i + 1) st
                       else if n = 0 then Inr st
                       else Inl Use_after_free)
             else expire_loop since clock n (i + 1) st)"

definition expire_and_purge_cookies_accessed_since ::
    "unix_date_time \<Rightarrow> (nat \<Rightarrow> unix_date_time) \<Rightarrow> unix_date_time \<Rightarrow> transient_storage \<Rightarrow> transient_storage result" where
  "expire_and_purge_cookies_accessed_since since clock now st =
     result_bind (expire_loop since clock (m_capacity (m_cookies st)) 0 st) (\<lambda>st.
       result_bind (purge_expired_cookies now None st) (\<lambda>(now, st). Inr st))"

record cache_sizes =
  since_requested_time :: nat
  total :: nat

definition add_size :: "unix_date_time \<Rightarrow> cookie_key \<times> cookie \<Rightarrow> cache_sizes \<Rightarrow> cache_sizes" where
  "add_size since entry sizes =
     (let (key, v) = entry;
          size = length (key_name key) + length (key_domain key) + length (key_path key) + length (cookie_value v);
          sizes = sizes\<lparr> total := total sizes + size \<rparr>
      in if last_access_time v \<ge> since then sizes\<lparr> since_requested_time := since_requested_time sizes + size \<rparr> else sizes)"

definition estimate_storage_size_accessed_since :: "unix_date_time \<Rightarrow> transient_storage \<Rightarrow> cache_sizes" where
  "estimate_storage_size_accessed_since since st =
     fold (add_size since) (table_values (m_cookies st)) \<lparr> since_requested_time = 0, total = 0 \<rparr>"

subsection \<open>Accepting a cookie\<close>

definition expiry_of :: "parsed_cookie \<Rightarrow> (bool \<times> unix_date_time) exec" where
  "expiry_of pc =
     (case expiry_time_from_max_age_attribute pc of
        Some t \<Rightarrow> Done (True, t)
      | None \<Rightarrow>
          case expiry_time_from_expires_attribute pc of
            Some t \<Rightarrow> Done (True, t)
          | None \<Rightarrow> exec_map (Pair False) (from_unix_time_parts 3000 1 1 0 0 0 0))"

text \<open>The host-only flag and the domain of the new cookie; \<open>None\<close> if the cookie is ignored.\<close>

definition domain_of :: "externals \<Rightarrow> parsed_cookie \<Rightarrow> byte_string \<Rightarrow> (bool \<times> byte_string) option exec" where
  "domain_of ext pc canonicalized_domain =
     (let domain_attribute =
            (case parsed_domain pc of Some d \<Rightarrow> if length d \<le> 1024 then d else [] | None \<Rightarrow> [])
      in if \<not> is_ascii_string domain_attribute then Done None
         else if is_public_suffix ext domain_attribute \<and> domain_attribute \<noteq> canonicalized_domain then Done None
         else let domain_attribute = (if is_public_suffix ext domain_attribute then [] else domain_attribute)
              in if domain_attribute \<noteq> []
                 then exec_map (\<lambda>m. if \<not> m then None else Some (False, domain_attribute))
                        (domain_matches ext canonicalized_domain domain_attribute)
                 else Done (Some (True, canonicalized_domain)))"

definition path_of :: "externals \<Rightarrow> parsed_cookie \<Rightarrow> url \<Rightarrow> byte_string exec" where
  "path_of ext pc u =
     (case parsed_path pc of
        Some path \<Rightarrow> Done (if length path \<le> 1024 then path else [])
      | None \<Rightarrow> default_path ext u)"

text \<open>Steps 5 to 12, 14 and 17: the fields of the new cookie.\<close>

definition new_cookie :: "externals \<Rightarrow> parsed_cookie \<Rightarrow> url \<Rightarrow> byte_string \<Rightarrow> unix_date_time \<Rightarrow> cookie option exec" where
  "new_cookie ext pc u canonicalized_domain now =
     exec_bind (expiry_of pc) (\<lambda>(is_persistent, expiry).
     exec_bind (domain_of ext pc canonicalized_domain) (\<lambda>d.
       case d of
         None \<Rightarrow> Done None
       | Some (is_host_only, domain) \<Rightarrow>
           exec_map (\<lambda>path. Some \<lparr> cookie_name = parsed_name pc, cookie_value = parsed_value pc,
                        cookie_same_site = same_site_attribute pc, creation_time = now, last_access_time = now,
                        expiry_time = expiry, cookie_domain = domain, cookie_path = path,
                        secure = secure_attribute_present pc, http_only = http_only_attribute_present pc,
                        host_only = is_host_only, persistent = is_persistent \<rparr>)
             (path_of ext pc u)))"

text \<open>Step 16, for one cookie of the store, and for the store.\<close>

definition shadows_secure_cookie :: "externals \<Rightarrow> cookie \<Rightarrow> cookie \<Rightarrow> bool exec" where
  "shadows_secure_cookie ext cookie old_cookie =
     (if cookie_name old_cookie \<noteq> cookie_name cookie then Done False
      else if \<not> secure old_cookie then Done False
      else exec_bind (domain_matches ext (cookie_domain old_cookie) (cookie_domain cookie)) (\<lambda>m.
           exec_bind (if \<not> m then domain_matches ext (cookie_domain cookie) (cookie_domain old_cookie) else Done True) (\<lambda>m.
             if \<not> m then Done False else path_matches (cookie_path cookie) (cookie_path old_cookie))))"

fun shadows_any_secure_cookie :: "externals \<Rightarrow> cookie \<Rightarrow> cookie list \<Rightarrow> bool exec" where
  "shadows_any_secure_cookie ext cookie [] = Done False"
| "shadows_any_secure_cookie ext cookie (old_cookie # rest) =
     exec_bind (shadows_secure_cookie ext cookie old_cookie) (\<lambda>s.
       if s then Done True else shadows_any_secure_cookie ext cookie rest)"

definition has_case_insensitive_prefix :: "byte_string \<Rightarrow> byte_string \<Rightarrow> bool" where
  "has_case_insensitive_prefix s start =
     (if length s < length start then False else equals_ignoring_ascii_case (take (length start) s) start)"

text \<open>Steps 20 to 22: the names with a meaning of their own.\<close>

definition violates_name_prefix :: "parsed_cookie \<Rightarrow> cookie \<Rightarrow> bool" where
  "violates_name_prefix pc cookie =
     (if has_case_insensitive_prefix (cookie_name cookie) ''__Secure-'' \<and> \<not> secure cookie then True
      else if has_case_insensitive_prefix (cookie_name cookie) ''__Host-''
              \<and> (\<not> secure cookie \<or> \<not> host_only cookie \<or> parsed_path pc \<noteq> None \<and> parsed_path pc \<noteq> Some ''/'') then True
      else if cookie_name cookie = []
      then has_case_insensitive_prefix (cookie_value cookie) ''__Secure-''
           \<or> has_case_insensitive_prefix (cookie_value cookie) ''__Host-''
      else False)"

definition put_cookie ::
    "cookie \<Rightarrow> unix_date_time \<Rightarrow> unix_date_time \<Rightarrow> transient_storage \<Rightarrow> transient_storage result" where
  "put_cookie cookie now_set now_purge st =
     result_bind (storage_set_cookie (storage_key cookie) cookie now_set st) (\<lambda>st.
       result_bind (purge_expired_cookies now_purge None st) (\<lambda>(now, st). Inr st))"

text \<open>Steps 23 and 24.\<close>

definition replace_cookie ::
    "cookie \<Rightarrow> cookie_source \<Rightarrow> unix_date_time \<Rightarrow> unix_date_time \<Rightarrow> transient_storage \<Rightarrow> transient_storage result" where
  "replace_cookie cookie source now_set now_purge st =
     result_bind (storage_get_cookie (storage_key cookie) st) (\<lambda>old_cookie.
       case old_cookie of
         Some old \<Rightarrow>
           if host_only old = host_only cookie
           then (if source = NonHttp \<and> http_only old then Inr st
                 else put_cookie (cookie\<lparr> creation_time := creation_time old \<rparr>) now_set now_purge st)
           else put_cookie cookie now_set now_purge st
       | None \<Rightarrow> put_cookie cookie now_set now_purge st)"

definition store_cookie ::
    "externals \<Rightarrow> parsed_cookie \<Rightarrow> url \<Rightarrow> byte_string \<Rightarrow> cookie_source
     \<Rightarrow> unix_date_time \<Rightarrow> unix_date_time \<Rightarrow> unix_date_time \<Rightarrow> transient_storage \<Rightarrow> transient_storage result" where
  "store_cookie ext pc u canonicalized_domain source now now_set now_purge st =
     (if parsed_name pc = [] \<and> parsed_value pc = [] then Inr st
      else if cookie_contains_invalid_control_character (parsed_name pc) then Inr st
      else if cookie_contains_invalid_control_character (parsed_value pc) then Inr st
      else if length (parsed_name pc) + length (parsed_value pc) > 4096 then Inr st
      else result_bind (of_exec (new_cookie ext pc u canonicalized_domain now)) (\<lambda>c.
        case c of
          None \<Rightarrow> Inr st
        | Some cookie \<Rightarrow>
            if secure cookie \<and> url_scheme u \<noteq> ''https'' then Inr st
            else if source = NonHttp \<and> http_only cookie then Inr st
            else result_bind (if \<not> secure cookie \<and> url_scheme u \<noteq> ''https''
                              then of_exec (shadows_any_secure_cookie ext cookie (map snd (table_values (m_cookies st))))
                              else Inr False) (\<lambda>ignore_cookie.
              if ignore_cookie then Inr st
              else if cookie_same_site cookie = SameSite_None \<and> \<not> secure cookie then Inr st
              else if violates_name_prefix pc cookie then Inr st
              else replace_cookie cookie source now_set now_purge st)))"

definition set_cookie ::
    "externals \<Rightarrow> url \<Rightarrow> parsed_cookie \<Rightarrow> cookie_source
     \<Rightarrow> unix_date_time \<Rightarrow> unix_date_time \<Rightarrow> unix_date_time \<Rightarrow> transient_storage \<Rightarrow> transient_storage result" where
  "set_cookie ext u pc source now now_set now_purge st =
     result_bind (of_exec (canonicalize_domain ext u)) (\<lambda>domain.
       case domain of
         None \<Rightarrow> Inr st
       | Some canonicalized_domain \<Rightarrow> store_cookie ext pc u canonicalized_domain source now now_set now_purge st)"

definition update_cookie ::
    "cookie \<Rightarrow> unix_date_time \<Rightarrow> unix_date_time \<Rightarrow> transient_storage \<Rightarrow> transient_storage result" where
  "update_cookie cookie now_set now_purge st =
     result_bind (storage_get_cookie (storage_key cookie) st) (\<lambda>old_cookie.
       case old_cookie of
         Some old \<Rightarrow>
           put_cookie (if host_only old = host_only cookie then cookie\<lparr> creation_time := creation_time old \<rparr> else cookie)
             now_set now_purge st
       | None \<Rightarrow> put_cookie cookie now_set now_purge st)"

subsection \<open>Selecting cookies\<close>

datatype matching_cookies_spec_mode = RFC6265 | WebDriver

text \<open>Step 1 for one cookie.\<close>

definition is_selected :: "externals \<Rightarrow> url \<Rightarrow> byte_string \<Rightarrow> cookie_source \<Rightarrow> cookie \<Rightarrow> bool exec" where
  "is_selected ext u canonicalized_domain source cookie =
     exec_bind (if \<not> host_only cookie then domain_matches ext canonicalized_domain (cookie_domain cookie) else Done False) (\<lambda>m.
       if \<not> (host_only cookie \<and> canonicalized_domain = cookie_domain cookie) \<and> \<not> m then Done False
       else exec_bind (serialize_path u) (\<lambda>path.
            exec_bind (path_matches path (cookie_path cookie)) (\<lambda>m.
              if \<not> m then Done False
              else if secure cookie \<and> url_scheme u \<noteq> ''https'' \<and> url_scheme u \<noteq> ''wss'' then Done False
              else if http_only cookie \<and> source \<noteq> Http then Done False
              else Done True)))"

fun insert_before_matching :: "'a \<Rightarrow> ('a \<Rightarrow> bool) \<Rightarrow> 'a list \<Rightarrow> 'a list" where
  "insert_before_matching v predicate [] = [v]"
| "insert_before_matching v predicate (x # xs) =
     (if predicate x then v # x # xs else x # insert_before_matching v predicate xs)"

definition listed_before :: "cookie \<Rightarrow> cookie \<Rightarrow> bool" where
  "listed_before cookie entry =
     (if length (cookie_path cookie) > length (cookie_path entry) then True
      else if length (cookie_path cookie) = length (cookie_path entry) \<and> creation_time cookie < creation_time entry then True
      else False)"

definition visit_cookie ::
    "externals \<Rightarrow> url \<Rightarrow> byte_string \<Rightarrow> cookie_source \<Rightarrow> matching_cookies_spec_mode \<Rightarrow> unix_date_time
     \<Rightarrow> cookie_key \<Rightarrow> cookie \<Rightarrow> cookie list result \<Rightarrow> cookie \<times> cookie list result" where
  "visit_cookie ext u canonicalized_domain source mode now key cookie r =
     (case r of
        Inl e \<Rightarrow> (cookie, Inl e)
      | Inr cookie_list \<Rightarrow>
          case is_selected ext u canonicalized_domain source cookie of
            Verify_failed \<Rightarrow> (cookie, Inl Assertion_failed)
          | Done selected \<Rightarrow>
              if \<not> selected then (cookie, Inr cookie_list)
              else if mode = WebDriver then (cookie, Inr (cookie_list @ [cookie]))
              else let cookie = cookie\<lparr> last_access_time := now \<rparr>
                   in (cookie, Inr (insert_before_matching cookie (listed_before cookie) cookie_list)))"

definition get_matching_cookies ::
    "externals \<Rightarrow> url \<Rightarrow> byte_string \<Rightarrow> cookie_source \<Rightarrow> matching_cookies_spec_mode \<Rightarrow> unix_date_time \<Rightarrow> unix_date_time
     \<Rightarrow> transient_storage \<Rightarrow> (cookie list \<times> transient_storage) result" where
  "get_matching_cookies ext u canonicalized_domain source mode now now_purge st =
     (let (cookies, r) = for_each_entry (visit_cookie ext u canonicalized_domain source mode now) (m_cookies st) (Inr [])
      in result_bind r (\<lambda>cookie_list.
           let st = st\<lparr> m_cookies := cookies \<rparr>
           in if mode \<noteq> WebDriver
              then result_bind (purge_expired_cookies now_purge None st) (\<lambda>(now, st). Inr (cookie_list, st))
              else Inr (cookie_list, st)))"

definition append_cookie :: "cookie \<Rightarrow> byte_string \<Rightarrow> byte_string" where
  "append_cookie cookie builder =
     (let builder = (if builder \<noteq> [] then builder @ ''; '' else builder);
          builder = (if cookie_name cookie \<noteq> [] then builder @ cookie_name cookie @ ''='' else builder)
      in if cookie_value cookie \<noteq> [] then builder @ cookie_value cookie else builder)"

definition get_cookie ::
    "externals \<Rightarrow> url \<Rightarrow> cookie_source \<Rightarrow> unix_date_time \<Rightarrow> unix_date_time \<Rightarrow> unix_date_time
     \<Rightarrow> transient_storage \<Rightarrow> (byte_string \<times> transient_storage) result" where
  "get_cookie ext u source now_first now now_purge st =
     result_bind (purge_expired_cookies now_first None st) (\<lambda>(t, st).
     result_bind (of_exec (canonicalize_domain ext u)) (\<lambda>domain.
       case domain of
         None \<Rightarrow> Inr ([], st)
       | Some canonicalized_domain \<Rightarrow>
           result_bind (get_matching_cookies ext u canonicalized_domain source RFC6265 now now_purge st) (\<lambda>(cookie_list, st).
           result_bind (of_exec (must_from_utf8 ext (fold append_cookie cookie_list []))) (\<lambda>s. Inr (s, st)))))"

definition get_all_cookies :: "transient_storage \<Rightarrow> cookie list" where
  "get_all_cookies st = map snd (table_values (m_cookies st))"

definition get_all_cookies_webdriver ::
    "externals \<Rightarrow> url \<Rightarrow> unix_date_time \<Rightarrow> unix_date_time \<Rightarrow> transient_storage \<Rightarrow> (cookie list \<times> transient_storage) result" where
  "get_all_cookies_webdriver ext u now now_purge st =
     result_bind (of_exec (canonicalize_domain ext u)) (\<lambda>domain.
       case domain of
         None \<Rightarrow> Inr ([], st)
       | Some canonicalized_domain \<Rightarrow> get_matching_cookies ext u canonicalized_domain Http WebDriver now now_purge st)"

definition get_all_cookies_cookiestore ::
    "externals \<Rightarrow> url \<Rightarrow> unix_date_time \<Rightarrow> unix_date_time \<Rightarrow> transient_storage \<Rightarrow> (cookie list \<times> transient_storage) result" where
  "get_all_cookies_cookiestore ext u now now_purge st =
     result_bind (of_exec (canonicalize_domain ext u)) (\<lambda>domain.
       case domain of
         None \<Rightarrow> Inr ([], st)
       | Some canonicalized_domain \<Rightarrow> get_matching_cookies ext u canonicalized_domain NonHttp RFC6265 now now_purge st)"

definition get_named_cookie ::
    "externals \<Rightarrow> url \<Rightarrow> byte_string \<Rightarrow> unix_date_time \<Rightarrow> unix_date_time \<Rightarrow> transient_storage
     \<Rightarrow> (cookie option \<times> transient_storage) result" where
  "get_named_cookie ext u name now now_purge st =
     result_bind (of_exec (canonicalize_domain ext u)) (\<lambda>domain.
       case domain of
         None \<Rightarrow> Inr (None, st)
       | Some canonicalized_domain \<Rightarrow>
           result_bind (get_matching_cookies ext u canonicalized_domain Http WebDriver now now_purge st)
             (\<lambda>(cookie_list, st). Inr (find (\<lambda>cookie. cookie_name cookie = name) cookie_list, st)))"

definition expire_cookies_with_time_offset :: "duration \<Rightarrow> unix_date_time \<Rightarrow> transient_storage \<Rightarrow> transient_storage result" where
  "expire_cookies_with_time_offset offset now st =
     result_bind (purge_expired_cookies now (Some offset) st) (\<lambda>(now, st). Inr st)"

subsection \<open>Saving the cookies\<close>

text \<open>
  The table \<^verbatim>\<open>Cookies\<close> of the database.  SQLite is not part of the program: its three prepared statements are
  the fields of \<open>database\<close>, functions of a state of any type.  Times are bound and read in milliseconds,
  flags as integers, and a text that is read ends at its first zero byte.
\<close>

record cookie_row =
  row_name :: byte_string
  row_value :: byte_string
  row_same_site :: int
  row_creation_time :: int
  row_last_access_time :: int
  row_expiry_time :: int
  row_domain :: byte_string
  row_path :: byte_string
  row_secure :: int
  row_http_only :: int
  row_host_only :: int
  row_persistent :: int

record 'db database =
  insert_or_replace :: "cookie_row \<Rightarrow> 'db \<Rightarrow> 'db"
  delete_expired :: "int \<Rightarrow> 'db \<Rightarrow> 'db"
  select_all :: "'db \<Rightarrow> cookie_row list"

fun same_site_to_int :: "same_site \<Rightarrow> int" where
  "same_site_to_int SameSite_Default = 0"
| "same_site_to_int SameSite_None = 1"
| "same_site_to_int SameSite_Strict = 2"
| "same_site_to_int SameSite_Lax = 3"

text \<open>The table checks that the number is one of the four.\<close>

definition same_site_of_int :: "int \<Rightarrow> same_site" where
  "same_site_of_int i = (if i = 0 then SameSite_Default else if i = 1 then SameSite_None
     else if i = 2 then SameSite_Strict else SameSite_Lax)"

definition bool_to_int :: "bool \<Rightarrow> int" where
  "bool_to_int b = (if b then 1 else 0)"

definition insert_cookie :: "'db database \<Rightarrow> cookie \<Rightarrow> 'db \<Rightarrow> 'db exec" where
  "insert_cookie sql cookie db =
     exec_bind (to_milliseconds (creation_time cookie)) (\<lambda>creation.
     exec_bind (to_milliseconds (last_access_time cookie)) (\<lambda>last_access.
     exec_map (\<lambda>expiry. insert_or_replace sql
         \<lparr> row_name = cookie_name cookie, row_value = cookie_value cookie,
           row_same_site = same_site_to_int (cookie_same_site cookie), row_creation_time = creation,
           row_last_access_time = last_access, row_expiry_time = expiry, row_domain = cookie_domain cookie,
           row_path = cookie_path cookie, row_secure = bool_to_int (secure cookie),
           row_http_only = bool_to_int (http_only cookie), row_host_only = bool_to_int (host_only cookie),
           row_persistent = bool_to_int (persistent cookie) \<rparr> db)
       (to_milliseconds (expiry_time cookie))))"

definition text_column :: "externals \<Rightarrow> byte_string \<Rightarrow> byte_string exec" where
  "text_column ext s = must_from_utf8 ext (takeWhile (\<lambda>c. c \<noteq> CHR 0x00) s)"

definition parse_cookie_row :: "externals \<Rightarrow> cookie_row \<Rightarrow> cookie exec" where
  "parse_cookie_row ext row =
     exec_bind (text_column ext (row_name row)) (\<lambda>name.
     exec_bind (text_column ext (row_value row)) (\<lambda>val.
     exec_bind (from_milliseconds (row_creation_time row)) (\<lambda>creation.
     exec_bind (from_milliseconds (row_last_access_time row)) (\<lambda>last_access.
     exec_bind (from_milliseconds (row_expiry_time row)) (\<lambda>expiry.
     exec_bind (text_column ext (row_domain row)) (\<lambda>domain.
     exec_map (\<lambda>path. \<lparr> cookie_name = name, cookie_value = val,
         cookie_same_site = same_site_of_int (row_same_site row), creation_time = creation,
         last_access_time = last_access, expiry_time = expiry, cookie_domain = domain, cookie_path = path,
         secure = row_secure row \<noteq> 0, http_only = row_http_only row \<noteq> 0, host_only = row_host_only row \<noteq> 0,
         persistent = row_persistent row \<noteq> 0 \<rparr>)
       (text_column ext (row_path row))))))))"

fun collect_rows :: "externals \<Rightarrow> cookie_row list \<Rightarrow> cookie_map \<Rightarrow> cookie_map result" where
  "collect_rows ext [] cookies = Inr cookies"
| "collect_rows ext (row # rows) cookies =
     result_bind (of_exec (parse_cookie_row ext row)) (\<lambda>cookie.
     result_bind (map_set cookie_key_traits cookies (storage_key cookie) cookie Replace_Entry) (\<lambda>(r, cookies).
       collect_rows ext rows cookies))"

definition select_all_cookies :: "externals \<Rightarrow> 'db database \<Rightarrow> 'db \<Rightarrow> cookie_map result" where
  "select_all_cookies ext sql db = collect_rows ext (select_all sql db) empty_table"

definition create_jar :: "externals \<Rightarrow> 'db database \<Rightarrow> unix_date_time \<Rightarrow> 'db \<Rightarrow> transient_storage result" where
  "create_jar ext sql now db =
     result_bind (select_all_cookies ext sql db) (\<lambda>cookies. storage_set_cookies cookies now empty_storage)"

fun insert_cookies :: "'db database \<Rightarrow> cookie list \<Rightarrow> 'db \<Rightarrow> 'db exec" where
  "insert_cookies sql [] db = Done db"
| "insert_cookies sql (cookie # rest) db = exec_bind (insert_cookie sql cookie db) (insert_cookies sql rest)"

text \<open>The timer, which also runs when the jar is destroyed.\<close>

definition synchronize :: "'db database \<Rightarrow> unix_date_time \<Rightarrow> transient_storage \<times> 'db \<Rightarrow> (transient_storage \<times> 'db) result" where
  "synchronize sql now jar =
     (let (st, db) = jar
      in result_bind (of_exec (insert_cookies sql (map snd (table_values (m_dirty_cookies st))) db)) (\<lambda>db.
         result_bind (purge_expired_cookies now None (st\<lparr> m_dirty_cookies := empty_table \<rparr>)) (\<lambda>(now, st).
         result_bind (of_exec (to_milliseconds now)) (\<lambda>ms. Inr (st, delete_expired sql ms db)))))"

subsection \<open>The maps\<close>

lemma traits_equals_cookie_key [simp]: "traits_equals cookie_key_traits = (=)"
  by (simp add: cookie_key_traits_def)

interpretation cookies: hash_map_keys cookie_key_traits "entry_traits cookie_key_traits"
  by unfold_locales simp_all

definition stored :: "transient_storage \<Rightarrow> cookie_key \<rightharpoonup> cookie" where
  "stored st = entry_map (m_cookies st)"

definition unsaved :: "transient_storage \<Rightarrow> cookie_key \<rightharpoonup> cookie" where
  "unsaved st = entry_map (m_dirty_cookies st)"

definition tables_ok :: "transient_storage \<Rightarrow> bool" where
  "tables_ok st \<longleftrightarrow> table_ok (entry_traits cookie_key_traits) (m_cookies st)
     \<and> table_ok (entry_traits cookie_key_traits) (m_dirty_cookies st)"

lemma tables_ok_empty [simp]: "tables_ok empty_storage" "stored empty_storage = Map.empty" "unsaved empty_storage = Map.empty"
  by (simp_all add: tables_ok_def stored_def unsaved_def empty_storage_def table_ok_empty)

lemma storage_simps [simp]:
  "stored (notify_cookies_changed cs st) = stored st" "unsaved (notify_cookies_changed cs st) = unsaved st"
  "tables_ok (notify_cookies_changed cs st) = tables_ok st"
  "m_cookies (notify_cookies_changed cs st) = m_cookies st" "m_dirty_cookies (notify_cookies_changed cs st) = m_dirty_cookies st"
  by (simp_all add: notify_cookies_changed_def stored_def unsaved_def tables_ok_def)

lemma storage_get_cookie_ok: "tables_ok st \<Longrightarrow> storage_get_cookie key st = Inr (stored st key)"
  by (simp add: storage_get_cookie_def tables_ok_def stored_def cookies.map_get_ok)

text \<open>Setting a cookie that is expired changes nothing if the store does not hold it.\<close>

lemma storage_set_cookie_ok:
  fixes key :: cookie_key and c :: cookie and now :: unix_date_time
  assumes "tables_ok st"
  defines "ignored \<equiv> expiry_time c < now \<and> stored st key = None"
  obtains st' where "storage_set_cookie key c now st = Inr st'" "tables_ok st'"
    "stored st' = (if ignored then stored st else (stored st)(key \<mapsto> c))"
    "unsaved st' = (if ignored then unsaved st else (unsaved st)(key \<mapsto> c))"
    "notifications st' = notifications st @ (if now \<le> expiry_time c then [[c]] else [])"
    "\<not> should_grow (m_cookies st) \<Longrightarrow> m_capacity (m_cookies st') = m_capacity (m_cookies st)"
proof -
  have ok: "table_ok (entry_traits cookie_key_traits) (m_cookies st)" "table_ok (entry_traits cookie_key_traits) (m_dirty_cookies st)"
    using assms(1) by (simp_all add: tables_ok_def)
  have skip: "(if expiry_time c < now
                  then result_bind (map_contains cookie_key_traits (m_cookies st) key) (\<lambda>found. Inr (\<not> found))
                  else Inr False) = Inr ignored"
    by (auto simp: cookies.map_contains_ok [OF ok(1)] ignored_def stored_def)
  show thesis
  proof (cases ignored)
    case True
    then have "storage_set_cookie key c now st = Inr st" unfolding storage_set_cookie_def skip by simp
    moreover have "\<not> now \<le> expiry_time c" using True by (auto simp: ignored_def not_le)
    ultimately show thesis using that assms(1) True by simp
  next
    case False
    obtain r m where m: "map_set cookie_key_traits (m_cookies st) key c Replace_Entry = Inr (r, m)"
      "table_ok (entry_traits cookie_key_traits) m" "entry_map m = (entry_map (m_cookies st))(key \<mapsto> c)"
      "\<not> should_grow (m_cookies st) \<Longrightarrow> m_capacity m = m_capacity (m_cookies st)"
      using cookies.map_set_ok [OF ok(1), of key c] by blast
    obtain r' d where d: "map_set cookie_key_traits (m_dirty_cookies st) key c Replace_Entry = Inr (r', d)"
      "table_ok (entry_traits cookie_key_traits) d" "entry_map d = (entry_map (m_dirty_cookies st))(key \<mapsto> c)"
      using cookies.map_set_ok [OF ok(2), of key c] by blast
    let ?st = "if now \<le> expiry_time c then notify_cookies_changed [c] (st\<lparr> m_cookies := m \<rparr>) else st\<lparr> m_cookies := m \<rparr>"
    have dirty: "m_dirty_cookies ?st = m_dirty_cookies st" by simp
    have "storage_set_cookie key c now st = Inr (?st\<lparr> m_dirty_cookies := d \<rparr>)"
      unfolding storage_set_cookie_def skip using False m(1) d(1) by (simp add: Let_def)
    then show thesis
      by (rule that) (use False m d in \<open>auto simp: tables_ok_def stored_def unsaved_def notify_cookies_changed_def\<close>)
  qed
qed

lemma apply_offset_None [simp]: "apply_offset now None st = Inr (now, st)"
  by (simp add: apply_offset_def)

definition unexpired :: "unix_date_time \<Rightarrow> (cookie_key \<rightharpoonup> cookie) \<Rightarrow> cookie_key \<rightharpoonup> cookie" where
  "unexpired now m = (\<lambda>k. case m k of None \<Rightarrow> None | Some c \<Rightarrow> if expiry_time c < now then None else Some c)"

lemma unexpired_eq_Some [simp]: "unexpired now m k = Some c \<longleftrightarrow> m k = Some c \<and> now \<le> expiry_time c"
  by (auto simp: unexpired_def split: option.splits)

lemma unexpired_eq_None: "unexpired now m k = None \<longleftrightarrow> (\<forall>c. m k = Some c \<longrightarrow> expiry_time c < now)"
  by (auto simp: unexpired_def split: option.splits)

text \<open>A purge removes the expired cookies, and tells the clients of exactly these.\<close>

lemma purge_ok:
  assumes "tables_ok st"
  obtains st' removed where "purge_expired_cookies now None st = Inr (now, st')" "tables_ok st'"
    "stored st' = unexpired now (stored st)" "unsaved st' = unsaved st"
    "set removed = {c. \<exists>k. stored st k = Some c \<and> expiry_time c < now}"
    "notifications st' = notifications st @ (if removed = [] then [] else [removed])"
proof -
  have ok: "table_ok (entry_traits cookie_key_traits) (m_cookies st)" "table_ok (entry_traits cookie_key_traits) (m_dirty_cookies st)"
    using assms by (simp_all add: tables_ok_def)
  obtain es m where m: "map_take_all_matching cookie_key_traits (m_cookies st) (\<lambda>k c. expiry_time c < now) = Inr (es, m)"
    "table_ok (entry_traits cookie_key_traits) m" "mset es = {#e \<in># table_elems (m_cookies st). expiry_time (snd e) < now#}"
    "entry_map m = (\<lambda>k. case entry_map (m_cookies st) k of None \<Rightarrow> None | Some c \<Rightarrow> if expiry_time c < now then None else Some c)"
    using cookies.map_take_all_matching_ok [OF ok(1), of "\<lambda>k c. expiry_time c < now"] by blast
  let ?st = "st\<lparr> m_cookies := m \<rparr>"
  have "set es = {e. e \<in># table_elems (m_cookies st) \<and> expiry_time (snd e) < now}"
    using m(3) by (metis (no_types, lifting) Collect_cong mem_Collect_eq set_mset_filter set_mset_mset)
  then have "set (map snd es) = {c. \<exists>k. stored st k = Some c \<and> expiry_time c < now}"
    by (force simp: stored_def cookies.entry_map_iff [OF ok(1)])
  moreover have "purge_expired_cookies now None st = Inr (now, if es \<noteq> [] then notify_cookies_changed (map snd es) ?st else ?st)"
    by (simp add: purge_expired_cookies_def m(1) Let_def)
  ultimately show thesis
    using that [of "if es \<noteq> [] then notify_cookies_changed (map snd es) ?st else ?st" "map snd es"] m(2,4) ok(2)
    by (auto simp: tables_ok_def stored_def unsaved_def unexpired_def notify_cookies_changed_def)
qed

subsection \<open>Well-formed stores\<close>

text \<open>What the types of the fields promise: strings are UTF-8 and times are normalized.\<close>

definition cookie_ok :: "cookie \<Rightarrow> bool" where
  "cookie_ok c \<longleftrightarrow> valid_utf8 (cookie_name c) \<and> valid_utf8 (cookie_value c) \<and> valid_utf8 (cookie_domain c)
     \<and> valid_utf8 (cookie_path c) \<and> duration_ok (creation_time c) \<and> duration_ok (last_access_time c)
     \<and> duration_ok (expiry_time c)"

definition entries_ok :: "(cookie \<Rightarrow> bool) \<Rightarrow> (cookie_key \<rightharpoonup> cookie) \<Rightarrow> bool" where
  "entries_ok P m \<longleftrightarrow> (\<forall>k c. m k = Some c \<longrightarrow> k = storage_key c \<and> P c)"

definition storage_inv :: "(cookie \<Rightarrow> bool) \<Rightarrow> transient_storage \<Rightarrow> bool" where
  "storage_inv P st \<longleftrightarrow> tables_ok st \<and> entries_ok P (stored st) \<and> entries_ok P (unsaved st)"

lemma storage_inv_empty [simp]: "storage_inv P empty_storage"
  by (simp add: storage_inv_def entries_ok_def)

lemma storage_inv_tables [simp]: "storage_inv P st \<Longrightarrow> tables_ok st"
  by (simp add: storage_inv_def)

lemma entries_ok_upd: "\<lbrakk> entries_ok P m; k = storage_key c; P c \<rbrakk> \<Longrightarrow> entries_ok P (m(k \<mapsto> c))"
  by (simp add: entries_ok_def)

lemma entries_ok_unexpired: "entries_ok P m \<Longrightarrow> entries_ok P (unexpired now m)"
  by (auto simp: entries_ok_def)

lemma entries_ok_map:
  "\<lbrakk> entries_ok P m; \<And>c. P c \<Longrightarrow> P (f c) \<and> storage_key (f c) = storage_key c \<rbrakk> \<Longrightarrow> entries_ok P (map_option f \<circ> m)"
  by (auto simp: entries_ok_def)

lemma storage_key_times [simp]:
  "storage_key (c\<lparr> creation_time := t \<rparr>) = storage_key c" "storage_key (c\<lparr> last_access_time := t \<rparr>) = storage_key c"
  "storage_key (c\<lparr> expiry_time := t \<rparr>) = storage_key c"
  by (simp_all add: storage_key_def)

lemma map_of_map_snd: "map_of (map (\<lambda>(k, c). (k, f c)) es) = map_option f \<circ> map_of es"
  by (induction es) auto

text \<open>
  A property of cookies that does not depend on their times: what every operation keeps of the cookies of a
  store, provided that it holds of those that come in.
\<close>

locale cookie_property =
  fixes P :: "cookie \<Rightarrow> bool"
  assumes ok: "P c \<Longrightarrow> cookie_ok c"
    and times: "\<lbrakk> P c; duration_ok t \<rbrakk> \<Longrightarrow> P (c\<lparr> creation_time := t \<rparr>)"
      "\<lbrakk> P c; duration_ok t \<rbrakk> \<Longrightarrow> P (c\<lparr> last_access_time := t \<rparr>)" "\<lbrakk> P c; duration_ok t \<rbrakk> \<Longrightarrow> P (c\<lparr> expiry_time := t \<rparr>)"
begin

lemma put_cookie_inv:
  assumes "storage_inv P st" "P c"
  obtains st' where "put_cookie c now_set now_purge st = Inr st'" "storage_inv P st'"
    "stored st' = unexpired now_purge (if expiry_time c < now_set \<and> stored st (storage_key c) = None then stored st
       else (stored st)(storage_key c \<mapsto> c))"
proof -
  let ?i = "expiry_time c < now_set \<and> stored st (storage_key c) = None"
  obtain st1 where st1: "storage_set_cookie (storage_key c) c now_set st = Inr st1" "tables_ok st1"
    "stored st1 = (if ?i then stored st else (stored st)(storage_key c \<mapsto> c))"
    "unsaved st1 = (if ?i then unsaved st else (unsaved st)(storage_key c \<mapsto> c))"
    by (rule storage_set_cookie_ok [where key = "storage_key c" and c = c and now = now_set, OF storage_inv_tables [OF assms(1)]],
        rule that) assumption+
  obtain st2 where st2: "purge_expired_cookies now_purge None st1 = Inr (now_purge, st2)" "tables_ok st2"
    "stored st2 = unexpired now_purge (stored st1)" "unsaved st2 = unsaved st1"
    by (rule purge_ok [OF st1(2), where now = now_purge], rule that) assumption+
  have ent: "entries_ok P (stored st)" "entries_ok P (unsaved st)" using assms(1) by (simp_all add: storage_inv_def)
  have "entries_ok P (stored st1)" "entries_ok P (unsaved st1)"
    unfolding st1(3,4) using entries_ok_upd [OF ent(1) refl assms(2)] entries_ok_upd [OF ent(2) refl assms(2)] ent
    by simp_all
  then have "storage_inv P st2" unfolding storage_inv_def st2(3,4) using st2(2) by (simp add: entries_ok_unexpired)
  moreover have "put_cookie c now_set now_purge st = Inr st2" by (simp add: put_cookie_def st1(1) st2(1))
  ultimately show thesis using that st2(3) st1(3) by simp
qed

lemma stored_P: "\<lbrakk> storage_inv P st; stored st k = Some c \<rbrakk> \<Longrightarrow> P c \<and> k = storage_key c"
  by (simp add: storage_inv_def entries_ok_def)

lemma purge_inv:
  assumes "storage_inv P st"
  obtains st' where "purge_expired_cookies now None st = Inr (now, st')" "storage_inv P st'"
    "stored st' = unexpired now (stored st)" "unsaved st' = unsaved st"
proof (rule purge_ok [OF storage_inv_tables [OF assms], where now = now])
  fix st'
  assume st': "purge_expired_cookies now None st = Inr (now, st')" "tables_ok st'"
    "stored st' = unexpired now (stored st)" "unsaved st' = unsaved st"
  moreover have "storage_inv P st'"
    unfolding storage_inv_def st'(3,4) using assms st'(2) by (simp add: storage_inv_def entries_ok_unexpired)
  ultimately show thesis by (intro that)
qed

lemma update_cookie_inv:
  assumes "storage_inv P st" "P c"
  shows "\<exists>st'. update_cookie c now_set now_purge st = Inr st' \<and> storage_inv P st'"
proof (cases "stored st (storage_key c)")
  case None
  then have eq: "update_cookie c now_set now_purge st = put_cookie c now_set now_purge st"
    using assms(1) by (simp add: update_cookie_def storage_get_cookie_ok)
  show ?thesis unfolding eq by (rule put_cookie_inv [OF assms]) blast
next
  case (Some old)
  let ?c = "if host_only old = host_only c then c\<lparr> creation_time := creation_time old \<rparr> else c"
  have "P ?c" using assms(2) times(1) ok stored_P [OF assms(1) Some] by (simp add: cookie_ok_def)
  note put = put_cookie_inv [OF assms(1) this]
  have eq: "update_cookie c now_set now_purge st = put_cookie ?c now_set now_purge st"
    using Some assms(1) by (simp add: update_cookie_def storage_get_cookie_ok)
  show ?thesis unfolding eq by (rule put) blast
qed

lemma replace_cookie_inv:
  assumes "storage_inv P st" "P c"
  shows "\<exists>st'. replace_cookie c source now_set now_purge st = Inr st' \<and> storage_inv P st'"
proof (cases "stored st (storage_key c)")
  case None
  then have eq: "replace_cookie c source now_set now_purge st = put_cookie c now_set now_purge st"
    using assms(1) by (simp add: replace_cookie_def storage_get_cookie_ok)
  show ?thesis unfolding eq by (rule put_cookie_inv [OF assms]) blast
next
  case (Some old)
  have P: "P (c\<lparr> creation_time := creation_time old \<rparr>)"
    using assms(2) times(1) ok stored_P [OF assms(1) Some] by (simp add: cookie_ok_def)
  have put: "\<exists>st'. put_cookie d now_set now_purge st = Inr st' \<and> storage_inv P st'" if "P d" for d
    by (rule put_cookie_inv [OF assms(1) that]) blast
  show ?thesis
    using Some assms(1) put [OF assms(2)] put [OF P] by (simp add: replace_cookie_def storage_get_cookie_ok)
qed

end

subsection \<open>The cookies that are accepted\<close>

definition parsed_ok :: "parsed_cookie \<Rightarrow> bool" where
  "parsed_ok pc \<longleftrightarrow> valid_utf8 (parsed_name pc) \<and> valid_utf8 (parsed_value pc)
     \<and> pred_option valid_utf8 (parsed_domain pc) \<and> pred_option valid_utf8 (parsed_path pc)
     \<and> pred_option duration_ok (expiry_time_from_max_age_attribute pc)
     \<and> pred_option duration_ok (expiry_time_from_expires_attribute pc)"

text \<open>A URL whose host, path and default path can be computed.\<close>

definition request_ok :: "externals \<Rightarrow> url \<Rightarrow> bool" where
  "request_ok ext u \<longleftrightarrow> (\<exists>d. canonicalize_domain ext u = Done d \<and> pred_option valid_utf8 d)
     \<and> (\<exists>p. serialize_path u = Done p) \<and> (\<exists>q. default_path ext u = Done q \<and> valid_utf8 q)"

lemma latest_expiry: "from_unix_time_parts 3000 1 1 0 0 0 0 = Done (Duration 32503680000 0)"
proof -
  have "days_since_epoch 3000 1 1 = 376200" by code_simp
  then show ?thesis using from_unix_time_parts_eq [of 3000 1 1 0 0 0 0] by simp
qed

lemma expiry_of_ok: "parsed_ok pc \<Longrightarrow> \<exists>b t. expiry_of pc = Done (b, t) \<and> duration_ok t"
  by (auto simp: expiry_of_def parsed_ok_def latest_expiry [simplified] duration_ok_def is_i64_def split: option.splits)

text \<open>What the domain of a cookie may be.\<close>

definition domain_accepted :: "externals \<Rightarrow> byte_string \<Rightarrow> bool \<Rightarrow> byte_string \<Rightarrow> bool" where
  "domain_accepted ext canonicalized_domain is_host_only domain \<longleftrightarrow>
     (if is_host_only then domain = canonicalized_domain
      else domain \<noteq> [] \<and> is_ascii_string domain \<and> length domain \<le> 1024 \<and> \<not> is_public_suffix ext domain
        \<and> domain_match ext canonicalized_domain domain)"

lemma domain_of_ok:
  "\<exists>r. domain_of ext pc canonicalized_domain = Done r
     \<and> (\<forall>h d. r = Some (h, d) \<longrightarrow> domain_accepted ext canonicalized_domain h d \<and> (d = canonicalized_domain \<or> parsed_domain pc = Some d))"
  by (auto simp: domain_of_def Let_def domain_accepted_def split: option.splits)

definition accepted :: "externals \<Rightarrow> parsed_cookie \<Rightarrow> url \<Rightarrow> byte_string \<Rightarrow> cookie_source \<Rightarrow> unix_date_time \<Rightarrow> cookie \<Rightarrow> bool" where
  "accepted ext pc u canonicalized_domain source now c \<longleftrightarrow>
     new_cookie ext pc u canonicalized_domain now = Done (Some c)
     \<and> \<not> (parsed_name pc = [] \<and> parsed_value pc = [])
     \<and> \<not> cookie_contains_invalid_control_character (parsed_name pc) \<and> \<not> cookie_contains_invalid_control_character (parsed_value pc)
     \<and> length (parsed_name pc) + length (parsed_value pc) \<le> 4096
     \<and> (secure c \<longrightarrow> url_scheme u = ''https'') \<and> (source = NonHttp \<longrightarrow> \<not> http_only c)
     \<and> (cookie_same_site c = SameSite_None \<longrightarrow> secure c) \<and> \<not> violates_name_prefix pc c"

lemma new_cookie_ok:
  assumes "parsed_ok pc" "request_ok ext u" "valid_utf8 d" "duration_ok now"
  shows "\<exists>r. new_cookie ext pc u d now = Done r \<and> (\<forall>c. r = Some c \<longrightarrow> cookie_ok c \<and> cookie_name c = parsed_name pc
    \<and> cookie_value c = parsed_value pc \<and> domain_accepted ext d (host_only c) (cookie_domain c))"
proof -
  obtain b t where t: "expiry_of pc = Done (b, t)" "duration_ok t" using expiry_of_ok [OF assms(1)] by auto
  obtain r where r: "domain_of ext pc d = Done r"
    "\<forall>h e. r = Some (h, e) \<longrightarrow> domain_accepted ext d h e \<and> (e = d \<or> parsed_domain pc = Some e)"
    using domain_of_ok [of ext pc d] by auto
  obtain p where p: "path_of ext pc u = Done p" "valid_utf8 p"
    using assms(1,2) by (cases "parsed_path pc") (auto simp: path_of_def request_ok_def parsed_ok_def)
  show ?thesis
  proof (cases r)
    case None
    then show ?thesis by (simp add: new_cookie_def t r)
  next
    case (Some hd)
    then obtain h e where he: "r = Some (h, e)" by (cases hd) auto
    with r(2) assms(1,3) have "valid_utf8 e" by (auto simp: parsed_ok_def)
    with he assms t p r(2) show ?thesis
      by (auto simp: new_cookie_def r(1) cookie_ok_def parsed_ok_def)
  qed
qed

lemma shadows_total: "\<exists>b. shadows_any_secure_cookie ext c cs = Done b"
  by (induction cs) (auto simp: shadows_secure_cookie_def)

text \<open>A cookie is ignored, or it is accepted and replaces what is stored under its key.\<close>

lemma store_cookie_cases:
  assumes "parsed_ok pc" "request_ok ext u" "valid_utf8 d" "duration_ok now"
  shows "store_cookie ext pc u d source now now_set now_purge st = Inr st
    \<or> (\<exists>c. accepted ext pc u d source now c \<and> cookie_ok c
         \<and> store_cookie ext pc u d source now now_set now_purge st = replace_cookie c source now_set now_purge st)"
proof -
  obtain r where r: "new_cookie ext pc u d now = Done r" "\<forall>c. r = Some c \<longrightarrow> cookie_ok c"
    using new_cookie_ok [OF assms] by auto
  show ?thesis
  proof (cases r)
    case None
    then show ?thesis by (simp add: store_cookie_def r)
  next
    case (Some c)
    obtain b where b: "shadows_any_secure_cookie ext c (map snd (table_values (m_cookies st))) = Done b"
      using shadows_total [of ext c] by blast
    let ?store = "store_cookie ext pc u d source now now_set now_purge st"
    have "?store = (if \<not> accepted ext pc u d source now c \<or> \<not> secure c \<and> url_scheme u \<noteq> ''https'' \<and> b then Inr st
        else replace_cookie c source now_set now_purge st)"
      using Some r(1) b by (simp add: store_cookie_def accepted_def) blast
    with Some r(2) show ?thesis by auto
  qed
qed

lemma set_cookie_cases:
  assumes "parsed_ok pc" "request_ok ext u" "duration_ok now"
  shows "set_cookie ext u pc source now now_set now_purge st = Inr st
    \<or> (\<exists>d c. canonicalize_domain ext u = Done (Some d) \<and> accepted ext pc u d source now c \<and> cookie_ok c
         \<and> set_cookie ext u pc source now now_set now_purge st = replace_cookie c source now_set now_purge st)"
proof -
  obtain r where r: "canonicalize_domain ext u = Done r" "pred_option valid_utf8 r" using assms(2) by (auto simp: request_ok_def)
  show ?thesis
  proof (cases r)
    case None
    then show ?thesis by (simp add: set_cookie_def r(1))
  next
    case (Some d)
    with r(2) have "valid_utf8 d" by simp
    from store_cookie_cases [OF assms(1,2) this assms(3), of source now_set now_purge st] Some show ?thesis
      by (auto simp: set_cookie_def r(1))
  qed
qed

text \<open>What the storage model promises of the cookies of a store.\<close>

definition policy_ok :: "externals \<Rightarrow> cookie \<Rightarrow> bool" where
  "policy_ok ext c \<longleftrightarrow>
     \<not> (cookie_name c = [] \<and> cookie_value c = [])
     \<and> \<not> cookie_contains_invalid_control_character (cookie_name c) \<and> \<not> cookie_contains_invalid_control_character (cookie_value c)
     \<and> length (cookie_name c) + length (cookie_value c) \<le> 4096
     \<and> (cookie_same_site c = SameSite_None \<longrightarrow> secure c)
     \<and> (has_case_insensitive_prefix (cookie_name c) ''__Secure-'' \<longrightarrow> secure c)
     \<and> (has_case_insensitive_prefix (cookie_name c) ''__Host-'' \<longrightarrow> secure c \<and> host_only c)
     \<and> (cookie_name c = [] \<longrightarrow> \<not> has_case_insensitive_prefix (cookie_value c) ''__Secure-''
          \<and> \<not> has_case_insensitive_prefix (cookie_value c) ''__Host-'')
     \<and> (\<not> host_only c \<longrightarrow> cookie_domain c \<noteq> [] \<and> is_ascii_string (cookie_domain c) \<and> length (cookie_domain c) \<le> 1024
          \<and> \<not> is_public_suffix ext (cookie_domain c))"

lemma accepted_policy:
  assumes "accepted ext pc u d source now c" "parsed_ok pc" "request_ok ext u" "valid_utf8 d" "duration_ok now"
  shows "policy_ok ext c"
proof -
  have "cookie_name c = parsed_name pc" "cookie_value c = parsed_value pc" "domain_accepted ext d (host_only c) (cookie_domain c)"
    using new_cookie_ok [OF assms(2-5)] assms(1) by (auto simp: accepted_def)
  then show ?thesis
    using assms(1) by (auto simp: accepted_def policy_ok_def violates_name_prefix_def domain_accepted_def split: if_splits)
qed

lemma cookie_ok_times [simp]:
  "cookie_ok c \<Longrightarrow> duration_ok t \<Longrightarrow> cookie_ok (c\<lparr> creation_time := t \<rparr>)"
  "cookie_ok c \<Longrightarrow> duration_ok t \<Longrightarrow> cookie_ok (c\<lparr> last_access_time := t \<rparr>)"
  "cookie_ok c \<Longrightarrow> duration_ok t \<Longrightarrow> cookie_ok (c\<lparr> expiry_time := t \<rparr>)"
  by (simp_all add: cookie_ok_def)

lemma policy_ok_times [simp]:
  "policy_ok ext (c\<lparr> creation_time := t \<rparr>) = policy_ok ext c" "policy_ok ext (c\<lparr> last_access_time := t \<rparr>) = policy_ok ext c"
  "policy_ok ext (c\<lparr> expiry_time := t \<rparr>) = policy_ok ext c"
  by (simp_all add: policy_ok_def)

interpretation well_formed: cookie_property cookie_ok
  by unfold_locales simp_all

interpretation within_policy: cookie_property "\<lambda>c. cookie_ok c \<and> policy_ok ext c" for ext
  by unfold_locales simp_all

subsection \<open>The cookies of a request\<close>

definition selected :: "externals \<Rightarrow> url \<Rightarrow> byte_string \<Rightarrow> byte_string \<Rightarrow> cookie_source \<Rightarrow> cookie \<Rightarrow> bool" where
  "selected ext u path host source c \<longleftrightarrow>
     (if host_only c then host = cookie_domain c else domain_match ext host (cookie_domain c))
     \<and> path_match path (cookie_path c)
     \<and> (secure c \<longrightarrow> url_scheme u \<in> {''https'', ''wss''}) \<and> (http_only c \<longrightarrow> source = Http)"

lemma is_selected_eq:
  "serialize_path u = Done path \<Longrightarrow> is_selected ext u host source c = Done (selected ext u path host source c)"
  by (auto simp: is_selected_def selected_def)

lemma mset_insert_before_matching: "mset (insert_before_matching v P xs) = add_mset v (mset xs)"
  by (induction xs) auto

lemma set_insert_before_matching: "set (insert_before_matching v P xs) = insert v (set xs)"
  by (metis mset_insert_before_matching set_mset_add_mset_insert set_mset_mset)

definition request_order :: "cookie list \<Rightarrow> bool" where
  "request_order cs \<longleftrightarrow> sorted_wrt (\<lambda>c d. \<not> listed_before d c) cs"

lemma listed_before_trans: "\<lbrakk> listed_before a b; listed_before b c \<rbrakk> \<Longrightarrow> listed_before a c"
  by (auto simp: listed_before_def split: if_splits)

lemma listed_before_asym: "listed_before a b \<Longrightarrow> \<not> listed_before b a"
  by (auto simp: listed_before_def split: if_splits)

lemma request_order_insert: "request_order cs \<Longrightarrow> request_order (insert_before_matching c (listed_before c) cs)"
proof (induction cs)
  case (Cons d cs)
  show ?case
  proof (cases "listed_before c d")
    case True
    then have "\<not> listed_before e c" if "e \<in> set cs" for e
      using Cons.prems that listed_before_trans [of e c d] by (auto simp: request_order_def)
    with True Cons.prems show ?thesis by (auto simp: request_order_def dest: listed_before_asym)
  next
    case False
    with Cons show ?thesis by (auto simp: request_order_def set_insert_before_matching)
  qed
qed (simp add: request_order_def)

abbreviation touch :: "unix_date_time \<Rightarrow> (cookie \<Rightarrow> bool) \<Rightarrow> cookie \<Rightarrow> cookie" where
  "touch now sel c \<equiv> (if sel c then c\<lparr> last_access_time := now \<rparr> else c)"

lemma visit_rfc6265:
  assumes "serialize_path u = Done path"
    and sel_def: "sel = selected ext u path host source"
  shows "for_each_list (visit_cookie ext u host source RFC6265 now) es (Inr cs)
    = (map (\<lambda>(k, c). (k, touch now sel c)) es,
       Inr (fold (\<lambda>c. insert_before_matching c (listed_before c)) (map (touch now sel) (filter sel (map snd es))) cs))"
proof (induction es arbitrary: cs)
  case (Cons e es)
  obtain k c where e: "e = (k, c)" by (cases e)
  have "visit_cookie ext u host source RFC6265 now k c (Inr cs)
      = (touch now sel c, Inr (if sel c then insert_before_matching (touch now sel c) (listed_before (touch now sel c)) cs else cs))"
    by (simp add: visit_cookie_def is_selected_eq [OF assms(1)] sel_def Let_def)
  then show ?case using Cons.IH by (simp add: e)
qed simp

lemma visit_webdriver:
  assumes "serialize_path u = Done path"
    and sel_def: "sel = selected ext u path host source"
  shows "for_each_list (visit_cookie ext u host source WebDriver now) es (Inr cs) = (es, Inr (cs @ filter sel (map snd es)))"
proof (induction es arbitrary: cs)
  case (Cons e es)
  obtain k c where e: "e = (k, c)" by (cases e)
  have "visit_cookie ext u host source WebDriver now k c (Inr cs) = (c, Inr (if sel c then cs @ [c] else cs))"
    by (simp add: visit_cookie_def is_selected_eq [OF assms(1)] sel_def Let_def)
  then show ?case using Cons.IH by (simp add: e)
qed simp

lemma fold_insert_ordered:
  "request_order cs \<Longrightarrow> request_order (fold (\<lambda>c. insert_before_matching c (listed_before c)) ds cs)
     \<and> mset (fold (\<lambda>c. insert_before_matching c (listed_before c)) ds cs) = mset ds + mset cs"
  by (induction ds arbitrary: cs) (simp_all add: request_order_insert mset_insert_before_matching)

lemma stored_for_each:
  assumes "table_ok (entry_traits cookie_key_traits) m" "for_each_list body (table_values m) s = (map (\<lambda>(k, c). (k, f c)) (table_values m), r)"
  shows "\<exists>m'. for_each_entry body m s = (m', r) \<and> table_ok (entry_traits cookie_key_traits) m' \<and> entry_map m' = map_option f \<circ> entry_map m"
  using cookies.for_each_entry_ok [OF assms(1), of body s] assms(2) map_of_map_snd [of f "table_values m"]
  by (cases "for_each_entry body m s") (simp add: entry_map_def)

text \<open>The list of a request: what is selected, once each, in the order of the specification.\<close>

lemma get_matching_rfc6265:
  assumes "tables_ok st" "serialize_path u = Done path"
    and sel_def: "sel = selected ext u path host source"
  shows "\<exists>cs st'. get_matching_cookies ext u host source RFC6265 now now_purge st = Inr (cs, st') \<and> tables_ok st'
    \<and> mset cs = image_mset (\<lambda>c. c\<lparr> last_access_time := now \<rparr>) (filter_mset sel (mset (get_all_cookies st)))
    \<and> request_order cs \<and> stored st' = unexpired now_purge (map_option (touch now sel) \<circ> stored st) \<and> unsaved st' = unsaved st"
proof -
  let ?cs = "fold (\<lambda>c. insert_before_matching c (listed_before c)) (map (touch now sel) (filter sel (get_all_cookies st))) []"
  have ok: "table_ok (entry_traits cookie_key_traits) (m_cookies st)" using assms(1) by (simp add: tables_ok_def)
  obtain m where m: "for_each_entry (visit_cookie ext u host source RFC6265 now) (m_cookies st) (Inr []) = (m, Inr ?cs)"
    "table_ok (entry_traits cookie_key_traits) m" "entry_map m = map_option (touch now sel) \<circ> entry_map (m_cookies st)"
    using stored_for_each [OF ok visit_rfc6265 [OF assms(2) sel_def, where now = now and cs = "[]"]]
    by (auto simp: get_all_cookies_def)
  have tables: "tables_ok (st\<lparr> m_cookies := m \<rparr>)" using assms(1) m(2) by (simp add: tables_ok_def)
  obtain st' where st': "purge_expired_cookies now_purge None (st\<lparr> m_cookies := m \<rparr>) = Inr (now_purge, st')" "tables_ok st'"
    "stored st' = unexpired now_purge (stored (st\<lparr> m_cookies := m \<rparr>))" "unsaved st' = unsaved (st\<lparr> m_cookies := m \<rparr>)"
    by (rule purge_ok [OF tables, where now = now_purge], rule that) assumption+
  have "get_matching_cookies ext u host source RFC6265 now now_purge st = Inr (?cs, st')"
    using m(1) st'(1) by (simp add: get_matching_cookies_def)
  moreover have "mset (map (touch now sel) (filter sel xs))
      = image_mset (\<lambda>c. c\<lparr> last_access_time := now \<rparr>) (filter_mset sel (mset xs))" for xs
    by (induction xs) auto
  ultimately show ?thesis
    using fold_insert_ordered [of "[]" "map (touch now sel) (filter sel (get_all_cookies st))"] st' m(3)
    by (simp add: request_order_def stored_def unsaved_def)
qed

lemma get_matching_webdriver:
  assumes "tables_ok st" "serialize_path u = Done path"
  shows "\<exists>st'. get_matching_cookies ext u host source WebDriver now now_purge st
      = Inr (filter (selected ext u path host source) (get_all_cookies st), st') \<and> tables_ok st'
    \<and> stored st' = stored st \<and> unsaved st' = unsaved st"
proof -
  have ok: "table_ok (entry_traits cookie_key_traits) (m_cookies st)" using assms(1) by (simp add: tables_ok_def)
  have "\<exists>m. for_each_entry (visit_cookie ext u host source WebDriver now) (m_cookies st) (Inr [])
      = (m, Inr (filter (selected ext u path host source) (get_all_cookies st)))
      \<and> table_ok (entry_traits cookie_key_traits) m \<and> entry_map m = map_option (\<lambda>c. c) \<circ> entry_map (m_cookies st)"
    by (rule stored_for_each [OF ok]) (simp add: visit_webdriver [OF assms(2)] get_all_cookies_def)
  then show ?thesis
    using assms(1) by (auto simp: get_matching_cookies_def tables_ok_def stored_def unsaved_def option.map_id0 [unfolded id_def] comp_def)
qed

subsection \<open>The text of a request\<close>

definition cookie_text :: "cookie \<Rightarrow> byte_string" where
  "cookie_text c = (if cookie_name c = [] then [] else cookie_name c @ ''='') @ cookie_value c"

fun cookie_string :: "cookie list \<Rightarrow> byte_string" where
  "cookie_string [] = []"
| "cookie_string [c] = cookie_text c"
| "cookie_string (c # d # cs) = cookie_text c @ ''; '' @ cookie_string (d # cs)"

lemma cookie_string_Cons: "cookie_string (c # cs) = (if cs = [] then cookie_text c else cookie_text c @ ''; '' @ cookie_string cs)"
  by (cases cs) simp_all

lemma append_cookie_eq: "append_cookie c b = (if b = [] then cookie_text c else b @ ''; '' @ cookie_text c)"
  by (simp add: append_cookie_def cookie_text_def)

lemma fold_append_cookie_from:
  "\<lbrakk> \<forall>c \<in> set cs. cookie_text c \<noteq> []; b \<noteq> [] \<rbrakk>
    \<Longrightarrow> fold append_cookie cs b = (if cs = [] then b else b @ ''; '' @ cookie_string cs)"
proof (induction cs arbitrary: b)
  case (Cons c cs)
  have "fold append_cookie (c # cs) b = fold append_cookie cs (b @ ''; '' @ cookie_text c)"
    using Cons.prems(2) by (simp add: append_cookie_eq)
  also have "\<dots> = (if cs = [] then b @ ''; '' @ cookie_text c else (b @ ''; '' @ cookie_text c) @ ''; '' @ cookie_string cs)"
    using Cons.prems by (intro Cons.IH) simp_all
  finally show ?case by (simp add: cookie_string_Cons)
qed simp

lemma fold_append_cookie: "\<forall>c \<in> set cs. cookie_text c \<noteq> [] \<Longrightarrow> fold append_cookie cs [] = cookie_string cs"
  by (cases cs) (simp_all add: append_cookie_eq fold_append_cookie_from cookie_string_Cons)

lemma valid_utf8_append: "\<lbrakk> valid_utf8 a; valid_utf8 b \<rbrakk> \<Longrightarrow> valid_utf8 (a @ b)"
  unfolding valid_utf8_def utf8_encode_def by (metis concat_append list_all_append map_append)

lemma valid_utf8_cookie_text: "cookie_ok c \<Longrightarrow> valid_utf8 (cookie_text c)"
proof -
  assume "cookie_ok c"
  moreover have "valid_utf8 ''=''" by (rule valid_utf8_ascii) code_simp
  ultimately have "valid_utf8 (if cookie_name c = [] then [] else cookie_name c @ ''='')" "valid_utf8 (cookie_value c)"
    by (simp_all add: cookie_ok_def valid_utf8_append)
  then show ?thesis unfolding cookie_text_def by (rule valid_utf8_append)
qed

lemma valid_utf8_fold_append:
  "\<lbrakk> \<forall>c \<in> set cs. cookie_ok c; valid_utf8 b \<rbrakk> \<Longrightarrow> valid_utf8 (fold append_cookie cs b)"
proof (induction cs arbitrary: b)
  case (Cons c cs)
  have "valid_utf8 ''; ''" by (rule valid_utf8_ascii) code_simp
  then have "valid_utf8 (''; '' @ cookie_text c)"
    using Cons.prems(1) by (intro valid_utf8_append valid_utf8_cookie_text) simp_all
  then have "valid_utf8 (append_cookie c b)"
    using Cons.prems valid_utf8_append [OF Cons.prems(2)] by (simp add: append_cookie_eq valid_utf8_cookie_text)
  with Cons show ?case by simp
qed simp

lemma policy_text: "policy_ok ext c \<Longrightarrow> cookie_text c \<noteq> []"
  by (auto simp: policy_ok_def cookie_text_def)

subsection \<open>Every operation keeps the store well-formed\<close>

lemma stored_all_cookies:
  "tables_ok st \<Longrightarrow> c \<in> set (get_all_cookies st) \<longleftrightarrow> (\<exists>k. stored st k = Some c)"
  by (force simp: get_all_cookies_def stored_def tables_ok_def cookies.entry_map_iff simp flip: table_elems_values)

lemma purge_offset: "purge_expired_cookies now offset st = result_bind (apply_offset now offset st) (\<lambda>(now, st). purge_expired_cookies now None st)"
  by (simp add: purge_expired_cookies_def)

definition earlier :: "duration \<Rightarrow> cookie \<Rightarrow> cookie" where
  "earlier offset c = (case duration_minus (expiry_time c) offset of Done t \<Rightarrow> c\<lparr> expiry_time := t \<rparr> | Verify_failed \<Rightarrow> c)"

lemma subtract_expiry_list:
  "\<lbrakk> \<forall>e \<in> set es. duration_ok (expiry_time (snd e)); duration_ok offset \<rbrakk>
    \<Longrightarrow> for_each_list (subtract_expiry offset) es (Inr ()) = (map (\<lambda>(k, c). (k, earlier offset c)) es, Inr ())"
proof (induction es)
  case (Cons e es)
  obtain k c where e: "e = (k, c)" by (cases e)
  obtain t where "duration_minus (expiry_time c) offset = Done t"
    using duration_minus_saturates [of "expiry_time c" offset] Cons.prems by (auto simp: e)
  then have "subtract_expiry offset k c (Inr ()) = (earlier offset c, Inr ())" by (simp add: subtract_expiry_def earlier_def)
  then show ?case using Cons by (simp add: e)
qed simp

context cookie_property
begin

lemma earlier_P: "\<lbrakk> P c; duration_ok offset \<rbrakk> \<Longrightarrow> P (earlier offset c) \<and> storage_key (earlier offset c) = storage_key c"
  using duration_minus_saturates [of "expiry_time c" offset] times(3) [of c] ok [of c]
  by (auto simp: earlier_def cookie_ok_def split: exec.splits)

lemma expire_with_offset_inv:
  assumes "storage_inv P st" "duration_ok now" "duration_ok offset"
  shows "\<exists>st'. expire_cookies_with_time_offset offset now st = Inr st' \<and> storage_inv P st'"
proof -
  have ok': "table_ok (entry_traits cookie_key_traits) (m_dirty_cookies st)" and ent: "entries_ok P (unsaved st)"
    using assms(1) by (simp_all add: storage_inv_def tables_ok_def)
  have "\<forall>e \<in> set (table_values (m_dirty_cookies st)). duration_ok (expiry_time (snd e))"
  proof
    fix e
    assume "e \<in> set (table_values (m_dirty_cookies st))"
    then have "unsaved st (fst e) = Some (snd e)"
      by (simp add: unsaved_def cookies.entry_map_iff [OF ok'] flip: table_elems_values)
    with ent have "P (snd e)" unfolding entries_ok_def by blast
    from ok [OF this] show "duration_ok (expiry_time (snd e))" by (simp add: cookie_ok_def)
  qed
  from stored_for_each [OF ok' subtract_expiry_list [OF this assms(3)]]
  obtain d where d: "for_each_entry (subtract_expiry offset) (m_dirty_cookies st) (Inr ()) = (d, Inr ())"
    "table_ok (entry_traits cookie_key_traits) d" "entry_map d = map_option (earlier offset) \<circ> unsaved st"
    by (auto simp: unsaved_def)
  obtain t where t: "duration_plus now offset = Done t" using duration_plus_saturates [OF assms(2,3)] by auto
  have "entries_ok P (entry_map d)"
    unfolding d(3) by (rule entries_ok_map [OF ent]) (rule earlier_P [OF _ assms(3)])
  then have inv: "storage_inv P (st\<lparr> m_dirty_cookies := d \<rparr>)"
    using assms(1) d(2) by (simp add: storage_inv_def tables_ok_def stored_def unsaved_def)
  have eq: "expire_cookies_with_time_offset offset now st
      = result_bind (purge_expired_cookies t None (st\<lparr> m_dirty_cookies := d \<rparr>)) (\<lambda>(now, st). Inr st)"
    by (simp add: expire_cookies_with_time_offset_def purge_offset [of now "Some offset"] apply_offset_def d(1) t)
  show ?thesis
  proof (rule purge_inv [OF inv, where now = t])
    fix st'
    assume "purge_expired_cookies t None (st\<lparr> m_dirty_cookies := d \<rparr>) = Inr (t, st')" "storage_inv P st'"
    then show ?thesis unfolding eq by simp
  qed
qed

lemma touched_inv:
  assumes "storage_inv P st" "duration_ok now" "tables_ok st'"
    "stored st' = unexpired t (map_option (touch now sel) \<circ> stored st)" "unsaved st' = unsaved st"
  shows "storage_inv P st'"
proof -
  have "entries_ok P (map_option (touch now sel) \<circ> stored st)"
    using assms(1,2) times(2) by (intro entries_ok_map) (auto simp: storage_inv_def)
  then show ?thesis unfolding storage_inv_def assms(4,5) using assms(1,3) by (simp add: storage_inv_def entries_ok_unexpired)
qed

lemma get_matching_inv:
  assumes "storage_inv P st" "serialize_path u = Done path" "duration_ok now"
  shows "\<exists>cs st'. get_matching_cookies ext u host source mode now now_purge st = Inr (cs, st') \<and> storage_inv P st'
    \<and> (\<forall>c \<in> set cs. P c)"
proof (cases mode)
  case RFC6265
  from get_matching_rfc6265 [OF storage_inv_tables [OF assms(1)] assms(2) refl, of ext host source now now_purge]
  obtain cs st' where cs: "get_matching_cookies ext u host source RFC6265 now now_purge st = Inr (cs, st')" "tables_ok st'"
    "mset cs = image_mset (\<lambda>c. c\<lparr> last_access_time := now \<rparr>) (filter_mset (selected ext u path host source) (mset (get_all_cookies st)))"
    "stored st' = unexpired now_purge (map_option (touch now (selected ext u path host source)) \<circ> stored st)"
    "unsaved st' = unsaved st" by blast
  have "\<exists>d \<in> set (get_all_cookies st). c = d\<lparr> last_access_time := now \<rparr>" if "c \<in> set cs" for c
    using arg_cong [OF cs(3), of "\<lambda>M. c \<in># M"] that by auto
  then have "\<forall>c \<in> set cs. P c"
    using times(2) assms(1,3) stored_all_cookies [OF storage_inv_tables [OF assms(1)]] stored_P [OF assms(1)] by metis
  with cs(1) touched_inv [OF assms(1,3) cs(2,4,5)] RFC6265 show ?thesis by blast
next
  case WebDriver
  from get_matching_webdriver [OF storage_inv_tables [OF assms(1)] assms(2), of ext host source now now_purge]
  obtain st' where st': "get_matching_cookies ext u host source WebDriver now now_purge st
      = Inr (filter (selected ext u path host source) (get_all_cookies st), st')" "tables_ok st'"
    "stored st' = stored st" "unsaved st' = unsaved st" by blast
  have "storage_inv P st'" using assms(1) st' by (simp add: storage_inv_def)
  moreover have "\<forall>c \<in> set (filter (selected ext u path host source) (get_all_cookies st)). P c"
    using stored_all_cookies [OF storage_inv_tables [OF assms(1)]] stored_P [OF assms(1)] by auto
  ultimately show ?thesis using st'(1) WebDriver by blast
qed

lemma get_cookie_inv:
  assumes "storage_inv P st" "request_ok ext u" "duration_ok now" "simdutf_ok ext"
  shows "\<exists>s st'. get_cookie ext u source now_first now now_purge st = Inr (s, st') \<and> storage_inv P st'"
proof (rule purge_inv [OF assms(1), where now = now_first])
  fix st1
  assume st1: "purge_expired_cookies now_first None st = Inr (now_first, st1)" "storage_inv P st1"
  obtain d path where d: "canonicalize_domain ext u = Done d" "serialize_path u = Done path" using assms(2) by (auto simp: request_ok_def)
  show ?thesis
  proof (cases d)
    case None
    with st1 d show ?thesis by (simp add: get_cookie_def)
  next
    case (Some host)
    from get_matching_inv [OF st1(2) d(2) assms(3), of ext host source RFC6265 now_purge]
    obtain cs st2 where cs: "get_matching_cookies ext u host source RFC6265 now now_purge st1 = Inr (cs, st2)" "storage_inv P st2"
      "\<forall>c \<in> set cs. P c" by blast
    then have "valid_utf8 (fold append_cookie cs [])" using ok by (intro valid_utf8_fold_append) auto
    then show ?thesis using st1(1) d(1) Some cs assms(4) by (simp add: get_cookie_def must_from_utf8_def validate_utf8_iff)
  qed
qed

end

subsection \<open>Expiring cookies in a loop\<close>

lemma storage_set_cookie_table:
  assumes "tables_ok st" "storage_set_cookie key c now st = Inr st'" "stored st key \<noteq> None"
  shows "\<exists>r. map_set cookie_key_traits (m_cookies st) key c Replace_Entry = Inr (r, m_cookies st')"
proof -
  have "map_contains cookie_key_traits (m_cookies st) key = Inr True"
    using assms(1,3) cookies.map_contains_ok [of "m_cookies st" key] by (auto simp: tables_ok_def stored_def)
  then show ?thesis
    using assms(2) by (auto simp: storage_set_cookie_def Let_def result_bind_eq_Inr split: if_splits)
qed

abbreviation expired_now :: "cookie \<Rightarrow> cookie" where
  "expired_now c \<equiv> c\<lparr> expiry_time := duration_min \<rparr>"

text \<open>The body of the loop at a used bucket: the cookie is changed in place and then set again.\<close>

lemma expire_step:
  fixes b :: "(cookie_key \<times> cookie) bucket" and now :: unix_date_time
  assumes "tables_ok st" "i < m_capacity (m_cookies st)" "m_buckets (m_cookies st) ! i = Some b" "slot b = (key, v)"
    and m1: "m1 = (m_cookies st)\<lparr> m_buckets := (m_buckets (m_cookies st))[i := Some (b\<lparr> slot := (key, expired_now v) \<rparr>)] \<rparr>"
  obtains st' where "storage_set_cookie key (expired_now v) now (st\<lparr> m_cookies := m1 \<rparr>) = Inr st'" "tables_ok st'"
    "stored st' = (stored st)(key \<mapsto> expired_now v)" "unsaved st' = (unsaved st)(key \<mapsto> expired_now v)"
    "\<not> should_grow (m_cookies st) \<Longrightarrow> m_cookies st' = m1"
    "should_grow (m_cookies st) \<Longrightarrow> m_capacity (m_cookies st) < m_capacity (m_cookies st')"
proof -
  let ?st = "st\<lparr> m_cookies := m1 \<rparr>"
  have ok: "table_ok (entry_traits cookie_key_traits) (m_cookies st)" using assms(1) by (simp add: tables_ok_def)
  note slot = cookies.set_slot_ok [OF ok assms(2-4) m1]
  have tables: "tables_ok ?st" and st: "stored ?st = (stored st)(key \<mapsto> expired_now v)" "unsaved ?st = unsaved st"
    using assms(1) slot by (simp_all add: tables_ok_def stored_def unsaved_def)
  have grow: "should_grow m1 = should_grow (m_cookies st)" and cap: "m_capacity m1 = m_capacity (m_cookies st)"
    by (simp_all add: m1 should_grow_def)
  obtain st' where st': "storage_set_cookie key (expired_now v) now ?st = Inr st'" "tables_ok st'"
    "stored st' = (if expiry_time (expired_now v) < now \<and> stored ?st key = None then stored ?st else (stored ?st)(key \<mapsto> expired_now v))"
    "unsaved st' = (if expiry_time (expired_now v) < now \<and> stored ?st key = None then unsaved ?st else (unsaved ?st)(key \<mapsto> expired_now v))"
    by (rule storage_set_cookie_ok [OF tables, where key = key and c = "expired_now v" and now = now], rule that) assumption+
  obtain r where r: "map_set cookie_key_traits m1 key (expired_now v) Replace_Entry = Inr (r, m_cookies st')"
    using storage_set_cookie_table [OF tables st'(1)] st(1) by auto
  have "m_cookies st' = m1" if "\<not> should_grow (m_cookies st)"
  proof -
    have "map_set cookie_key_traits m1 key (expired_now v) Replace_Entry
        = Inr (ReplacedExistingEntry, m1\<lparr> m_buckets := (m_buckets m1)[i := Some (b\<lparr> slot := (key, expired_now v) \<rparr>)] \<rparr>)"
      using cookies.map_set_in_place [OF slot(1), of i "b\<lparr> slot := (key, expired_now v) \<rparr>" key "expired_now v"] that grow assms(2)
      by (simp add: m1)
    with r show ?thesis by (simp add: m1)
  qed
  moreover have "m_capacity (m_cookies st) < m_capacity (m_cookies st')" if "should_grow (m_cookies st)"
    using cookies.map_set_capacity [OF slot(1) r] that grow cap by simp
  ultimately show thesis using that st' st by simp
qed

lemma expire_loop_Some:
  "\<lbrakk> m_buckets (m_cookies st) ! i = Some b; slot b = (key, v); since \<le> last_access_time v;
     m1 = (m_cookies st)\<lparr> m_buckets := (m_buckets (m_cookies st))[i := Some (b\<lparr> slot := (key, expired_now v) \<rparr>)] \<rparr> \<rbrakk>
   \<Longrightarrow> expire_loop since clock (Suc n) i st
     = result_bind (storage_set_cookie key (expired_now v) (clock i) (st\<lparr> m_cookies := m1 \<rparr>)) (\<lambda>st'.
         if m_capacity (m_cookies st') = m_capacity (m_cookies st) then expire_loop since clock n (i + 1) st'
         else if n = 0 then Inr st' else Inl Use_after_free)"
  by (simp add: Let_def)

lemma expire_loop_skip:
  "\<lbrakk> \<And>b. m_buckets (m_cookies st) ! i = Some b \<Longrightarrow> last_access_time (snd (slot b)) < since \<rbrakk>
   \<Longrightarrow> expire_loop since clock (Suc n) i st = expire_loop since clock n (i + 1) st"
  by (cases "m_buckets (m_cookies st) ! i") (auto simp: Let_def)

text \<open>A bucket that the loop has passed.\<close>

definition expire_bucket :: "unix_date_time \<Rightarrow> (cookie_key \<times> cookie) bucket \<Rightarrow> (cookie_key \<times> cookie) bucket" where
  "expire_bucket since b = (if since \<le> last_access_time (snd (slot b))
     then b\<lparr> slot := (fst (slot b), expired_now (snd (slot b))) \<rparr> else b)"

lemma update_take_map_drop:
  "\<lbrakk> i < length bs; x = f (bs ! i) \<rbrakk> \<Longrightarrow> take (Suc i) (bs[i := x]) @ map f (drop (Suc i) (bs[i := x])) = take i bs @ map f (drop i bs)"
  by (simp add: take_Suc_conv_app_nth Cons_nth_drop_Suc [symmetric])

lemma expire_loop_no_growth:
  "\<lbrakk> tables_ok st; \<not> should_grow (m_cookies st); i + n = m_capacity (m_cookies st) \<rbrakk>
   \<Longrightarrow> \<exists>st'. expire_loop since clock n i st = Inr st' \<and> tables_ok st'
     \<and> m_buckets (m_cookies st') = take i (m_buckets (m_cookies st)) @ map (map_option (expire_bucket since)) (drop i (m_buckets (m_cookies st)))"
proof (induction n arbitrary: i st)
  case (Suc n)
  let ?bs = "m_buckets (m_cookies st)"
  have i: "i < length ?bs" using Suc.prems(3) by simp
  show ?case
  proof (cases "\<exists>b. ?bs ! i = Some b \<and> since \<le> last_access_time (snd (slot b))")
    case False
    then have "expire_loop since clock (Suc n) i st = expire_loop since clock n (i + 1) st"
      by (intro expire_loop_skip) (auto simp: not_le)
    moreover have "map_option (expire_bucket since) (?bs ! i) = ?bs ! i"
      using False by (cases "?bs ! i") (auto simp: expire_bucket_def)
    ultimately show ?thesis
      using Suc.IH [of st "i + 1"] Suc.prems update_take_map_drop [OF i, of "?bs ! i" "map_option (expire_bucket since)"] by simp
  next
    case True
    then obtain b where b: "?bs ! i = Some b" "since \<le> last_access_time (snd (slot b))" by blast
    obtain key v where kv: "slot b = (key, v)" by (cases "slot b")
    let ?m1 = "(m_cookies st)\<lparr> m_buckets := ?bs[i := Some (b\<lparr> slot := (key, expired_now v) \<rparr>)] \<rparr>"
    obtain st1 where st1: "storage_set_cookie key (expired_now v) (clock i) (st\<lparr> m_cookies := ?m1 \<rparr>) = Inr st1" "tables_ok st1"
      "\<not> should_grow (m_cookies st) \<Longrightarrow> m_cookies st1 = ?m1"
      by (rule expire_step [OF Suc.prems(1) i b(1) kv refl, where now = "clock i"], rule that) assumption+
    have m1: "m_cookies st1 = ?m1" using st1(3) Suc.prems(2) by blast
    then have "\<not> should_grow (m_cookies st1)" "i + 1 + n = m_capacity (m_cookies st1)"
      using Suc.prems(2,3) by (simp_all add: should_grow_def)
    from Suc.IH [OF st1(2) this] obtain st' where st': "expire_loop since clock n (i + 1) st1 = Inr st'" "tables_ok st'"
      "m_buckets (m_cookies st') = take (i + 1) (m_buckets (m_cookies st1)) @ map (map_option (expire_bucket since)) (drop (i + 1) (m_buckets (m_cookies st1)))"
      by blast
    have "m_buckets (m_cookies st') = take i ?bs @ map (map_option (expire_bucket since)) (drop i ?bs)"
      using st'(3) update_take_map_drop [OF i, of "Some (b\<lparr> slot := (key, expired_now v) \<rparr>)" "map_option (expire_bucket since)"] b kv
      by (simp add: m1 expire_bucket_def)
    moreover have "expire_loop since clock (Suc n) i st = Inr st'"
      using expire_loop_Some [OF b(1) kv _ refl, of since clock n] b(2) kv st1(1) st'(1) m1 by simp
    ultimately show ?thesis using st'(2) by blast
  qed
qed simp

lemma expire_loop_use_after_free:
  "\<lbrakk> tables_ok st; should_grow (m_cookies st); i + n = m_capacity (m_cookies st); i \<le> j; j + 1 < m_capacity (m_cookies st);
     m_buckets (m_cookies st) ! j = Some b; since \<le> last_access_time (snd (slot b)) \<rbrakk>
   \<Longrightarrow> expire_loop since clock n i st = Inl Use_after_free"
proof (induction n arbitrary: i)
  case (Suc n)
  let ?bs = "m_buckets (m_cookies st)"
  have i: "i < length ?bs" using Suc.prems(3) by simp
  show ?case
  proof (cases "\<exists>c. ?bs ! i = Some c \<and> since \<le> last_access_time (snd (slot c))")
    case False
    then have "i \<noteq> j" using Suc.prems(6,7) by blast
    moreover have "expire_loop since clock (Suc n) i st = expire_loop since clock n (i + 1) st"
      using False by (intro expire_loop_skip) (auto simp: not_le)
    ultimately show ?thesis using Suc.IH [of "i + 1"] Suc.prems by simp
  next
    case True
    then obtain c where c: "?bs ! i = Some c" "since \<le> last_access_time (snd (slot c))" by blast
    obtain key v where kv: "slot c = (key, v)" by (cases "slot c")
    let ?m1 = "(m_cookies st)\<lparr> m_buckets := ?bs[i := Some (c\<lparr> slot := (key, expired_now v) \<rparr>)] \<rparr>"
    obtain st1 where st1: "storage_set_cookie key (expired_now v) (clock i) (st\<lparr> m_cookies := ?m1 \<rparr>) = Inr st1"
      "should_grow (m_cookies st) \<Longrightarrow> m_capacity (m_cookies st) < m_capacity (m_cookies st1)"
      by (rule expire_step [OF Suc.prems(1) i c(1) kv refl, where now = "clock i"], rule that) assumption+
    have "m_capacity (m_cookies st1) \<noteq> m_capacity (m_cookies st)" "n \<noteq> 0" using st1(2) Suc.prems(2-5) by auto
    then show ?thesis using expire_loop_Some [OF c(1) kv _ refl, of since clock n] c(2) kv st1(1) by simp
  qed
qed simp

end
