(* ===== verification/Spec2Isabelle.thy ===== *)
theory Spec2Isabelle
  imports URL_Round_Trip Web_Cookie_Jar
begin

text \<open>
  A verification library for the URL machinery of the CryFox browser.

  The program is a web browser: a user interface, a renderer (LibWeb, LibJS, LibWasm), a network
  process and the libraries they share.  Every part names resources by URL and decides what may talk to
  what by origin and site; that machinery is \<^verbatim>\<open>Libraries/LibURL\<close>, on top of the strings of \<^verbatim>\<open>AK\<close>.  This
  development models it from the byte up to the parser.

  Theories, from the bottom:
  \<^item> \<open>Prelude\<close>: types shared by all (\<open>code_point\<close>, \<open>byte_string\<close>), the result type \<open>exec\<close> of code
    with assertions (\<open>Verify_failed\<close> is a failing \<^verbatim>\<open>VERIFY\<close>, which stops the process), bit and list
    lemmas, and the locale \<open>codec\<close> of an encoder with its decoder.
  \<^item> \<open>AK_Characters\<close> (\<^verbatim>\<open>AK/CharacterTypes.h\<close>), \<open>AK_Utf8\<close> (\<^verbatim>\<open>AK/UnicodeUtils.h\<close>, \<^verbatim>\<open>AK/Utf8View.h\<close>),
    \<open>AK_Strings\<close> (\<^verbatim>\<open>AK/StringView\<close>, \<^verbatim>\<open>AK/StringUtils\<close>, \<^verbatim>\<open>AK/Format.cpp\<close>, \<^verbatim>\<open>AK/StringConversions.cpp\<close>) and
    \<open>AK_Hash\<close> (\<^verbatim>\<open>AK/HashFunctions.h\<close>, \<^verbatim>\<open>AK/StringHash.h\<close>, with the locale \<open>hash_traits\<close>).
  \<^item> \<open>URL_Percent_Encoding\<close>, \<open>URL_IP_Address\<close>, \<open>URL_Host\<close>: percent-encoding, IP addresses and hosts of
    \<^verbatim>\<open>Libraries/LibURL/URL.cpp\<close>, \<^verbatim>\<open>Host.cpp\<close> and \<^verbatim>\<open>Parser.cpp\<close>.
  \<^item> \<open>URL_Origin\<close>: origins and sites, with the locale \<open>equivalence_test\<close>.
  \<^item> \<open>URL_Record\<close>: the URL record, setters and serializers.
  \<^item> \<open>URL_Parser\<close>: the state machine of \<^verbatim>\<open>Parser::basic_parse\<close>, one definition per state.

  Code that is not in the repository is the record \<open>externals\<close>, an argument of what uses it: the UTF-8
  and ASCII checks of simdutf, the number parser fast\_float, ICU's IDNA mapping and the generated
  public suffix list.  What is relied on of them are the predicates \<open>simdutf_ok\<close>, \<open>fast_float_ok\<close>,
  \<open>icu_ok\<close> and \<open>psl_ok\<close>; \<open>reference_externals\<close> satisfies them all.

  Not modelled: memory and reference counting (values are HOL values), debug output and validation
  errors (which only log), legacy text encoders (arguments of the parser) and the rest of the browser.
\<close>

end
